(* ===== verification/Prelude.thy ===== *)
theory Prelude
  imports Main "HOL-Library.Word" "HOL-Library.Signed_Division"
begin

text \<open>
  Shared vocabulary of the development: the machine integers of the Rust code and the
  \<open>Result\<close> type with its combinators.
  \<^item> \<open>i64\<close> and \<open>u64\<close> are both 64-bit words: \<open>sint\<close> reads the first, \<open>unat\<close> the
    second, and the source's casts \<open>as i64\<close> and \<open>as u64\<close> keep the bits, so they are the
    identity here.  The money functions compute in \<open>i128\<close>, which is \<open>int\<close> in theory \<open>Domain\<close>;
    theory \<open>Money_Width\<close> has them on 128-bit words and proves that they agree.
  \<^item> \<open>Result<T, E>\<close> is the sum \<open>E + T\<close>, with \<open>and_then\<close> for the \<open>?\<close> operator.
  \<^item> \<open>rstring\<close> is a Rust string: the list of the bytes of its UTF-8 encoding, which is
    what \<open>String\<close> holds, so that \<open>length\<close> is \<open>str::len\<close>.
\<close>

section \<open>Collections of rules\<close>

named_theorems result_simps \<open>equations that take a computation of a Result apart\<close>

section \<open>Machine integers\<close>

type_synonym i64 = "64 word"
type_synonym u64 = "64 word"
type_synonym i128 = int
type_synonym rstring = string

definition fits_i64 :: "int \<Rightarrow> bool" where
  "fits_i64 p \<longleftrightarrow> - (2 ^ 63) \<le> p \<and> p < 2 ^ 63"

definition fits_i128 :: "int \<Rightarrow> bool" where
  "fits_i128 p \<longleftrightarrow> - (2 ^ 127) \<le> p \<and> p < 2 ^ 127"

text \<open>\<open>i64::try_from(p)\<close> for an \<open>i128\<close> value, with the failure as \<open>None\<close>.\<close>

definition i64_try_from :: "i128 \<Rightarrow> i64 option" where
  "i64_try_from p = (if fits_i64 p then Some (word_of_int p) else None)"

lemma sint_fits_i64 [simp]: "fits_i64 (sint (w :: i64))"
  using sint_greater_eq [of w] sint_less [of w] by (simp add: fits_i64_def)

lemma sint_word_of_int_fits: "fits_i64 p \<Longrightarrow> sint (word_of_int p :: i64) = p"
  unfolding fits_i64_def
  by (simp add: sint_sbintrunc' signed_take_bit_int_eq_self)

lemma i64_try_from_eq_Some: "i64_try_from p = Some w \<longleftrightarrow> p = sint w"
  unfolding i64_try_from_def
  by (auto simp: sint_word_of_int_fits)

lemma i64_try_from_eq_None: "i64_try_from p = None \<longleftrightarrow> \<not> fits_i64 p"
  by (simp add: i64_try_from_def)

lemma i64_try_from_sint [simp]: "i64_try_from (sint w) = Some w"
  by (simp add: i64_try_from_eq_Some)

text \<open>
  \<open>n as f64\<close> for an unsigned integer: 53 significant bits, rounded to the nearest value, and to the
  even one of two that are equally near.  The result is a whole number, modelled as one.
\<close>

fun bit_length :: "nat \<Rightarrow> nat" where
  "bit_length n = (if n = 0 then 0 else Suc (bit_length (n div 2)))"

declare bit_length.simps [simp del]

definition round_even :: "nat \<Rightarrow> nat \<Rightarrow> nat" where
  "round_even e n =
     (let q = n div 2 ^ e; r = n mod 2 ^ e
      in (if 2 * r < 2 ^ e \<or> 2 * r = 2 ^ e \<and> even q then q else q + 1) * 2 ^ e)"

definition as_f64 :: "u64 \<Rightarrow> nat" where
  "as_f64 n = round_even (bit_length (unat n) - 53) (unat n)"

lemma bit_length_le: "n < 2 ^ k \<Longrightarrow> bit_length n \<le> k"
proof (induction k arbitrary: n)
  case 0
  then show ?case by (simp add: bit_length.simps)
next
  case (Suc k)
  then have "n div 2 < 2 ^ k" by (simp add: less_mult_imp_div_less mult.commute)
  with Suc.IH show ?case by (subst bit_length.simps) simp
qed

lemma as_f64_exact: "unat n < 2 ^ 53 \<Longrightarrow> as_f64 n = unat n"
  using bit_length_le [of "unat n" 53] by (simp add: as_f64_def round_even_def)

lemma as_f64_0 [simp]: "as_f64 0 = 0"
  by (simp add: as_f64_exact)

section \<open>Results\<close>

definition and_then :: "'e + 'a \<Rightarrow> ('a \<Rightarrow> 'e + 'b) \<Rightarrow> 'e + 'b" where
  "and_then r f = (case r of Inl e \<Rightarrow> Inl e | Inr a \<Rightarrow> f a)"

definition map_err :: "('e \<Rightarrow> 'f) \<Rightarrow> 'e + 'a \<Rightarrow> 'f + 'a" where
  "map_err h r = (case r of Inl e \<Rightarrow> Inl (h e) | Inr a \<Rightarrow> Inr a)"

definition ok_or :: "'a option \<Rightarrow> 'e \<Rightarrow> 'e + 'a" where
  "ok_or x e = (case x of None \<Rightarrow> Inl e | Some a \<Rightarrow> Inr a)"

text \<open>A guard \<open>if c { return Err(e) }\<close> in front of the rest of a body.\<close>

definition fail_if :: "bool \<Rightarrow> 'e \<Rightarrow> 'e + 'a \<Rightarrow> 'e + 'a" where
  "fail_if c e k = (if c then Inl e else k)"

lemma and_then_Inl [simp]: "and_then (Inl e) f = Inl e"
  by (simp add: and_then_def)

lemma and_then_Inr [simp]: "and_then (Inr a) f = f a"
  by (simp add: and_then_def)

lemma and_then_eq_Inr [result_simps]: "and_then r f = Inr b \<longleftrightarrow> (\<exists>a. r = Inr a \<and> f a = Inr b)"
  by (cases r) auto

lemma and_then_eq_Inl [result_simps]:
  "and_then r f = Inl e \<longleftrightarrow> r = Inl e \<or> (\<exists>a. r = Inr a \<and> f a = Inl e)"
  by (cases r) auto

lemma map_err_simps [simp]: "map_err h (Inl e) = Inl (h e)" "map_err h (Inr a) = Inr a"
  by (simp_all add: map_err_def)

lemma map_err_eq_Inr [result_simps]: "map_err h r = Inr b \<longleftrightarrow> r = Inr b"
  by (cases r) auto

lemma map_err_eq_Inl [result_simps]: "map_err h r = Inl e \<longleftrightarrow> (\<exists>d. r = Inl d \<and> e = h d)"
  by (cases r) auto

lemma ok_or_simps [simp]: "ok_or None e = Inl e" "ok_or (Some a) e = Inr a"
  by (simp_all add: ok_or_def)

lemma ok_or_eq_Inr [result_simps]: "ok_or x e = Inr a \<longleftrightarrow> x = Some a"
  by (cases x) auto

lemma ok_or_eq_Inl [result_simps]: "ok_or x e = Inl d \<longleftrightarrow> x = None \<and> d = e"
  by (cases x) auto

lemma fail_if_simps [simp]: "fail_if True e k = Inl e" "fail_if False e k = k"
  by (simp_all add: fail_if_def)

lemma fail_if_eq_Inr [result_simps]: "fail_if c e k = Inr a \<longleftrightarrow> \<not> c \<and> k = Inr a"
  by (simp add: fail_if_def)

lemma fail_if_eq_Inl [result_simps]: "fail_if c e k = Inl d \<longleftrightarrow> (c \<and> d = e) \<or> (\<not> c \<and> k = Inl d)"
  by (auto simp: fail_if_def)

text \<open>A loop that stops at the first error: \<open>for x in xs { s = f(s, x)?; }\<close>.\<close>

fun try_fold :: "('s \<Rightarrow> 'x \<Rightarrow> 'e + 's) \<Rightarrow> 's \<Rightarrow> 'x list \<Rightarrow> 'e + 's" where
  "try_fold f s [] = Inr s"
| "try_fold f s (x # xs) = and_then (f s x) (\<lambda>s'. try_fold f s' xs)"

lemma try_fold_append:
  "try_fold f s (xs @ ys) = and_then (try_fold f s xs) (\<lambda>s'. try_fold f s' ys)"
proof (induction xs arbitrary: s)
  case (Cons x xs)
  then show ?case by (cases "f s x") simp_all
qed simp

lemma try_fold_snoc:
  "try_fold f s xs = Inr s' \<Longrightarrow> try_fold f s (xs @ [x]) = f s' x"
  by (cases "f s' x") (simp_all add: try_fold_append)

text \<open>A loop that pushes the results of a fallible call: \<open>out.push(f(x)?)\<close>.\<close>

fun try_map :: "('x \<Rightarrow> 'e + 'y) \<Rightarrow> 'x list \<Rightarrow> 'e + 'y list" where
  "try_map f [] = Inr []"
| "try_map f (x # xs) = and_then (f x) (\<lambda>y. and_then (try_map f xs) (\<lambda>ys. Inr (y # ys)))"

lemma try_map_total: "(\<And>x. x \<in> set xs \<Longrightarrow> f x = Inr (g x)) \<Longrightarrow> try_map f xs = Inr (map g xs)"
  by (induction xs) simp_all

lemma try_map_length: "try_map f xs = Inr ys \<Longrightarrow> length ys = length xs"
  by (induction xs arbitrary: ys) (auto simp: result_simps)

lemma try_map_all: "try_map f xs = Inr ys \<Longrightarrow> list_all2 (\<lambda>x y. f x = Inr y) xs ys"
  by (induction xs arbitrary: ys) (auto simp: result_simps)

section \<open>Computations with a state\<close>

text \<open>
  A call that may change a state \<open>'s\<close> (the database connection, the ledger) and returns a
  \<open>Result\<close>.  The state survives an error, as it does in the source.
\<close>

type_synonym ('s, 'e, 'a) comp = "'s \<Rightarrow> ('e + 'a) \<times> 's"

named_theorems st_simps \<open>how computations with a state run\<close>

definition st_return :: "'a \<Rightarrow> ('s, 'e, 'a) comp" where
  "st_return a s = (Inr a, s)"

definition st_lift :: "'e + 'a \<Rightarrow> ('s, 'e, 'a) comp" where
  "st_lift r s = (r, s)"

definition st_bind :: "('s, 'e, 'a) comp \<Rightarrow> ('a \<Rightarrow> ('s, 'e, 'b) comp) \<Rightarrow> ('s, 'e, 'b) comp" where
  "st_bind m f s = (case m s of (Inl e, s') \<Rightarrow> (Inl e, s') | (Inr a, s') \<Rightarrow> f a s')"

definition st_map_err :: "('e \<Rightarrow> 'f) \<Rightarrow> ('s, 'e, 'a) comp \<Rightarrow> ('s, 'f, 'a) comp" where
  "st_map_err h m s = (case m s of (r, s') \<Rightarrow> (map_err h r, s'))"

lemma st_return_run [st_simps]: "st_return a s = (Inr a, s)"
  by (simp add: st_return_def)

lemma st_lift_run [st_simps]: "st_lift r s = (r, s)"
  by (simp add: st_lift_def)

lemma st_bind_run [st_simps]:
  "m s = (Inl e, s') \<Longrightarrow> st_bind m f s = (Inl e, s')"
  "m s = (Inr a, s') \<Longrightarrow> st_bind m f s = f a s'"
  by (simp_all add: st_bind_def)

text \<open>The two ways a sequence of calls can end.\<close>

lemma st_bind_cases:
  assumes "st_bind m f s = (r, s')"
  obtains (first_fails) e where "m s = (Inl e, s')" and "r = Inl e"
    | (continues) a t where "m s = (Inr a, t)" and "f a t = (r, s')"
proof (cases "m s")
  case (Pair r1 t)
  with assms show ?thesis
    by (cases r1) (auto simp: st_bind_def intro: first_fails continues)
qed

section \<open>Steps\<close>

lemma two_steps: "R x y \<Longrightarrow> R y z \<Longrightarrow> R\<^sup>*\<^sup>* x z"
  by (auto intro: converse_rtranclp_into_rtranclp)

end
