(* ===== verification/Rust_Strings.thy ===== *)
theory Rust_Strings
  imports Prelude "HOL-Library.Sublist"
begin

text \<open>
  The operations of \<open>str\<close> that the source uses, on strings as lists of UTF-8 bytes: \<open>trim\<close>
  with the Unicode white space of the standard library, ASCII case and character classes,
  \<open>split_once\<close>, and the decimal printing and parsing of unsigned integers.  The lemmas say
  when \<open>trim\<close> leaves a string alone, which strings are blank, and that parsing inverts
  printing.
\<close>

named_theorems trim_simps \<open>facts about trimming white space\<close>

section \<open>Strings\<close>

text \<open>
  \<open>str::trim\<close> removes leading and trailing characters with the Unicode property
  \<open>White_Space\<close>: here their UTF-8 encodings.
\<close>

definition white_space :: "string list" where
  "white_space =
     map (\<lambda>c. [c]) [CHR 0x09, CHR 0x0A, CHR 0x0B, CHR 0x0C, CHR 0x0D, CHR 0x20] @
     [[CHR 0xC2, CHR 0x85], [CHR 0xC2, CHR 0xA0], [CHR 0xE1, CHR 0x9A, CHR 0x80]] @
     map (\<lambda>c. [CHR 0xE2, CHR 0x80, c])
       [CHR 0x80, CHR 0x81, CHR 0x82, CHR 0x83, CHR 0x84, CHR 0x85, CHR 0x86, CHR 0x87,
        CHR 0x88, CHR 0x89, CHR 0x8A, CHR 0xA8, CHR 0xA9, CHR 0xAF] @
     [[CHR 0xE2, CHR 0x81, CHR 0x9F], [CHR 0xE3, CHR 0x80, CHR 0x80]]"

function strip_leading :: "string list \<Rightarrow> string \<Rightarrow> string" where
  "strip_leading ws s =
     (case List.find (\<lambda>w. w \<noteq> [] \<and> prefix w s) ws of
        None \<Rightarrow> s
      | Some w \<Rightarrow> strip_leading ws (drop (length w) s))"
  by pat_completeness auto
termination
proof (relation "measure (\<lambda>(ws, s). length s)")
  fix ws :: "string list" and s w
  assume "List.find (\<lambda>w. w \<noteq> [] \<and> prefix w s) ws = Some w"
  then have "w \<noteq> []" and "prefix w s" by (auto simp: find_Some_iff)
  then show "((ws, drop (length w) s), (ws, s)) \<in> measure (\<lambda>(ws, s). length s)"
    by (cases s) (auto simp: prefix_def)
qed simp

declare strip_leading.simps [simp del]

definition trim_start :: "rstring \<Rightarrow> rstring" where
  "trim_start s = strip_leading white_space s"

definition trim_end :: "rstring \<Rightarrow> rstring" where
  "trim_end s = rev (strip_leading (map rev white_space) (rev s))"

definition trim :: "rstring \<Rightarrow> rstring" where
  "trim s = trim_end (trim_start s)"

definition is_blank :: "rstring \<Rightarrow> bool" where
  "is_blank s \<longleftrightarrow> trim s = []"


lemma strip_leading_None:
  "List.find (\<lambda>w. w \<noteq> [] \<and> prefix w s) ws = None \<Longrightarrow> strip_leading ws s = s"
  by (simp add: strip_leading.simps [of ws s])

lemma strip_leading_Some:
  "List.find (\<lambda>w. w \<noteq> [] \<and> prefix w s) ws = Some w \<Longrightarrow>
   strip_leading ws s = strip_leading ws (drop (length w) s)"
  by (simp add: strip_leading.simps [of ws s])

lemma strip_leading_id:
  "(\<And>w. w \<in> set ws \<Longrightarrow> w \<noteq> [] \<Longrightarrow> \<not> prefix w s) \<Longrightarrow> strip_leading ws s = s"
  by (rule strip_leading_None) (auto simp: find_None_iff)

lemma strip_leading_Nil [simp]: "strip_leading ws [] = []"
  by (rule strip_leading_id) simp

text \<open>What is left has no white space in front, and what was removed is white space.\<close>

lemma strip_leading_stuck:
  "w \<in> set ws \<Longrightarrow> w \<noteq> [] \<Longrightarrow> \<not> prefix w (strip_leading ws s)"
proof (induction ws s rule: strip_leading.induct)
  case (1 ws s)
  show ?case
  proof (cases "List.find (\<lambda>w. w \<noteq> [] \<and> prefix w s) ws")
    case None
    with 1(2,3) show ?thesis
      unfolding strip_leading_None [OF None] by (auto simp: find_None_iff)
  next
    case (Some v)
    with 1 show ?thesis by (simp add: strip_leading_Some)
  qed
qed

lemma strip_leading_split: "\<exists>vs. set vs \<subseteq> set ws \<and> s = concat vs @ strip_leading ws s"
proof (induction ws s rule: strip_leading.induct)
  case (1 ws s)
  show ?case
  proof (cases "List.find (\<lambda>w. w \<noteq> [] \<and> prefix w s) ws")
    case None
    then show ?thesis by (auto simp: strip_leading_None intro: exI [of _ "[]"])
  next
    case (Some v)
    then have v: "v \<in> set ws" "prefix v s" by (auto simp: find_Some_iff)
    from 1 [OF Some] obtain vs where "set vs \<subseteq> set ws"
      and "drop (length v) s = concat vs @ strip_leading ws (drop (length v) s)" by auto
    with v have "set (v # vs) \<subseteq> set ws \<and> s = concat (v # vs) @ strip_leading ws s"
      unfolding strip_leading_Some [OF Some] by (auto simp: prefix_def)
    then show ?thesis by blast
  qed
qed

text \<open>
  No encoding in the list starts with an ASCII letter, digit or punctuation byte, and none ends
  with one, so a string that starts and ends with such a byte is its own \<open>trim\<close>.
\<close>

definition ascii_graphic :: "char \<Rightarrow> bool" where
  "ascii_graphic c \<longleftrightarrow> 0x21 \<le> (of_char c :: nat) \<and> (of_char c :: nat) \<le> 0x7E"

lemma white_space_ends:
  "\<forall>w \<in> set white_space. w \<noteq> [] \<and> \<not> ascii_graphic (hd w) \<and> \<not> ascii_graphic (last w)"
  by (simp add: white_space_def ascii_graphic_def)

lemma trim_graphic [trim_simps]:
  assumes "s \<noteq> [] \<Longrightarrow> ascii_graphic (hd s) \<and> ascii_graphic (last s)"
  shows "trim s = s"
proof -
  have "strip_leading white_space s = s"
    using assms white_space_ends by (intro strip_leading_id) (fastforce simp: prefix_def)
  moreover have "strip_leading (map rev white_space) (rev s) = rev s"
  proof (rule strip_leading_id)
    fix w assume "w \<in> set (map rev white_space)" and w: "w \<noteq> []"
    then obtain v where "v \<in> set white_space" "w = rev v" by auto
    with white_space_ends have v: "v \<noteq> []" "\<not> ascii_graphic (last v)" by auto
    show "\<not> prefix w (rev s)"
    proof
      assume "prefix w (rev s)"
      then have "suffix v s" by (simp add: \<open>w = rev v\<close> suffix_to_prefix)
      with v assms show False by (auto simp: suffix_def)
    qed
  qed
  ultimately show ?thesis by (simp add: trim_def trim_start_def trim_end_def)
qed

text \<open>A string is blank exactly when it is a sequence of white space characters.\<close>

lemma trim_end_split: "\<exists>vs. set vs \<subseteq> set white_space \<and> s = trim_end s @ concat vs"
proof -
  obtain vs where vs: "set vs \<subseteq> set (map rev white_space)"
    and eq: "rev s = concat vs @ strip_leading (map rev white_space) (rev s)"
    using strip_leading_split by blast
  from eq have "s = trim_end s @ rev (concat vs)"
    by (metis rev_append rev_rev_ident trim_end_def)
  moreover from vs have "set (rev (map rev vs)) \<subseteq> set white_space" by auto
  moreover have "rev (concat vs) = concat (rev (map rev vs))" by (simp add: rev_concat rev_map)
  ultimately show ?thesis by metis
qed

lemma is_blank_white_space:
  assumes "is_blank s"
  shows "\<exists>vs. set vs \<subseteq> set white_space \<and> s = concat vs"
proof -
  obtain us where "set us \<subseteq> set white_space" and "s = concat us @ trim_start s"
    unfolding trim_start_def using strip_leading_split by blast
  moreover obtain vs where "set vs \<subseteq> set white_space"
    and "trim_start s = trim_end (trim_start s) @ concat vs"
    using trim_end_split by blast
  ultimately have "set (us @ vs) \<subseteq> set white_space \<and> s = concat (us @ vs)"
    using assms by (simp add: is_blank_def trim_def)
  then show ?thesis by blast
qed

lemma white_space_prefix_free:
  "\<forall>v \<in> set white_space. \<forall>w \<in> set white_space. prefix v w \<longrightarrow> v = w"
  by (simp add: white_space_def)

lemma strip_leading_white_space:
  "set vs \<subseteq> set white_space \<Longrightarrow> strip_leading white_space (concat vs) = []"
proof (induction vs)
  case (Cons v vs)
  let ?P = "\<lambda>w. w \<noteq> [] \<and> prefix w (concat (v # vs))"
  from Cons.prems have v: "v \<in> set white_space" by simp
  with white_space_ends have "v \<noteq> []" by auto
  with v have "\<exists>w. List.find ?P white_space = Some w"
    using find_None_iff [of ?P white_space] by (cases "List.find ?P white_space") auto
  then obtain w where w: "List.find ?P white_space = Some w" by blast
  then have "w \<in> set white_space" "prefix w (v @ concat vs)" by (auto simp: find_Some_iff)
  with v white_space_prefix_free have "w = v"
    by (metis append_prefixD prefix_append prefix_order.refl prefix_same_cases prefixI)
  with w Cons show ?case by (simp add: strip_leading_Some)
qed simp

lemma is_blank_iff:
  "is_blank s \<longleftrightarrow> (\<exists>vs. set vs \<subseteq> set white_space \<and> s = concat vs)"
  using is_blank_white_space strip_leading_white_space
  by (auto simp: is_blank_def trim_def trim_start_def trim_end_def)

section \<open>ASCII classes and case\<close>

definition in_range :: "nat \<Rightarrow> nat \<Rightarrow> char \<Rightarrow> bool" where
  "in_range lo hi c \<longleftrightarrow> lo \<le> of_char c \<and> of_char c \<le> hi"

definition is_ascii_digit :: "char \<Rightarrow> bool" where
  "is_ascii_digit c \<longleftrightarrow> in_range 48 57 c"

definition is_ascii_alphanumeric :: "char \<Rightarrow> bool" where
  "is_ascii_alphanumeric c \<longleftrightarrow> in_range 48 57 c \<or> in_range 65 90 c \<or> in_range 97 122 c"

definition ascii_lower :: "char \<Rightarrow> char" where
  "ascii_lower c = (if in_range 65 90 c then char_of (of_char c + 32 :: nat) else c)"

definition to_ascii_lowercase :: "rstring \<Rightarrow> rstring" where
  "to_ascii_lowercase s = List.map ascii_lower s"

definition eq_ignore_ascii_case :: "rstring \<Rightarrow> rstring \<Rightarrow> bool" where
  "eq_ignore_ascii_case s t \<longleftrightarrow> to_ascii_lowercase s = to_ascii_lowercase t"

text \<open>\<open>str::starts_with\<close> and \<open>str::split_once\<close> with a one-byte separator.\<close>

definition starts_with :: "rstring \<Rightarrow> rstring \<Rightarrow> bool" where
  "starts_with s p \<longleftrightarrow> prefix p s"

fun split_once :: "char \<Rightarrow> rstring \<Rightarrow> (rstring \<times> rstring) option" where
  "split_once d [] = None"
| "split_once d (c # s) =
     (if c = d then Some ([], s)
      else map_option (\<lambda>(a, b). (c # a, b)) (split_once d s))"

lemma split_once_Some_iff:
  "split_once d s = Some (a, b) \<longleftrightarrow> s = a @ d # b \<and> d \<notin> set a"
proof (induction s arbitrary: a)
  case (Cons c s)
  then show ?case by (cases a) auto
qed simp

lemma split_once_None_iff: "split_once d s = None \<longleftrightarrow> d \<notin> set s"
  by (induction s) auto

section \<open>Decimal numbers\<close>

definition digit_char :: "nat \<Rightarrow> char" where
  "digit_char d = char_of (48 + d)"

definition to_digit :: "char \<Rightarrow> nat option" where
  "to_digit c = (if is_ascii_digit c then Some (of_char c - 48) else None)"

text \<open>\<open>Display\<close> of an unsigned integer.\<close>

fun show_nat :: "nat \<Rightarrow> rstring" where
  "show_nat n = (if n < 10 then [digit_char n] else show_nat (n div 10) @ [digit_char (n mod 10)])"

declare show_nat.simps [simp del]

text \<open>
  \<open>str::parse\<close> into an unsigned integer type with maximum \<open>mx\<close>: an optional plus sign and at
  least one digit; the first offending position decides between the last two errors.
\<close>

datatype ParseIntError = Empty | InvalidDigit | PosOverflow

fun display_parse_int_error :: "ParseIntError \<Rightarrow> rstring" where
  "display_parse_int_error Empty = ''cannot parse integer from empty string''"
| "display_parse_int_error InvalidDigit = ''invalid digit found in string''"
| "display_parse_int_error PosOverflow = ''number too large to fit in target type''"

definition push_digit :: "nat \<Rightarrow> nat \<Rightarrow> char \<Rightarrow> ParseIntError + nat" where
  "push_digit mx acc c =
     and_then (ok_or (to_digit c) InvalidDigit)
       (\<lambda>d. fail_if (mx < 10 * acc + d) PosOverflow (Inr (10 * acc + d)))"

definition parse_unsigned :: "nat \<Rightarrow> rstring \<Rightarrow> ParseIntError + nat" where
  "parse_unsigned mx s =
     (case s of
        [] \<Rightarrow> Inl Empty
      | c # cs \<Rightarrow>
          if c = CHR ''+'' \<and> cs \<noteq> [] then try_fold (push_digit mx) 0 cs
          else try_fold (push_digit mx) 0 s)"

lemma of_char_digit_char: "d < 10 \<Longrightarrow> (of_char (digit_char d) :: nat) = 48 + d"
  by (simp add: digit_char_def)

lemma to_digit_digit_char [simp]: "d < 10 \<Longrightarrow> to_digit (digit_char d) = Some d"
  by (simp add: to_digit_def is_ascii_digit_def in_range_def of_char_digit_char)

lemma push_digit_eq_Inr:
  "push_digit mx acc c = Inr r \<longleftrightarrow> (\<exists>d. to_digit c = Some d \<and> r = 10 * acc + d \<and> r \<le> mx)"
  by (auto simp: push_digit_def result_simps)

lemma try_fold_push_bound:
  "try_fold (push_digit mx) acc s = Inr n \<Longrightarrow> s \<noteq> [] \<or> acc \<le> mx \<Longrightarrow> n \<le> mx"
  by (induction s arbitrary: acc) (auto simp: and_then_eq_Inr push_digit_eq_Inr)

lemma parse_unsigned_bound: "parse_unsigned mx s = Inr n \<Longrightarrow> n \<le> mx"
  unfolding parse_unsigned_def
  by (cases s) (auto simp del: try_fold.simps dest: try_fold_push_bound split: if_splits)

lemma try_fold_show_nat: "n \<le> mx \<Longrightarrow> try_fold (push_digit mx) 0 (show_nat n) = Inr n"
proof (induction n rule: show_nat.induct)
  case (1 n)
  show ?case
  proof (cases "n < 10")
    case True
    with 1(2) have "push_digit mx 0 (digit_char n) = Inr n" by (simp add: push_digit_eq_Inr)
    with True show ?thesis by (simp add: show_nat.simps [of n])
  next
    case False
    with 1 have "try_fold (push_digit mx) 0 (show_nat (n div 10)) = Inr (n div 10)" by simp
    moreover have "push_digit mx (n div 10) (digit_char (n mod 10)) = Inr n"
      using 1(2) by (simp add: push_digit_eq_Inr)
    ultimately show ?thesis using False by (simp add: show_nat.simps [of n] try_fold_snoc)
  qed
qed

lemma hd_show_nat: "show_nat n \<noteq> [] \<and> hd (show_nat n) \<noteq> CHR ''+''"
proof (induction n rule: show_nat.induct)
  case (1 n)
  have "of_char (digit_char n) \<noteq> (of_char (CHR ''+'') :: nat)" if "n < 10"
    using that by (simp add: of_char_digit_char)
  then show ?case using 1 by (subst (1 2) show_nat.simps) auto
qed

lemma parse_show_nat: "n \<le> mx \<Longrightarrow> parse_unsigned mx (show_nat n) = Inr n"
  using hd_show_nat [of n] try_fold_show_nat [of n mx]
  by (auto simp: parse_unsigned_def split: list.split)

end
