(* ===== verification/Event_Sourcing.thy ===== *)
theory Event_Sourcing
  imports Prelude
begin

text \<open>
  The interface between a domain and the log that stores its events: a start state, an
  \<open>apply_event\<close> that replays one stored event, and a \<open>decide\<close> that turns a command into the
  events to append.  The contract is that the events a command is answered with can be applied
  to the state it was decided on, and lead to a good state again.  Under it, a log that grew by
  accepted commands replays without an error, to the state the commands produced.
\<close>

section \<open>Processing a sequence of commands\<close>

text \<open>
  The state and the log after a sequence of commands.  A rejected command leaves both as they are;
  the events of an accepted one are in the log, and when they do not apply, the run has failed.
\<close>

fun run_commands ::
  "('s \<Rightarrow> 'e \<Rightarrow> 'x + 's) \<Rightarrow> ('s \<Rightarrow> 'c \<Rightarrow> 'x + 'e list) \<Rightarrow> 's \<Rightarrow> 'c list \<Rightarrow> 'x + 's \<times> 'e list" where
  "run_commands ap dc s [] = Inr (s, [])"
| "run_commands ap dc s (c # cs) =
     (case dc s c of
        Inl _ \<Rightarrow> run_commands ap dc s cs
      | Inr es \<Rightarrow>
          and_then (try_fold ap s es) (\<lambda>s'.
          and_then (run_commands ap dc s' cs) (\<lambda>(t, rest). Inr (t, es @ rest))))"

text \<open>
  The log alone, the way a service keeps it: every command is decided on what the whole log
  replays to, and what it is answered with is appended.
\<close>

definition log_command ::
  "'s \<Rightarrow> ('s \<Rightarrow> 'e \<Rightarrow> 'x + 's) \<Rightarrow> ('s \<Rightarrow> 'c \<Rightarrow> 'x + 'e list) \<Rightarrow> 'e list \<Rightarrow> 'c \<Rightarrow> 'e list" where
  "log_command init ap dc es c =
     (case and_then (try_fold ap init es) (\<lambda>s. dc s c) of Inl _ \<Rightarrow> es | Inr new \<Rightarrow> es @ new)"

section \<open>The contract\<close>

locale event_sourced =
  fixes init :: "'s"
    and apply_event :: "'s \<Rightarrow> 'e \<Rightarrow> 'x + 's"
    and decide :: "'s \<Rightarrow> 'c \<Rightarrow> 'x + 'e list"
    and inv :: "'s \<Rightarrow> bool"
  assumes inv_init: "inv init"
    and decide_applies:
      "inv s \<Longrightarrow> decide s c = Inr es \<Longrightarrow> \<exists>s'. try_fold apply_event s es = Inr s' \<and> inv s'"
begin

lemma run_commands_replays:
  "inv s \<Longrightarrow> \<exists>t es. run_commands apply_event decide s cs = Inr (t, es) \<and>
     try_fold apply_event s es = Inr t \<and> inv t"
proof (induction cs arbitrary: s)
  case (Cons c cs)
  show ?case
  proof (cases "decide s c")
    case (Inl x)
    with Cons show ?thesis by simp
  next
    case (Inr new)
    from decide_applies [OF Cons.prems Inr] obtain s' where s': "try_fold apply_event s new = Inr s'" "inv s'"
      by blast
    with Cons.IH [OF s'(2)] Inr show ?thesis by (auto simp: try_fold_append)
  qed
qed simp

text \<open>A log is a history when it replays from the start to a good state.\<close>

lemma history_extends:
  assumes "try_fold apply_event init es = Inr s" and "inv s" and "decide s c = Inr es'"
  shows "\<exists>s'. try_fold apply_event init (es @ es') = Inr s' \<and> inv s'"
  using decide_applies [OF assms(2,3)] assms(1) by (simp add: try_fold_append)

lemma log_command_extends:
  assumes "try_fold apply_event init es = Inr s" and "inv s"
  shows "\<exists>s'. try_fold apply_event init (log_command init apply_event decide es c) = Inr s' \<and> inv s'"
  using history_extends [OF assms, of c] assms by (cases "decide s c") (auto simp: log_command_def)

lemma log_replays:
  "try_fold apply_event init es = Inr s \<Longrightarrow> inv s \<Longrightarrow>
   \<exists>s'. try_fold apply_event init (foldl (log_command init apply_event decide) es cs) = Inr s' \<and> inv s'"
proof (induction cs arbitrary: es s)
  case (Cons c cs)
  with log_command_extends [OF Cons.prems, of c] show ?case by auto
qed auto

lemma log_from_init:
  "\<exists>s. try_fold apply_event init (foldl (log_command init apply_event decide) [] cs) = Inr s \<and> inv s"
  by (rule log_replays [OF _ inv_init]) simp

end

end
