(* ===== verification/Domain.thy ===== *)
theory Domain
  imports Rust_Strings Event_Sourcing
begin

text \<open>
  The pure domain (\<open>src/domain\<close>): quote state, events, commands, the reducer, the money
  arithmetic and the translation of commands into events.  The lemmas give the exact value of
  the totals, the invariant of the states that accepted commands reach, and the acceptance
  condition of each command.  At the end the domain is an instance of the event-sourcing
  contract.
\<close>

section \<open>Data\<close>

datatype DomainError =
    QuoteAlreadyCreated
  | DuplicateCreateQuote
  | InvalidField rstring
  | QuoteNotCreated
  | QuoteAlreadyFinalized
  | DuplicateLineId
  | InvalidQuantity
  | InvalidUnitMinor
  | IntegerOverflow
  | CannotFinalizeWithoutLines

record LineItemState =
  line_id :: rstring
  sku :: rstring
  description :: rstring
  quantity :: i64
  unit_minor :: i64

record QuoteState =
  currency_code :: "rstring option"
  jurisdiction_id :: "rstring option"
  finalized :: bool
  lines :: "LineItemState list"

text \<open>The arguments are the variants' fields, in the source's order.\<close>

datatype DomainEvent =
    QuoteCreated rstring rstring
  | LineItemAdded rstring rstring rstring i64 i64
  | QuoteFinalized

datatype DomainCommand =
    CreateQuote rstring rstring
  | AddLineItem rstring rstring rstring i64 i64
  | FinalizeQuote

definition QuoteState_default :: QuoteState where
  "QuoteState_default =
     \<lparr>currency_code = None, jurisdiction_id = None, finalized = False, lines = []\<rparr>"

section \<open>Accessors and money arithmetic\<close>

definition is_created :: "QuoteState \<Rightarrow> bool" where
  "is_created s \<longleftrightarrow> currency_code s \<noteq> None"

definition currency_code_str :: "QuoteState \<Rightarrow> rstring" where
  "currency_code_str s = (case currency_code s of None \<Rightarrow> '''' | Some c \<Rightarrow> c)"

definition jurisdiction_id_str :: "QuoteState \<Rightarrow> rstring" where
  "jurisdiction_id_str s = (case jurisdiction_id s of None \<Rightarrow> '''' | Some j \<Rightarrow> j)"

definition line_total_minor :: "LineItemState \<Rightarrow> DomainError + i64" where
  "line_total_minor l =
     (let p = sint (quantity l) * sint (unit_minor l)
      in ok_or (i64_try_from p) IntegerOverflow)"

text \<open>The accumulating loop of \<open>subtotal_minor\<close>, on its \<open>i128\<close> variable \<open>sum\<close>.\<close>

definition add_line_total :: "i128 \<Rightarrow> LineItemState \<Rightarrow> DomainError + i128" where
  "add_line_total acc l = and_then (line_total_minor l) (\<lambda>t. Inr (acc + sint t))"

definition subtotal_minor :: "QuoteState \<Rightarrow> DomainError + i64" where
  "subtotal_minor s =
     and_then (try_fold add_line_total 0 (lines s))
       (\<lambda>acc. ok_or (i64_try_from acc) IntegerOverflow)"

definition tax_rate_bps :: "QuoteState \<Rightarrow> i64" where
  "tax_rate_bps s =
     (let jur = jurisdiction_id_str s
      in if jur = ''US'' \<or> starts_with jur ''US-'' then 800 else 0)"

definition tax_minor :: "QuoteState \<Rightarrow> DomainError + i64" where
  "tax_minor s =
     and_then (subtotal_minor s) (\<lambda>sub.
       let bps = tax_rate_bps s;
           num = (sint sub * sint bps) sdiv 10000
       in ok_or (i64_try_from num) IntegerOverflow)"

definition total_minor :: "QuoteState \<Rightarrow> DomainError + i64" where
  "total_minor s =
     and_then (subtotal_minor s) (\<lambda>sub.
     and_then (tax_minor s) (\<lambda>tax.
       let t = sint sub + sint tax
       in ok_or (i64_try_from t) IntegerOverflow))"

section \<open>Reducer and commands\<close>

definition has_line :: "QuoteState \<Rightarrow> rstring \<Rightarrow> bool" where
  "has_line s lid \<longleftrightarrow> list_ex (\<lambda>l. line_id l = lid) (lines s)"

fun reduce :: "QuoteState \<Rightarrow> DomainEvent \<Rightarrow> DomainError + QuoteState" where
  "reduce state (QuoteCreated cc jid) =
     fail_if (is_created state) QuoteAlreadyCreated
       (Inr \<lparr>currency_code = Some cc, jurisdiction_id = Some jid,
             finalized = finalized state, lines = []\<rparr>)"
| "reduce state (LineItemAdded lid sk desc qty unit) =
     fail_if (\<not> is_created state) QuoteNotCreated
    (fail_if (finalized state) QuoteAlreadyFinalized
    (fail_if (has_line state lid) DuplicateLineId
       (Inr (state\<lparr>lines := lines state @
          [\<lparr>line_id = lid, sku = sk, description = desc, quantity = qty, unit_minor = unit\<rparr>]\<rparr>))))"
| "reduce state QuoteFinalized =
     fail_if (\<not> is_created state) QuoteNotCreated
    (fail_if (finalized state) QuoteAlreadyFinalized
       (Inr (state\<lparr>finalized := True\<rparr>)))"

definition require_non_blank :: "rstring \<Rightarrow> rstring \<Rightarrow> DomainError + unit" where
  "require_non_blank field v = fail_if (is_blank v) (InvalidField field) (Inr ())"

fun command_to_events :: "QuoteState \<Rightarrow> DomainCommand \<Rightarrow> DomainError + DomainEvent list" where
  "command_to_events state (CreateQuote cc jid) =
     fail_if (is_created state) DuplicateCreateQuote
    (and_then (require_non_blank ''currency_code'' cc) (\<lambda>_.
     and_then (require_non_blank ''jurisdiction_id'' jid) (\<lambda>_.
       Inr [QuoteCreated cc jid])))"
| "command_to_events state (AddLineItem lid sk desc qty unit) =
     fail_if (\<not> is_created state) QuoteNotCreated
    (fail_if (finalized state) QuoteAlreadyFinalized
    (and_then (require_non_blank ''line_id'' lid) (\<lambda>_.
     and_then (require_non_blank ''sku'' sk) (\<lambda>_.
     and_then (require_non_blank ''description'' desc) (\<lambda>_.
     fail_if (sint qty \<le> 0) InvalidQuantity
    (fail_if (sint unit < 0) InvalidUnitMinor
    (fail_if (has_line state lid) DuplicateLineId
    (let probe = \<lparr>line_id = lid, sku = sk, description = desc, quantity = qty, unit_minor = unit\<rparr>
     in and_then (line_total_minor probe) (\<lambda>_.
        and_then (total_minor (state\<lparr>lines := lines state @ [probe]\<rparr>)) (\<lambda>_.
          Inr [LineItemAdded lid sk desc qty unit]))))))))))"
| "command_to_events state FinalizeQuote =
     fail_if (\<not> is_created state) QuoteNotCreated
    (fail_if (finalized state) QuoteAlreadyFinalized
    (fail_if (lines state = []) CannotFinalizeWithoutLines
       (Inr [QuoteFinalized])))"

definition replay :: "DomainEvent list \<Rightarrow> DomainError + QuoteState" where
  "replay events = try_fold reduce QuoteState_default events"

section \<open>The exact amounts\<close>

definition line_exact :: "LineItemState \<Rightarrow> int" where
  "line_exact l = sint (quantity l) * sint (unit_minor l)"

definition exact_subtotal :: "QuoteState \<Rightarrow> int" where
  "exact_subtotal s = (\<Sum>l \<leftarrow> lines s. line_exact l)"

definition exact_tax :: "QuoteState \<Rightarrow> int" where
  "exact_tax s = (exact_subtotal s * sint (tax_rate_bps s)) sdiv 10000"

definition exact_total :: "QuoteState \<Rightarrow> int" where
  "exact_total s = exact_subtotal s + exact_tax s"

definition lines_fit :: "QuoteState \<Rightarrow> bool" where
  "lines_fit s \<longleftrightarrow> list_all (\<lambda>l. fits_i64 (line_exact l)) (lines s)"

lemma line_total_eq_Inr: "line_total_minor l = Inr w \<longleftrightarrow> sint w = line_exact l"
  by (auto simp: line_total_minor_def Let_def result_simps i64_try_from_eq_Some line_exact_def)

lemma line_total_cases:
  "line_total_minor l = (if fits_i64 (line_exact l) then Inr (word_of_int (line_exact l))
     else Inl IntegerOverflow)"
  by (simp add: line_total_minor_def i64_try_from_def line_exact_def Let_def)

lemma add_line_total_cases:
  "add_line_total acc l = (if fits_i64 (line_exact l) then Inr (acc + line_exact l)
     else Inl IntegerOverflow)"
  by (simp add: add_line_total_def line_total_cases sint_word_of_int_fits)

lemma subtotal_loop:
  "try_fold add_line_total acc ls =
     (if list_all (\<lambda>l. fits_i64 (line_exact l)) ls
      then Inr (acc + (\<Sum>l \<leftarrow> ls. line_exact l)) else Inl IntegerOverflow)"
  by (induction ls arbitrary: acc) (auto simp: add_line_total_cases)

lemma subtotal_cases:
  "subtotal_minor s = (if lines_fit s \<and> fits_i64 (exact_subtotal s)
     then Inr (word_of_int (exact_subtotal s)) else Inl IntegerOverflow)"
  by (simp add: subtotal_minor_def subtotal_loop lines_fit_def exact_subtotal_def i64_try_from_def)

lemma tax_rate_values: "sint (tax_rate_bps s) = 800 \<or> sint (tax_rate_bps s) = 0"
  by (simp add: tax_rate_bps_def Let_def)

lemma tax_rate_range: "0 \<le> sint (tax_rate_bps s)" "sint (tax_rate_bps s) \<le> 800"
  using tax_rate_values [of s] by auto

text \<open>Rust divides towards zero, so the tax lies between zero and the subtotal.\<close>

lemma sdiv_nonneg: "0 \<le> x \<Longrightarrow> x sdiv 10000 = x div (10000 :: int)"
  by (simp add: signed_divide_int_def sgn_if)

lemma sdiv_neg: "x \<le> 0 \<Longrightarrow> x sdiv 10000 = - ((- x) div (10000 :: int))"
  by (simp add: signed_divide_int_def sgn_if)

lemma exact_tax_nonneg:
  assumes "0 \<le> exact_subtotal s"
  shows "0 \<le> exact_tax s \<and> exact_tax s \<le> exact_subtotal s"
proof -
  have "exact_tax s = (exact_subtotal s * sint (tax_rate_bps s)) div 10000"
    using assms tax_rate_range [of s] by (simp add: exact_tax_def sdiv_nonneg)
  moreover have "exact_subtotal s * sint (tax_rate_bps s) \<le> exact_subtotal s * 800"
    using assms tax_rate_range [of s] by (simp add: mult_left_mono)
  moreover have "0 \<le> exact_subtotal s * sint (tax_rate_bps s)"
    using assms tax_rate_range [of s] by simp
  ultimately show ?thesis using assms by linarith
qed

lemma exact_tax_nonpos:
  assumes "exact_subtotal s \<le> 0"
  shows "exact_subtotal s \<le> exact_tax s \<and> exact_tax s \<le> 0"
proof -
  let ?m = "- (exact_subtotal s * sint (tax_rate_bps s))"
  have "0 \<le> ?m"
    using assms tax_rate_range [of s] by (simp add: mult_nonpos_nonneg)
  then have "exact_tax s = - (?m div 10000)"
    unfolding exact_tax_def by (subst sdiv_neg) auto
  moreover have "?m \<le> - exact_subtotal s * 800"
    using mult_left_mono [OF tax_rate_range(2) [of s], of "- exact_subtotal s"] assms by simp
  ultimately show ?thesis using \<open>0 \<le> ?m\<close> by linarith
qed

lemma exact_tax_fits: "fits_i64 (exact_subtotal s) \<Longrightarrow> fits_i64 (exact_tax s)"
  using exact_tax_nonneg [of s] exact_tax_nonpos [of s] unfolding fits_i64_def by linarith

lemma tax_cases:
  "tax_minor s = (if lines_fit s \<and> fits_i64 (exact_subtotal s)
     then Inr (word_of_int (exact_tax s)) else Inl IntegerOverflow)"
  using exact_tax_fits [of s]
  by (simp add: tax_minor_def subtotal_cases Let_def sint_word_of_int_fits i64_try_from_def
      flip: exact_tax_def)

lemma total_cases:
  "total_minor s = (if lines_fit s \<and> fits_i64 (exact_subtotal s) \<and> fits_i64 (exact_total s)
     then Inr (word_of_int (exact_total s)) else Inl IntegerOverflow)"
  using exact_tax_fits [of s]
  by (simp add: total_minor_def subtotal_cases tax_cases Let_def sint_word_of_int_fits
      i64_try_from_def flip: exact_total_def)

text \<open>No money computation fails with another error.\<close>

lemmas money_cases = line_total_cases subtotal_cases tax_cases total_cases

section \<open>The invariant of accepted states\<close>

definition line_ok :: "LineItemState \<Rightarrow> bool" where
  "line_ok l \<longleftrightarrow> \<not> is_blank (line_id l) \<and> \<not> is_blank (sku l) \<and> \<not> is_blank (description l) \<and>
     0 < sint (quantity l) \<and> 0 \<le> sint (unit_minor l)"

definition money_ok :: "QuoteState \<Rightarrow> bool" where
  "money_ok s \<longleftrightarrow> lines_fit s \<and> fits_i64 (exact_subtotal s) \<and> fits_i64 (exact_total s)"

definition quote_inv :: "QuoteState \<Rightarrow> bool" where
  "quote_inv s \<longleftrightarrow>
     (case (currency_code s, jurisdiction_id s) of
        (Some c, Some j) \<Rightarrow> \<not> is_blank c \<and> \<not> is_blank j
      | (None, None) \<Rightarrow> \<not> finalized s \<and> lines s = []
      | _ \<Rightarrow> False) \<and>
     list_all line_ok (lines s) \<and> distinct (map line_id (lines s)) \<and> money_ok s \<and>
     (finalized s \<longrightarrow> lines s \<noteq> [])"

lemma total_ok: "(\<exists>t. total_minor s = Inr t) \<longleftrightarrow> money_ok s"
  by (simp add: total_cases money_ok_def)

lemma exact_total_default [simp]:
  "lines s = [] \<Longrightarrow> exact_subtotal s = 0" "lines s = [] \<Longrightarrow> exact_tax s = 0"
  by (simp_all add: exact_subtotal_def exact_tax_def)

lemma money_ok_Nil [simp]: "lines s = [] \<Longrightarrow> money_ok s"
  by (simp add: money_ok_def lines_fit_def exact_total_def fits_i64_def)

lemma quote_inv_default: "quote_inv QuoteState_default"
  by (simp add: quote_inv_def QuoteState_default_def)

lemma money_ok_finalized [simp]: "money_ok (s\<lparr>finalized := b\<rparr>) = money_ok s"
  by (simp add: money_ok_def lines_fit_def exact_total_def exact_subtotal_def exact_tax_def
      tax_rate_bps_def jurisdiction_id_str_def)

lemma require_non_blank_eq_Inr [result_simps]:
  "require_non_blank f v = Inr u \<longleftrightarrow> \<not> is_blank v"
  by (simp add: require_non_blank_def result_simps)

lemma is_created_simps [simp]:
  "is_created (s\<lparr>lines := ls\<rparr>) = is_created s"
  "is_created (s\<lparr>finalized := b\<rparr>) = is_created s"
  by (simp_all add: is_created_def)

lemma has_line_iff: "has_line s lid \<longleftrightarrow> lid \<in> set (map line_id (lines s))"
  by (auto simp: has_line_def list_ex_iff)

text \<open>The exact condition under which each command is accepted, and with which event.\<close>

lemma create_accepted:
  "command_to_events s (CreateQuote cc jid) = Inr es \<longleftrightarrow>
     \<not> is_created s \<and> \<not> is_blank cc \<and> \<not> is_blank jid \<and> es = [QuoteCreated cc jid]"
  by (auto simp: result_simps)

lemma add_line_accepted:
  "command_to_events s (AddLineItem lid sk desc qty unit) = Inr es \<longleftrightarrow>
     (let l = \<lparr>line_id = lid, sku = sk, description = desc, quantity = qty, unit_minor = unit\<rparr>
      in is_created s \<and> \<not> finalized s \<and> line_ok l \<and> lid \<notin> set (map line_id (lines s)) \<and>
         money_ok (s\<lparr>lines := lines s @ [l]\<rparr>) \<and> es = [LineItemAdded lid sk desc qty unit])"
proof -
  let ?l = "\<lparr>line_id = lid, sku = sk, description = desc, quantity = qty, unit_minor = unit\<rparr>"
  let ?s = "s\<lparr>lines := lines s @ [?l]\<rparr>"
  have "(\<exists>t. line_total_minor ?l = Inr t) \<and> (\<exists>t. total_minor ?s = Inr t) \<longleftrightarrow> money_ok ?s"
    unfolding total_ok by (auto simp: line_total_cases money_ok_def lines_fit_def)
  then show ?thesis
    unfolding Let_def command_to_events.simps result_simps line_ok_def has_line_iff by auto
qed

lemma finalize_accepted:
  "command_to_events s FinalizeQuote = Inr es \<longleftrightarrow>
     is_created s \<and> \<not> finalized s \<and> lines s \<noteq> [] \<and> es = [QuoteFinalized]"
  by (auto simp: result_simps)

lemmas command_accepted = create_accepted add_line_accepted finalize_accepted

text \<open>An accepted command is one event, which the reducer takes to a good state.\<close>

lemma quote_inv_created:
  "quote_inv s \<Longrightarrow> is_created s \<longleftrightarrow> s \<noteq> QuoteState_default"
  by (cases s) (auto simp: quote_inv_def is_created_def QuoteState_default_def split: option.splits)

lemma command_event_applies:
  assumes inv: "quote_inv s" and ok: "command_to_events s c = Inr es"
  shows "\<exists>ev s'. es = [ev] \<and> reduce s ev = Inr s' \<and> quote_inv s'"
proof (cases c)
  case (CreateQuote cc jid)
  with ok have "\<not> is_created s" "\<not> is_blank cc" "\<not> is_blank jid" "es = [QuoteCreated cc jid]"
    by (auto simp only: create_accepted)
  with inv show ?thesis
    by (auto simp: quote_inv_def is_created_def split: option.splits)
next
  case (AddLineItem lid sk desc qty unit)
  let ?l = "\<lparr>line_id = lid, sku = sk, description = desc, quantity = qty, unit_minor = unit\<rparr>"
  let ?s = "s\<lparr>lines := lines s @ [?l]\<rparr>"
  from AddLineItem ok have c: "is_created s" "\<not> finalized s" "line_ok ?l"
      "lid \<notin> set (map line_id (lines s))" "money_ok ?s" "es = [LineItemAdded lid sk desc qty unit]"
    by (auto simp only: add_line_accepted Let_def)
  then have "reduce s (LineItemAdded lid sk desc qty unit) = Inr ?s" by (simp add: has_line_iff)
  moreover from c inv have "quote_inv ?s"
    by (auto simp: quote_inv_def is_created_def split: option.splits)
  ultimately show ?thesis using c by blast
next
  case FinalizeQuote
  with ok have "is_created s" "\<not> finalized s" "lines s \<noteq> []" "es = [QuoteFinalized]"
    by (auto simp only: finalize_accepted)
  with inv show ?thesis
    by (auto simp: quote_inv_def is_created_def split: option.splits)
qed

interpretation quote: event_sourced QuoteState_default reduce command_to_events quote_inv
proof unfold_locales
  fix s c es
  assume "quote_inv s" "command_to_events s c = Inr es"
  from command_event_applies [OF this]
  show "\<exists>s'. try_fold reduce s es = Inr s' \<and> quote_inv s'" by fastforce
qed (rule quote_inv_default)

lemma replay_snoc: "replay es = Inr s \<Longrightarrow> replay (es @ [ev]) = reduce s ev"
  by (simp add: replay_def try_fold_snoc)

text \<open>
  A command on the log of a quote, as \<open>append_one\<close> of \<open>src/ledger.rs\<close> runs it: the log is replayed,
  the command decided, and the events it is answered with are appended.
\<close>

definition submit :: "DomainEvent list \<Rightarrow> DomainCommand \<Rightarrow> DomainEvent list" where
  "submit es cmd =
     (case and_then (replay es) (\<lambda>state. command_to_events state cmd) of
        Inl _ \<Rightarrow> es
      | Inr new \<Rightarrow> es @ new)"

lemma submit_log: "submit = log_command QuoteState_default reduce command_to_events"
  by (intro ext) (simp add: submit_def log_command_def replay_def)

section \<open>Properties\<close>

text \<open>
  C9: Whatever commands are submitted to the log of a quote, the log always replays without an
  error, to a state that satisfies the invariant: an accepted command never stores an event
  that the reducer refuses later.
\<close>

theorem history_replays:
  "\<exists>t. replay (foldl submit [] cs) = Inr t \<and> quote_inv t"
  unfolding replay_def submit_log by (rule quote.log_from_init)

text \<open>
  C29: In every state that satisfies the invariant the three totals are computed without an
  error; the subtotal is the exact sum of quantity times unit price, the tax the exact rate of
  it rounded towards zero, and the total their sum, with the tax between zero and the subtotal.
\<close>

theorem accepted_totals:
  assumes "quote_inv s"
  shows "\<exists>sub tax tot. subtotal_minor s = Inr sub \<and> tax_minor s = Inr tax \<and> total_minor s = Inr tot \<and>
    sint sub = (\<Sum>l \<leftarrow> lines s. sint (quantity l) * sint (unit_minor l)) \<and>
    sint tax = sint sub * sint (tax_rate_bps s) div 10000 \<and>
    sint tot = sint sub + sint tax \<and> 0 \<le> sint tax \<and> sint tax \<le> sint sub"
proof -
  have "\<forall>l \<in> set (lines s). 0 \<le> line_exact l"
    using assms by (auto simp: quote_inv_def list_all_iff line_ok_def line_exact_def)
  then have nn: "0 \<le> exact_subtotal s"
    unfolding exact_subtotal_def by (intro sum_list_nonneg) auto
  from assms have m: "lines_fit s" "fits_i64 (exact_subtotal s)" "fits_i64 (exact_total s)"
    by (auto simp: quote_inv_def money_ok_def)
  let ?sub = "word_of_int (exact_subtotal s) :: i64" and ?tax = "word_of_int (exact_tax s) :: i64"
    and ?tot = "word_of_int (exact_total s) :: i64"
  from m exact_tax_fits have w: "sint ?sub = exact_subtotal s" "sint ?tax = exact_tax s"
    "sint ?tot = exact_total s" by (simp_all add: sint_word_of_int_fits)
  have "exact_tax s = exact_subtotal s * sint (tax_rate_bps s) div 10000"
    using nn tax_rate_range [of s] by (simp add: exact_tax_def sdiv_nonneg)
  then have "sint ?sub = (\<Sum>l \<leftarrow> lines s. sint (quantity l) * sint (unit_minor l)) \<and>
      sint ?tax = sint ?sub * sint (tax_rate_bps s) div 10000 \<and>
      sint ?tot = sint ?sub + sint ?tax \<and> 0 \<le> sint ?tax \<and> sint ?tax \<le> sint ?sub"
    unfolding w using exact_tax_nonneg [OF nn]
    by (simp add: exact_total_def) (simp add: exact_subtotal_def line_exact_def)
  moreover have "subtotal_minor s = Inr ?sub" "tax_minor s = Inr ?tax" "total_minor s = Inr ?tot"
    using m by (simp_all add: money_cases)
  ultimately show ?thesis by blast
qed

definition sample_quote :: QuoteState where
  "sample_quote =
     \<lparr>currency_code = Some ''USD'', jurisdiction_id = Some ''US-CA'', finalized = False,
      lines = [\<lparr>line_id = ''L1'', sku = ''SKU'', description = ''Widget'', quantity = 2, unit_minor = 5000\<rparr>]\<rparr>"

lemma sample_quote_inv: "quote_inv sample_quote"
  by code_simp

theorem accepted_totals_witness:
  "quote_inv sample_quote \<and> (\<exists>sub tax tot. subtotal_minor sample_quote = Inr sub \<and>
     tax_minor sample_quote = Inr tax \<and> total_minor sample_quote = Inr tot \<and>
     sint tot = sint sub + sint tax)"
  using accepted_totals [OF sample_quote_inv] sample_quote_inv by blast

text \<open>
  C30: The acceptance condition of each command: the quote must be in the right phase, the text
  fields non-blank, the quantity positive, the price non-negative, the line id new, and every
  total of the quote with the new line must fit in an \<open>i64\<close>; then exactly one event is emitted.
\<close>

theorem command_acceptance:
  "command_to_events s c = Inr es \<longleftrightarrow>
    (case c of
       CreateQuote cc jid \<Rightarrow>
         \<not> is_created s \<and> \<not> is_blank cc \<and> \<not> is_blank jid \<and> es = [QuoteCreated cc jid]
     | AddLineItem lid sk desc qty unit \<Rightarrow>
         (let l = \<lparr>line_id = lid, sku = sk, description = desc, quantity = qty, unit_minor = unit\<rparr>;
              s' = s\<lparr>lines := lines s @ [l]\<rparr>
          in is_created s \<and> \<not> finalized s \<and> \<not> is_blank lid \<and> \<not> is_blank sk \<and> \<not> is_blank desc \<and>
             0 < sint qty \<and> 0 \<le> sint unit \<and> lid \<notin> set (map line_id (lines s)) \<and>
             lines_fit s' \<and> fits_i64 (exact_subtotal s') \<and> fits_i64 (exact_total s') \<and>
             es = [LineItemAdded lid sk desc qty unit])
     | FinalizeQuote \<Rightarrow>
         is_created s \<and> \<not> finalized s \<and> lines s \<noteq> [] \<and> es = [QuoteFinalized])"
  by (cases c) (simp_all only: DomainCommand.case command_accepted Let_def line_ok_def money_ok_def
      LineItemState.simps conj_assoc)

text \<open>
  A finalized quote never changes again: every command sequence is rejected as a whole and
  every event is refused by the reducer.
\<close>

theorem finalized_is_final:
  assumes "is_created s" and "finalized s"
  shows "run_commands reduce command_to_events s cs = Inr (s, []) \<and> (\<exists>e. reduce s ev = Inl e)"
proof
  have rej: "\<exists>x. command_to_events s c = Inl x" for c
    using assms by (cases c) (simp_all)
  show "run_commands reduce command_to_events s cs = Inr (s, [])"
  proof (induction cs)
    case (Cons c cs)
    with rej [of c] show ?case by auto
  qed simp
  show "\<exists>e. reduce s ev = Inl e"
    using assms by (cases ev) simp_all
qed

theorem finalized_is_final_witness:
  "run_commands reduce command_to_events (sample_quote\<lparr>finalized := True\<rparr>)
     [AddLineItem ''L2'' ''SKU'' ''Nope'' 1 1, FinalizeQuote] = Inr (sample_quote\<lparr>finalized := True\<rparr>, [])"
  using finalized_is_final [of "sample_quote\<lparr>finalized := True\<rparr>"] by (simp add: sample_quote_def is_created_def)

end
