(* ===== verification/Wire.thy ===== *)
theory Wire
  imports Domain
begin

text \<open>
  The messages of \<open>proto/quote_ledger/v1/quote_ledger.proto\<close> as the generated Rust types hold
  them (a \<open>oneof\<close> and a message field are optional), the error type of the store
  (\<open>src/error.rs\<close>) and the gRPC status with the codes the source uses.
\<close>

section \<open>Messages\<close>

datatype CmdKind =
    CmdKind_CreateQuote rstring rstring
  | CmdKind_AddLineItem rstring rstring rstring i64 i64
  | CmdKind_FinalizeQuote

datatype EvKind =
    EvKind_QuoteCreated rstring rstring
  | EvKind_LineItemAdded rstring rstring rstring i64 i64
  | EvKind_QuoteFinalized

record QuoteCommand =
  command_kind :: "CmdKind option"

record QuoteEvent =
  event_kind :: "EvKind option"

record StoredEvent =
  seq :: u64
  quote_id :: rstring
  event :: "QuoteEvent option"

record LineItemView =
  view_line_id :: rstring
  view_sku :: rstring
  view_description :: rstring
  view_quantity :: i64
  view_unit_minor :: i64
  view_line_total_minor :: i64

record QuoteView =
  view_quote_id :: rstring
  view_currency_code :: rstring
  view_jurisdiction_id :: rstring
  view_finalized :: bool
  view_subtotal_minor :: i64
  view_tax_minor :: i64
  view_total_minor :: i64
  view_line_items :: "LineItemView list"

record QuoteSnapshot =
  last_seq :: u64
  view :: "QuoteView option"

record QuoteTail =
  from_seq_exclusive :: u64
  to_seq_inclusive :: u64
  tail_events :: "StoredEvent list"

datatype UpdateKind = Snapshot QuoteSnapshot | Tail QuoteTail

record QuoteUpdate =
  update_kind :: "UpdateKind option"

record AppendCommandRequest =
  req_client_command_id :: rstring
  req_quote_id :: rstring
  req_command :: "QuoteCommand option"

record AppendCommandsResponse =
  last_committed_seq :: u64
  committed :: "StoredEvent list"

record SubscribeQuoteRequest =
  sub_quote_id :: rstring
  after_seq :: u64

section \<open>Errors and statuses\<close>

text \<open>The error of the SQLite driver is opaque: its \<open>Display\<close> text is all the source uses.\<close>

type_synonym sqlite_error = rstring

datatype StoreError =
    Sqlite sqlite_error
  | DomainErr DomainError
  | EmptyAppend
  | InvalidAfterSeq u64 u64
  | Corrupt rstring
  | IdempotencyConflict rstring rstring

datatype Code =
    InvalidArgument
  | FailedPrecondition
  | OutOfRange
  | DataLoss
  | Internal
  | Unauthenticated
  | ResourceExhausted
  | DeadlineExceeded
  | OtherCode

record Status =
  code :: Code
  message :: rstring

abbreviation status :: "Code \<Rightarrow> rstring \<Rightarrow> Status" where
  "status c m \<equiv> \<lparr>code = c, message = m\<rparr>"

fun display_domain_error :: "DomainError \<Rightarrow> rstring" where
  "display_domain_error QuoteAlreadyCreated = ''quote is already initialized''"
| "display_domain_error DuplicateCreateQuote =
     ''create_quote is invalid because a quote already exists''"
| "display_domain_error (InvalidField field) = ''invalid field: '' @ field"
| "display_domain_error QuoteNotCreated = ''quote must be created before this operation''"
| "display_domain_error QuoteAlreadyFinalized = ''quote is finalized and cannot be modified''"
| "display_domain_error DuplicateLineId = ''line_id already exists on this quote''"
| "display_domain_error InvalidQuantity = ''quantity must be positive''"
| "display_domain_error InvalidUnitMinor = ''unit_minor must be non-negative''"
| "display_domain_error IntegerOverflow = ''integer overflow in money math''"
| "display_domain_error CannotFinalizeWithoutLines = ''finalize requires at least one line item''"

fun display_store_error :: "StoreError \<Rightarrow> rstring" where
  "display_store_error (Sqlite e) = e"
| "display_store_error (DomainErr e) = display_domain_error e"
| "display_store_error EmptyAppend = ''append contained zero events''"
| "display_store_error (InvalidAfterSeq a l) =
     ''after_seq '' @ show_nat (unat a) @ '' is ahead of head '' @ show_nat (unat l)"
| "display_store_error (Corrupt m) = ''corrupt stored payload: '' @ m"
| "display_store_error (IdempotencyConflict q k) =
     ''idempotency key reused with different command payload (quote_id='' @ q @
     '', client_command_id='' @ k @ '')''"

end
