(* ===== verification/Sqlite_Db.thy ===== *)
theory Sqlite_Db
  imports Wire
begin

text \<open>
  The database as the source sees it: the two tables that \<open>migrations/001_initial.sql\<close>
  creates, their primary keys, and the code outside the repository that the store calls.
  \<^item> \<open>External\<close> gathers that code: the generated protobuf encoder and decoder of
    \<open>QuoteEvent\<close>, and the texts the driver gives to the two errors that depend on the data
    (a violated primary key, a value that is not an integer).  Nothing is assumed about
    it except where \<open>codec_ok\<close> is a hypothesis.
  \<^item> Whether a statement fails for a reason outside the data (I/O, lock, interrupt) is decided
    by \<open>outcomes\<close>, one entry per statement, \<open>None\<close> for success; when the list is used up every
    statement succeeds.  The list is arbitrary in every theorem.
  \<^item> The columns \<open>created_at\<close> and the indices are left out: no statement of the source reads them.
\<close>

section \<open>Tables and connection\<close>

type_synonym bytes = "8 word list"

record External =
  encode_event :: "QuoteEvent \<Rightarrow> rstring + bytes"
  decode_event :: "bytes \<Rightarrow> rstring + QuoteEvent"
  text_primary_key :: rstring
  text_not_integer :: rstring

record EventRow =
  row_quote_id :: rstring
  row_seq :: i64
  row_event_type :: rstring
  row_payload :: bytes

record KeyRow =
  key_quote_id :: rstring
  key_client_command_id :: rstring
  key_first_seq :: i64
  key_last_seq :: i64

record Connection =
  events :: "EventRow list"
  idempotency_keys :: "KeyRow list"
  outcomes :: "sqlite_error option list"

text \<open>A connection to a database without rows.\<close>

definition fresh_db :: "sqlite_error option list \<Rightarrow> Connection" where
  "fresh_db os = \<lparr>events = [], idempotency_keys = [], outcomes = os\<rparr>"

section \<open>Database computations\<close>

type_synonym 'a db = "(Connection, StoreError, 'a) comp"

definition outcome :: "Connection \<Rightarrow> sqlite_error option" where
  "outcome c = (case outcomes c of [] \<Rightarrow> None | x # _ \<Rightarrow> x)"

definition advance :: "Connection \<Rightarrow> Connection" where
  "advance c = c\<lparr>outcomes := tl (outcomes c)\<rparr>"

text \<open>A statement: it takes its outcome, and only then has its effect on the tables.\<close>

definition sql :: "(Connection \<Rightarrow> sqlite_error + 'a \<times> Connection) \<Rightarrow> 'a db" where
  "sql f c =
     (case outcome c of
        Some e \<Rightarrow> (Inl (Sqlite e), advance c)
      | None \<Rightarrow>
          (case f (advance c) of
             Inl e \<Rightarrow> (Inl (Sqlite e), advance c)
           | Inr (a, c') \<Rightarrow> (Inr a, c')))"

definition sql_query :: "(Connection \<Rightarrow> 'a) \<Rightarrow> 'a db" where
  "sql_query q = sql (\<lambda>c. Inr (q c, c))"

text \<open>
  A transaction: when its body or the commit fails, the \<open>Transaction\<close> value is dropped, which
  rolls the tables back to where it began.
\<close>

definition rollback_to :: "Connection \<Rightarrow> Connection \<Rightarrow> Connection" where
  "rollback_to c0 c = c\<lparr>events := events c0, idempotency_keys := idempotency_keys c0\<rparr>"

definition transaction :: "'a db \<Rightarrow> 'a db" where
  "transaction body =
     st_bind (sql_query (\<lambda>_. ())) (\<lambda>_ c0.
       case st_bind body (\<lambda>x. st_bind (sql_query (\<lambda>_. ())) (\<lambda>_. st_return x)) c0 of
         (Inl e, c) \<Rightarrow> (Inl e, rollback_to c0 c)
       | (Inr x, c) \<Rightarrow> (Inr x, c))"

text \<open>The statements that write, with the primary keys of the two tables.\<close>

definition insert_event :: "External \<Rightarrow> EventRow \<Rightarrow> unit db" where
  "insert_event E r = sql (\<lambda>c.
     if list_ex (\<lambda>x. row_quote_id x = row_quote_id r \<and> row_seq x = row_seq r) (events c)
     then Inl (text_primary_key E)
     else Inr ((), c\<lparr>events := events c @ [r]\<rparr>))"

definition insert_key :: "External \<Rightarrow> KeyRow \<Rightarrow> unit db" where
  "insert_key E r = sql (\<lambda>c.
     if list_ex (\<lambda>x. key_quote_id x = key_quote_id r \<and>
          key_client_command_id x = key_client_command_id r) (idempotency_keys c)
     then Inl (text_primary_key E)
     else Inr ((), c\<lparr>idempotency_keys := idempotency_keys c @ [r]\<rparr>))"

section \<open>Lemmas\<close>

definition healthy :: "Connection \<Rightarrow> bool" where
  "healthy c \<longleftrightarrow> list_all (\<lambda>x. x = None) (outcomes c)"

definition same_tables :: "Connection \<Rightarrow> Connection \<Rightarrow> bool" where
  "same_tables c c' \<longleftrightarrow> events c' = events c \<and> idempotency_keys c' = idempotency_keys c"

lemma sql_query_run [st_simps]:
  "sql_query q c = (case outcome c of Some e \<Rightarrow> Inl (Sqlite e) | None \<Rightarrow> Inr (q (advance c)), advance c)"
  by (simp add: sql_query_def sql_def split: option.split)

lemma advance_tables [simp]:
  "events (advance c) = events c" "idempotency_keys (advance c) = idempotency_keys c"
  by (simp_all add: advance_def)

lemma same_tables_refl [simp]: "same_tables c c"
  by (simp add: same_tables_def)

lemma same_tables_advance [simp]: "same_tables c (advance c)"
  by (simp add: same_tables_def)

lemma same_tables_trans [trans]: "same_tables a b \<Longrightarrow> same_tables b c \<Longrightarrow> same_tables a c"
  by (simp add: same_tables_def)

lemma same_tables_rollback [simp]: "same_tables c0 (rollback_to c0 c)"
  by (simp add: same_tables_def rollback_to_def)

lemma healthy_outcome [simp]: "healthy c \<Longrightarrow> outcome c = None"
  by (auto simp: healthy_def outcome_def split: list.split)

lemma healthy_advance [simp]: "healthy c \<Longrightarrow> healthy (advance c)"
  by (cases "outcomes c") (auto simp: healthy_def advance_def)

lemma healthy_update [simp]:
  "healthy (c\<lparr>events := es\<rparr>) = healthy c" "healthy (c\<lparr>idempotency_keys := ks\<rparr>) = healthy c"
  by (simp_all add: healthy_def)

lemma healthy_rollback [simp]: "healthy (rollback_to c0 c) = healthy c"
  by (simp add: rollback_to_def healthy_def)

text \<open>Whatever happens in a transaction, a failed one leaves the tables as they were.\<close>

lemma transaction_atomic:
  "transaction body c = (Inl e, c') \<Longrightarrow> same_tables c c'"
  by (auto simp: transaction_def st_bind_def sql_query_run same_tables_def rollback_to_def
      split: prod.splits sum.splits option.splits)

lemma transaction_cases:
  assumes "transaction body c = (r, c')"
  obtains (failed) e where "r = Inl (Sqlite e)" and "\<not> healthy c" and "same_tables c c'"
    | (ran) c1 r1 c2 where "same_tables c c1" and "healthy c \<Longrightarrow> healthy c1" and "body c1 = (r1, c2)"
        and "(\<exists>e. r1 = Inl e \<and> r = Inl e \<and> same_tables c c') \<or>
          (\<exists>x. r1 = Inr x \<and> r = Inr x \<and> same_tables c2 c' \<and> (healthy c2 \<longrightarrow> healthy c')) \<or>
          (\<exists>x e. r1 = Inr x \<and> r = Inl (Sqlite e) \<and> \<not> healthy c2 \<and> same_tables c c')"
proof (cases "outcome c")
  case (Some e)
  with assms have "r = Inl (Sqlite e)" "c' = advance c"
    by (auto simp: transaction_def st_bind_def sql_query_run)
  with Some healthy_outcome [of c] show ?thesis by (intro failed) auto
next
  case None
  obtain r1 c2 where b: "body (advance c) = (r1, c2)" by fastforce
  have "(\<exists>e. r1 = Inl e \<and> r = Inl e \<and> same_tables c c') \<or>
     (\<exists>x. r1 = Inr x \<and> r = Inr x \<and> same_tables c2 c' \<and> (healthy c2 \<longrightarrow> healthy c')) \<or>
     (\<exists>x e. r1 = Inr x \<and> r = Inl (Sqlite e) \<and> \<not> healthy c2 \<and> same_tables c c')"
    using assms None b healthy_outcome [of c2]
    by (cases r1; cases "outcome c2")
      (auto simp: transaction_def st_bind_def sql_query_run st_return_run rollback_to_def same_tables_def)
  with b show ?thesis by (intro ran [of "advance c" r1 c2]) simp_all
qed

end
