(* ===== verification/Proto_Mapping.thy ===== *)
theory Proto_Mapping
  imports Wire
begin

text \<open>
  The conversions of \<open>src/mapping.rs\<close>: commands in, events in and out, stored events replayed
  into a state, a state turned into the view of a snapshot, and the error types turned into a
  gRPC status.
\<close>

section \<open>Commands and events\<close>

definition proto_command_to_domain :: "QuoteCommand \<Rightarrow> Status + DomainCommand" where
  "proto_command_to_domain cmd =
     and_then (ok_or (command_kind cmd) (status InvalidArgument ''command.kind required''))
       (\<lambda>k. case k of
          CmdKind_CreateQuote cc jid \<Rightarrow> Inr (CreateQuote cc jid)
        | CmdKind_AddLineItem lid sk desc qty unit \<Rightarrow> Inr (AddLineItem lid sk desc qty unit)
        | CmdKind_FinalizeQuote \<Rightarrow> Inr FinalizeQuote)"

fun domain_event_to_proto :: "DomainEvent \<Rightarrow> QuoteEvent" where
  "domain_event_to_proto (QuoteCreated cc jid) = \<lparr>event_kind = Some (EvKind_QuoteCreated cc jid)\<rparr>"
| "domain_event_to_proto (LineItemAdded lid sk desc qty unit) =
     \<lparr>event_kind = Some (EvKind_LineItemAdded lid sk desc qty unit)\<rparr>"
| "domain_event_to_proto QuoteFinalized = \<lparr>event_kind = Some EvKind_QuoteFinalized\<rparr>"

definition stored_event_to_domain_event_store :: "StoredEvent \<Rightarrow> StoreError + DomainEvent" where
  "stored_event_to_domain_event_store stored =
     and_then (ok_or (event stored) (Corrupt ''stored event missing payload'')) (\<lambda>ev.
     and_then (ok_or (event_kind ev) (Corrupt ''stored event missing kind'')) (\<lambda>k.
       case k of
         EvKind_QuoteCreated cc jid \<Rightarrow> Inr (QuoteCreated cc jid)
       | EvKind_LineItemAdded lid sk desc qty unit \<Rightarrow> Inr (LineItemAdded lid sk desc qty unit)
       | EvKind_QuoteFinalized \<Rightarrow> Inr QuoteFinalized))"

definition replay_stored_step :: "QuoteState \<Rightarrow> StoredEvent \<Rightarrow> StoreError + QuoteState" where
  "replay_stored_step state stored =
     and_then (stored_event_to_domain_event_store stored) (\<lambda>ev.
       map_err DomainErr (reduce state ev))"

definition replay_stored_to_state :: "StoredEvent list \<Rightarrow> StoreError + QuoteState" where
  "replay_stored_to_state events = try_fold replay_stored_step QuoteState_default events"

section \<open>Views\<close>

definition line_view :: "LineItemState \<Rightarrow> DomainError + LineItemView" where
  "line_view l =
     and_then (line_total_minor l) (\<lambda>t.
       Inr \<lparr>view_line_id = line_id l, view_sku = sku l, view_description = description l,
            view_quantity = quantity l, view_unit_minor = unit_minor l,
            view_line_total_minor = t\<rparr>)"

definition quote_state_to_view :: "rstring \<Rightarrow> QuoteState \<Rightarrow> DomainError + QuoteView" where
  "quote_state_to_view q state =
     and_then (subtotal_minor state) (\<lambda>sub.
     and_then (tax_minor state) (\<lambda>tax.
     and_then (total_minor state) (\<lambda>tot.
     and_then (try_map line_view (lines state)) (\<lambda>items.
       Inr \<lparr>view_quote_id = q,
            view_currency_code = currency_code_str state,
            view_jurisdiction_id = jurisdiction_id_str state,
            view_finalized = finalized state,
            view_subtotal_minor = sub, view_tax_minor = tax, view_total_minor = tot,
            view_line_items = items\<rparr>))))"

section \<open>Statuses\<close>

definition domain_error_to_status :: "DomainError \<Rightarrow> Status" where
  "domain_error_to_status err =
     (let msg = display_domain_error err in
      case err of
        QuoteAlreadyCreated \<Rightarrow> status FailedPrecondition msg
      | DuplicateCreateQuote \<Rightarrow> status FailedPrecondition msg
      | InvalidField _ \<Rightarrow> status InvalidArgument msg
      | InvalidQuantity \<Rightarrow> status InvalidArgument msg
      | InvalidUnitMinor \<Rightarrow> status InvalidArgument msg
      | DuplicateLineId \<Rightarrow> status InvalidArgument msg
      | QuoteNotCreated \<Rightarrow> status FailedPrecondition msg
      | QuoteAlreadyFinalized \<Rightarrow> status FailedPrecondition msg
      | CannotFinalizeWithoutLines \<Rightarrow> status FailedPrecondition msg
      | IntegerOverflow \<Rightarrow> status OutOfRange msg)"

definition store_error_to_status :: "StoreError \<Rightarrow> Status" where
  "store_error_to_status err =
     (let msg = display_store_error err in
      case err of
        InvalidAfterSeq _ _ \<Rightarrow> status InvalidArgument msg
      | EmptyAppend \<Rightarrow> status InvalidArgument msg
      | Corrupt _ \<Rightarrow> status DataLoss msg
      | Sqlite _ \<Rightarrow> status Internal msg
      | DomainErr e \<Rightarrow> domain_error_to_status e
      | IdempotencyConflict _ _ \<Rightarrow> status FailedPrecondition msg)"

section \<open>Lemmas\<close>

definition stored_event_of :: "rstring \<Rightarrow> nat \<Rightarrow> DomainEvent \<Rightarrow> StoredEvent" where
  "stored_event_of q n ev = \<lparr>seq = of_nat n, quote_id = q, event = Some (domain_event_to_proto ev)\<rparr>"

lemma stored_event_roundtrip [simp]:
  "stored_event_to_domain_event_store \<lparr>seq = n, quote_id = q, event = Some (domain_event_to_proto ev)\<rparr> = Inr ev"
  by (cases ev) (simp_all add: stored_event_to_domain_event_store_def)

lemma domain_event_to_proto_inj [simp]:
  "domain_event_to_proto a = domain_event_to_proto b \<longleftrightarrow> a = b"
  by (cases a; cases b) simp_all

text \<open>Replaying stored events is replaying the events they hold.\<close>

lemma replay_stored_fold:
  "list_all2 (\<lambda>st ev. event st = Some (domain_event_to_proto ev)) sts evs \<Longrightarrow>
   try_fold replay_stored_step s sts = map_err DomainErr (try_fold reduce s evs)"
proof (induction sts evs arbitrary: s rule: list_all2_induct)
  case (Cons st sts ev evs)
  from Cons.hyps have "stored_event_to_domain_event_store st = Inr ev"
    by (cases st) simp
  then have "replay_stored_step s st = map_err DomainErr (reduce s ev)"
    by (simp add: replay_stored_step_def)
  with Cons.IH show ?case by (cases "reduce s ev") simp_all
qed simp

lemma replay_stored_replay:
  "list_all2 (\<lambda>st ev. event st = Some (domain_event_to_proto ev)) sts evs \<Longrightarrow>
   replay_stored_to_state sts = map_err DomainErr (replay evs)"
  by (simp add: replay_stored_to_state_def replay_def replay_stored_fold)

lemma line_view_total:
  "fits_i64 (line_exact l) \<Longrightarrow> line_view l = Inr
     \<lparr>view_line_id = line_id l, view_sku = sku l, view_description = description l,
      view_quantity = quantity l, view_unit_minor = unit_minor l,
      view_line_total_minor = word_of_int (line_exact l)\<rparr>"
  by (simp add: line_view_def line_total_cases)

lemma view_ok: "quote_inv s \<Longrightarrow> \<exists>v. quote_state_to_view q s = Inr v"
  using try_map_total [of "lines s" line_view, OF line_view_total]
  by (auto simp: quote_state_to_view_def money_cases quote_inv_def money_ok_def lines_fit_def list_all_iff)

section \<open>Properties\<close>

text \<open>
  C31: The view of a snapshot adds up: for every state that satisfies the invariant it exists, it
  lists the lines of the quote in order with their exact products, the subtotal is the sum of the
  line totals it shows, and the total is subtotal plus tax.
\<close>

theorem snapshot_adds_up:
  assumes "quote_inv s"
  shows "\<exists>v. quote_state_to_view q s = Inr v \<and>
    List.map view_line_id (view_line_items v) = List.map line_id (lines s) \<and>
    List.map (\<lambda>i. sint (view_line_total_minor i)) (view_line_items v) =
      List.map (\<lambda>l. sint (quantity l) * sint (unit_minor l)) (lines s) \<and>
    sint (view_subtotal_minor v) = (\<Sum>i \<leftarrow> view_line_items v. sint (view_line_total_minor i)) \<and>
    sint (view_total_minor v) = sint (view_subtotal_minor v) + sint (view_tax_minor v) \<and>
    view_finalized v = finalized s \<and> view_quote_id v = q"
proof -
  have fit: "fits_i64 (line_exact l)" if "l \<in> set (lines s)" for l
    using assms that by (auto simp: quote_inv_def money_ok_def lines_fit_def list_all_iff)
  have m: "lines_fit s" "fits_i64 (exact_subtotal s)" "fits_i64 (exact_tax s)" "fits_i64 (exact_total s)"
    using assms exact_tax_fits [of s] by (auto simp: quote_inv_def money_ok_def)
  let ?item = "\<lambda>l. \<lparr>view_line_id = line_id l, view_sku = sku l, view_description = description l,
      view_quantity = quantity l, view_unit_minor = unit_minor l,
      view_line_total_minor = word_of_int (line_exact l)\<rparr>"
  have items: "try_map line_view (lines s) = Inr (List.map ?item (lines s))"
    using fit by (intro try_map_total) (simp add: line_view_total)
  have totals: "List.map (\<lambda>l. sint (word_of_int (line_exact l) :: i64)) (lines s) = List.map line_exact (lines s)"
    using fit by (simp add: sint_word_of_int_fits)
  then have "(\<Sum>l \<leftarrow> lines s. sint (word_of_int (line_exact l) :: i64)) = exact_subtotal s"
    by (simp only: exact_subtotal_def)
  with m items totals have "\<exists>v. quote_state_to_view q s = Inr v \<and>
      List.map view_line_id (view_line_items v) = List.map line_id (lines s) \<and>
      List.map (\<lambda>i. sint (view_line_total_minor i)) (view_line_items v) =
        List.map (\<lambda>l. sint (quantity l) * sint (unit_minor l)) (lines s) \<and>
      sint (view_subtotal_minor v) = (\<Sum>i \<leftarrow> view_line_items v. sint (view_line_total_minor i)) \<and>
      sint (view_subtotal_minor v) = exact_subtotal s \<and> sint (view_tax_minor v) = exact_tax s \<and>
      sint (view_total_minor v) = exact_total s \<and> view_finalized v = finalized s \<and> view_quote_id v = q"
    by (simp add: quote_state_to_view_def money_cases comp_def sint_word_of_int_fits line_exact_def)
  then show ?thesis by (auto simp: exact_total_def)
qed

theorem snapshot_adds_up_witness:
  "\<exists>v. quote_state_to_view ''q1'' sample_quote = Inr v \<and>
     sint (view_total_minor v) = sint (view_subtotal_minor v) + sint (view_tax_minor v)"
  using snapshot_adds_up [OF sample_quote_inv, of "''q1''"] by blast

end
