(* ===== verification/Store.thy ===== *)
theory Store
  imports Sqlite_Db Proto_Mapping
begin

text \<open>
  The event store of \<open>src/store.rs\<close>: loading the events of a quote, the lookup of an
  idempotency key, and the append of a command's events in one transaction.  Each operation
  is a computation over the connection; a \<open>SELECT\<close> filters and sorts the table, and the
  casts between \<open>u64\<close> and \<open>i64\<close> keep the bits.
\<close>

section \<open>Operations\<close>

definition row_to_stored :: "External \<Rightarrow> EventRow \<Rightarrow> StoreError + StoredEvent" where
  "row_to_stored E r =
     and_then (map_err Corrupt (decode_event E (row_payload r))) (\<lambda>ev.
       Inr \<lparr>seq = row_seq r, quote_id = row_quote_id r, event = Some ev\<rparr>)"

text \<open>\<open>SELECT seq, quote_id, payload FROM events WHERE P ORDER BY seq ASC\<close>\<close>

definition select_events :: "(EventRow \<Rightarrow> bool) \<Rightarrow> Connection \<Rightarrow> EventRow list" where
  "select_events P c = sort_key (\<lambda>r. sint (row_seq r)) (filter P (events c))"

definition load_stored_events :: "External \<Rightarrow> rstring \<Rightarrow> StoredEvent list db" where
  "load_stored_events E q =
     st_bind (sql_query (select_events (\<lambda>r. row_quote_id r = q)))
       (\<lambda>rows. st_lift (try_map (row_to_stored E) rows))"

definition idempotency_lookup :: "rstring \<Rightarrow> rstring \<Rightarrow> (u64 \<times> u64) option db" where
  "idempotency_lookup q k =
     sql_query (\<lambda>c. map_option (\<lambda>r. (key_first_seq r, key_last_seq r))
       (List.find (\<lambda>r. key_quote_id r = q \<and> key_client_command_id r = k) (idempotency_keys c)))"

definition load_events_in_seq_range :: "External \<Rightarrow> rstring \<Rightarrow> u64 \<Rightarrow> u64 \<Rightarrow> StoredEvent list db" where
  "load_events_in_seq_range E q first_seq final_seq =
     st_bind (sql_query (select_events (\<lambda>r. row_quote_id r = q \<and>
         sint first_seq \<le> sint (row_seq r) \<and> sint (row_seq r) \<le> sint final_seq)))
       (\<lambda>rows. st_lift (try_map (row_to_stored E) rows))"

definition event_type_for :: "QuoteEvent \<Rightarrow> rstring" where
  "event_type_for ev =
     (case event_kind ev of
        Some (EvKind_QuoteCreated _ _) \<Rightarrow> ''quote_created''
      | Some (EvKind_LineItemAdded _ _ _ _ _) \<Rightarrow> ''line_item_added''
      | Some EvKind_QuoteFinalized \<Rightarrow> ''quote_finalized''
      | None \<Rightarrow> ''unknown'')"

definition encode_quote_event :: "External \<Rightarrow> QuoteEvent \<Rightarrow> StoreError + bytes" where
  "encode_quote_event E ev = map_err Corrupt (encode_event E ev)"

fun same_payloads_loop :: "External \<Rightarrow> (StoredEvent \<times> QuoteEvent) list \<Rightarrow> StoreError + bool" where
  "same_payloads_loop E [] = Inr True"
| "same_payloads_loop E ((stored, new_ev) # rest) =
     and_then (ok_or (event stored) (Corrupt ''stored event missing payload'')) (\<lambda>old_ev.
     and_then (encode_quote_event E old_ev) (\<lambda>a.
     and_then (encode_quote_event E new_ev) (\<lambda>b.
       if a \<noteq> b then Inr False else same_payloads_loop E rest)))"

definition same_command_payloads ::
  "External \<Rightarrow> StoredEvent list \<Rightarrow> QuoteEvent list \<Rightarrow> StoreError + bool" where
  "same_command_payloads E existing incoming =
     (if length existing \<noteq> length incoming then Inr False
      else same_payloads_loop E (zip existing incoming))"

text \<open>\<open>SELECT COALESCE(MAX(seq), 0) + 1 FROM events WHERE quote_id = ?1\<close>; an integer addition
  that overflows is a REAL in SQLite, which the driver refuses to read as an \<open>i64\<close>.\<close>

definition max_seq :: "rstring \<Rightarrow> Connection \<Rightarrow> int" where
  "max_seq q c =
     (let seqs = List.map (\<lambda>r. sint (row_seq r)) (filter (\<lambda>r. row_quote_id r = q) (events c))
      in if seqs = [] then 0 else Max (set seqs))"

definition next_seq_query :: "External \<Rightarrow> rstring \<Rightarrow> u64 db" where
  "next_seq_query E q = sql (\<lambda>c.
     case i64_try_from (max_seq q c + 1) of
       None \<Rightarrow> Inl (text_not_integer E)
     | Some w \<Rightarrow> Inr (w, c))"

text \<open>The loop over the events, with \<open>seq_cursor\<close> and \<open>stored\<close>.\<close>

fun append_loop ::
  "External \<Rightarrow> rstring \<Rightarrow> u64 \<Rightarrow> StoredEvent list \<Rightarrow> QuoteEvent list \<Rightarrow> (u64 \<times> StoredEvent list) db" where
  "append_loop E q seq_cursor stored [] = st_return (seq_cursor, stored)"
| "append_loop E q seq_cursor stored (ev # evs) =
     st_bind (st_lift (encode_quote_event E ev)) (\<lambda>payload.
     st_bind (insert_event E \<lparr>row_quote_id = q, row_seq = seq_cursor,
                row_event_type = event_type_for ev, row_payload = payload\<rparr>) (\<lambda>_.
     append_loop E q (seq_cursor + 1)
       (stored @ [\<lparr>seq = seq_cursor, quote_id = q, event = Some ev\<rparr>]) evs))"

definition append_new :: "External \<Rightarrow> rstring \<Rightarrow> rstring \<Rightarrow> QuoteEvent list \<Rightarrow> StoredEvent list db" where
  "append_new E q k evs =
     transaction
       (st_bind (next_seq_query E q) (\<lambda>first_seq.
        st_bind (append_loop E q first_seq [] evs) (\<lambda>(seq_cursor, stored).
        st_bind (insert_key E \<lparr>key_quote_id = q, key_client_command_id = k,
                   key_first_seq = first_seq, key_last_seq = seq_cursor - 1\<rparr>) (\<lambda>_.
        st_return stored))))"

definition append_command_events ::
  "External \<Rightarrow> rstring \<Rightarrow> rstring \<Rightarrow> QuoteEvent list \<Rightarrow> StoredEvent list db" where
  "append_command_events E q k evs =
     st_bind (idempotency_lookup q k) (\<lambda>hit.
       case hit of
         Some (first_seq, final_seq) \<Rightarrow>
           st_bind (load_events_in_seq_range E q first_seq final_seq) (\<lambda>existing.
           st_bind (st_lift (same_command_payloads E existing evs)) (\<lambda>same.
             if same then st_return existing
             else st_lift (Inl (IdempotencyConflict q k))))
       | None \<Rightarrow>
           if evs = [] then st_lift (Inl EmptyAppend)
           else append_new E q k evs)"

definition load_stored_events_between ::
  "External \<Rightarrow> rstring \<Rightarrow> u64 \<Rightarrow> u64 \<Rightarrow> StoredEvent list db" where
  "load_stored_events_between E q after_excl upto_incl =
     (if unat upto_incl \<le> unat after_excl then st_return []
      else st_bind (sql_query (select_events (\<lambda>r. row_quote_id r = q \<and>
             sint after_excl < sint (row_seq r) \<and> sint (row_seq r) \<le> sint upto_incl)))
           (\<lambda>rows. st_lift (try_map (row_to_stored E) rows)))"

end
