(* ===== verification/Event_Store.thy ===== *)
theory Event_Store
  imports Wire
begin

text \<open>
  The interface between the ledger and its event store, as two locales.  The provider shows
  an abstract view of its state: the log of events of each quote and the range of sequence
  numbers of each idempotency key.  A read returns what the view says, or an SQLite error when
  the database is not healthy, and leaves the view alone.  An append extends one log and
  records one key, or leaves the view alone.
\<close>

section \<open>Vocabulary of the contract\<close>

fun stored_from :: "rstring \<Rightarrow> nat \<Rightarrow> QuoteEvent list \<Rightarrow> StoredEvent list" where
  "stored_from q n [] = []"
| "stored_from q n (ev # evs) =
     \<lparr>seq = of_nat n, quote_id = q, event = Some ev\<rparr> # stored_from q (Suc n) evs"

lemma length_stored_from [simp]: "length (stored_from q n evs) = length evs"
  by (induction evs arbitrary: n) simp_all

lemma stored_from_append:
  "stored_from q n (xs @ ys) = stored_from q n xs @ stored_from q (n + length xs) ys"
  by (induction xs arbitrary: n) simp_all

lemma stored_from_eq_Nil [simp]: "stored_from q n evs = [] \<longleftrightarrow> evs = []"
  by (cases evs) simp_all

lemma seq_last_stored_from:
  "evs \<noteq> [] \<Longrightarrow> seq (last (stored_from q n evs)) = of_nat (n + length evs - 1)"
  by (induction evs arbitrary: n) (auto simp: neq_Nil_conv)

definition same_view :: "('c \<Rightarrow> bool) \<Rightarrow> ('c \<Rightarrow> 'l) \<Rightarrow> ('c \<Rightarrow> 'k) \<Rightarrow> 'c \<Rightarrow> 'c \<Rightarrow> bool" where
  "same_view ok lg ky c c' \<longleftrightarrow> ok c' \<and> lg c' = lg c \<and> ky c' = ky c"

definition grown_view ::
  "('c \<Rightarrow> bool) \<Rightarrow> ('c \<Rightarrow> rstring \<Rightarrow> QuoteEvent list) \<Rightarrow> ('c \<Rightarrow> rstring \<Rightarrow> rstring \<Rightarrow> (nat \<times> nat) option) \<Rightarrow>
   rstring \<Rightarrow> rstring \<Rightarrow> QuoteEvent list \<Rightarrow> 'c \<Rightarrow> 'c \<Rightarrow> bool" where
  "grown_view ok lg ky q k evs c c' \<longleftrightarrow>
     ok c' \<and> lg c' = (lg c)(q := lg c q @ evs) \<and>
     ky c' = (ky c)(q := (ky c q)(k \<mapsto> (Suc (length (lg c q)), length (lg c q) + length evs)))"

definition reads_as :: "bool \<Rightarrow> StoreError + 'a \<Rightarrow> 'a \<Rightarrow> bool" where
  "reads_as ok r v \<longleftrightarrow> r = Inr v \<or> (\<not> ok \<and> (\<exists>e. r = Inl (Sqlite e)))"

text \<open>The events of the range that a key recorded.\<close>

definition event_slice :: "nat \<Rightarrow> nat \<Rightarrow> 'a list \<Rightarrow> 'a list" where
  "event_slice f l xs = drop (f - 1) (take l xs)"

section \<open>The contract\<close>

locale event_reader =
  fixes inv :: "'c \<Rightarrow> bool"
    and healthy :: "'c \<Rightarrow> bool"
    and log :: "'c \<Rightarrow> rstring \<Rightarrow> QuoteEvent list"
    and key :: "'c \<Rightarrow> rstring \<Rightarrow> rstring \<Rightarrow> (nat \<times> nat) option"
    and load_all :: "rstring \<Rightarrow> ('c, StoreError, StoredEvent list) comp"
    and load_between :: "rstring \<Rightarrow> u64 \<Rightarrow> u64 \<Rightarrow> ('c, StoreError, StoredEvent list) comp"
    and lookup :: "rstring \<Rightarrow> rstring \<Rightarrow> ('c, StoreError, (u64 \<times> u64) option) comp"
  assumes log_bound: "inv c \<Longrightarrow> length (log c q) < 2 ^ 63"
    and key_range: "inv c \<Longrightarrow> key c q k = Some (f, l) \<Longrightarrow> 1 \<le> f \<and> f \<le> l \<and> l \<le> length (log c q)"
    and load_all: "inv c \<Longrightarrow> load_all q c = (r, c') \<Longrightarrow>
      same_view inv log key c c' \<and> (healthy c \<longrightarrow> healthy c') \<and>
      reads_as (healthy c) r (stored_from q 1 (log c q))"
    and load_between: "inv c \<Longrightarrow> unat u < 2 ^ 63 \<Longrightarrow> load_between q a u c = (r, c') \<Longrightarrow>
      same_view inv log key c c' \<and> (healthy c \<longrightarrow> healthy c') \<and>
      reads_as (healthy c) r (stored_from q (Suc (unat a)) (drop (unat a) (take (unat u) (log c q))))"
    and lookup: "inv c \<Longrightarrow> lookup q k c = (hit, c') \<Longrightarrow>
      same_view inv log key c c' \<and> (healthy c \<longrightarrow> healthy c') \<and>
      reads_as (healthy c) hit (map_option (\<lambda>(f, l). (of_nat f, of_nat l)) (key c q k))"

locale event_store = event_reader +
  fixes append :: "rstring \<Rightarrow> rstring \<Rightarrow> QuoteEvent list \<Rightarrow> ('c, StoreError, StoredEvent list) comp"
  assumes append_known: "inv c \<Longrightarrow> key c q k = Some (f, l) \<Longrightarrow> append q k evs c = (r, c') \<Longrightarrow>
      same_view inv log key c c' \<and> (healthy c \<longrightarrow> healthy c') \<and>
      (r = (if event_slice f l (log c q) = evs then Inr (stored_from q f evs)
            else Inl (IdempotencyConflict q k)) \<or>
       \<not> healthy c \<and> (\<exists>e. r = Inl (Sqlite e)))"
    and append_empty: "inv c \<Longrightarrow> key c q k = None \<Longrightarrow> append q k [] c = (r, c') \<Longrightarrow>
      same_view inv log key c c' \<and> (healthy c \<longrightarrow> healthy c') \<and>
      (r = Inl EmptyAppend \<or> \<not> healthy c \<and> (\<exists>e. r = Inl (Sqlite e)))"
    and append_fresh: "inv c \<Longrightarrow> key c q k = None \<Longrightarrow> evs \<noteq> [] \<Longrightarrow>
      length evs = 1 \<or> length (log c q) + length evs < 2 ^ 63 \<Longrightarrow> append q k evs c = (r, c') \<Longrightarrow>
      (same_view inv log key c c' \<and> (\<exists>e. r = Inl (Sqlite e)) \<and>
         (healthy c \<longrightarrow> 2 ^ 63 \<le> length (log c q) + length evs)) \<or>
      (grown_view inv log key q k evs c c' \<and> (healthy c \<longrightarrow> healthy c') \<and>
         r = Inr (stored_from q (Suc (length (log c q))) evs))"

end
