(* ===== verification/Store_Facts.thy ===== *)
theory Store_Facts
  imports Store Event_Store
begin

text \<open>
  What the event store keeps and what its operations promise.  The abstract view of a
  connection is the list of events of each quote (\<open>log_of\<close>) and the range of sequence numbers
  recorded for each idempotency key (\<open>key_of\<close>).  \<open>store_inv\<close> says that the rows of each
  quote are numbered from 1 without gaps, in the order of the table, and that every recorded
  range lies inside the log.
\<close>

section \<open>The abstract view\<close>

definition codec_ok :: "External \<Rightarrow> bool" where
  "codec_ok E \<longleftrightarrow> (\<forall>ev. \<exists>b. encode_event E ev = Inr b \<and> decode_event E b = Inr ev)"

definition payload_of :: "External \<Rightarrow> QuoteEvent \<Rightarrow> bytes" where
  "payload_of E ev = projr (encode_event E ev)"

fun rows_from :: "External \<Rightarrow> rstring \<Rightarrow> nat \<Rightarrow> QuoteEvent list \<Rightarrow> EventRow list" where
  "rows_from E q n [] = []"
| "rows_from E q n (ev # evs) =
     \<lparr>row_quote_id = q, row_seq = of_nat n, row_event_type = event_type_for ev,
      row_payload = payload_of E ev\<rparr> # rows_from E q (Suc n) evs"

definition quote_rows :: "Connection \<Rightarrow> rstring \<Rightarrow> EventRow list" where
  "quote_rows c q = filter (\<lambda>r. row_quote_id r = q) (events c)"

definition log_of :: "External \<Rightarrow> Connection \<Rightarrow> rstring \<Rightarrow> QuoteEvent list" where
  "log_of E c q = List.map (\<lambda>r. projr (decode_event E (row_payload r))) (quote_rows c q)"

definition key_of :: "Connection \<Rightarrow> rstring \<Rightarrow> rstring \<Rightarrow> (nat \<times> nat) option" where
  "key_of c q k = map_option (\<lambda>r. (unat (key_first_seq r), unat (key_last_seq r)))
     (List.find (\<lambda>r. key_quote_id r = q \<and> key_client_command_id r = k) (idempotency_keys c))"

definition store_inv :: "External \<Rightarrow> Connection \<Rightarrow> bool" where
  "store_inv E c \<longleftrightarrow>
     (\<forall>q. \<exists>evs. length evs < 2 ^ 63 \<and> quote_rows c q = rows_from E q 1 evs) \<and>
     (\<forall>q k f l. key_of c q k = Some (f, l) \<longrightarrow> 1 \<le> f \<and> f \<le> l \<and> l \<le> length (quote_rows c q))"

section \<open>Rows and numbers\<close>

lemma codec_encode: "codec_ok E \<Longrightarrow> encode_event E ev = Inr (payload_of E ev)"
  by (metis codec_ok_def payload_of_def sum.sel(2))

lemma codec_decode: "codec_ok E \<Longrightarrow> decode_event E (payload_of E ev) = Inr ev"
  by (metis codec_ok_def payload_of_def sum.sel(2))

lemma payload_of_inj: "codec_ok E \<Longrightarrow> payload_of E a = payload_of E b \<longleftrightarrow> a = b"
  by (metis codec_decode sum.inject(2))

lemma sint_of_nat_i64: "n < 2 ^ 63 \<Longrightarrow> sint (of_nat n :: i64) = int n"
  using sint_word_of_int_fits [of "int n"] by (simp add: fits_i64_def)

lemma unat_of_nat_u64: "n < 2 ^ 63 \<Longrightarrow> unat (of_nat n :: u64) = n"
  by (simp add: unat_of_nat take_bit_nat_eq_self)

lemma sint_unat: "unat (w :: u64) < 2 ^ 63 \<Longrightarrow> sint w = int (unat w)"
  using sint_of_nat_i64 [of "unat w"] by simp

lemma length_rows_from [simp]: "length (rows_from E q n evs) = length evs"
  by (induction evs arbitrary: n) simp_all

lemma rows_from_append:
  "rows_from E q n (xs @ ys) = rows_from E q n xs @ rows_from E q (n + length xs) ys"
  by (induction xs arbitrary: n) simp_all

lemma rows_from_quote: "r \<in> set (rows_from E q n evs) \<Longrightarrow> row_quote_id r = q"
  by (induction evs arbitrary: n) auto

lemma rows_from_seq:
  "List.map row_seq (rows_from E q n evs) = List.map of_nat [n ..< n + length evs]"
proof (induction evs arbitrary: n)
  case (Cons ev evs)
  have "[n ..< n + length (ev # evs)] = n # [Suc n ..< Suc n + length evs]"
    by (simp add: upt_conv_Cons del: upt_Suc)
  with Cons show ?case by (simp del: upt_Suc)
qed simp

lemma rows_from_decode:
  "codec_ok E \<Longrightarrow> List.map (\<lambda>r. projr (decode_event E (row_payload r))) (rows_from E q n evs) = evs"
  by (induction evs arbitrary: n) (simp_all add: codec_decode)

lemma try_map_rows:
  "codec_ok E \<Longrightarrow> try_map (row_to_stored E) (rows_from E q n evs) = Inr (stored_from q n evs)"
  by (induction evs arbitrary: n) (simp_all add: row_to_stored_def codec_decode)

lemma rows_from_sorted:
  "n + length evs \<le> 2 ^ 63 \<Longrightarrow> sorted (List.map (\<lambda>r. sint (row_seq r)) (rows_from E q n evs))"
proof -
  assume b: "n + length evs \<le> 2 ^ 63"
  have "List.map (\<lambda>r. sint (row_seq r)) (rows_from E q n evs) =
      List.map (\<lambda>w. sint (w :: i64)) (List.map row_seq (rows_from E q n evs))" by simp
  also have "\<dots> = List.map int [n ..< n + length evs]"
    unfolding rows_from_seq using b by (simp add: sint_of_nat_i64)
  finally show ?thesis by (simp add: sorted_wrt_map)
qed

lemma sort_key_sorted: "sorted (List.map f xs) \<Longrightarrow> sort_key f xs = xs"
  by (induction xs) (simp_all add: insort_is_Cons)

text \<open>A range condition on the numbers is a slice of the log.\<close>

lemma filter_rows_range:
  "n + length evs < 2 ^ 63 \<Longrightarrow>
   filter (\<lambda>r. int a < sint (row_seq r) \<and> sint (row_seq r) \<le> int b) (rows_from E q (Suc n) evs) =
   rows_from E q (Suc (max n a)) (drop (a - n) (take (b - n) evs))"
proof (induction evs arbitrary: n)
  case (Cons ev evs)
  then have IH: "filter (\<lambda>r. int a < sint (row_seq r) \<and> sint (row_seq r) \<le> int b)
      (rows_from E q (Suc (Suc n)) evs) =
      rows_from E q (Suc (max (Suc n) a)) (drop (a - Suc n) (take (b - Suc n) evs))"
    and s: "sint (of_nat (Suc n) :: i64) = int (Suc n)"
    using sint_of_nat_i64 [of "Suc n"] by auto
  consider "Suc n \<le> a" | "a < Suc n" "Suc n \<le> b" | "a < Suc n" "b < Suc n" by linarith
  then show ?case
  proof cases
    case 1
    then obtain d where "a - n = Suc d" "a - Suc n = d" by (metis Suc_diff_Suc Suc_le_lessD)
    moreover have "b - Suc n = m" if "b - n = Suc m" for m using that by linarith
    ultimately show ?thesis using 1 IH s
      by (cases "b - n") (auto simp: max_def simp del: of_nat_Suc)
  next
    case 2
    then obtain d where "b - n = Suc d" "b - Suc n = d" by (metis Suc_diff_Suc Suc_le_lessD)
    moreover have "max n a = n" "max (Suc n) a = Suc n" "a - n = 0" "a - Suc n = 0" using 2 by auto
    ultimately show ?thesis using 2 IH s by (simp del: of_nat_Suc)
  next
    case 3
    with IH s show ?thesis by (auto simp: max_def simp del: of_nat_Suc)
  qed
qed simp

section \<open>Reading\<close>

lemma store_inv_rows:
  assumes "codec_ok E" and "store_inv E c"
  shows "quote_rows c q = rows_from E q 1 (log_of E c q)" and "length (log_of E c q) < 2 ^ 63"
proof -
  obtain evs where "length evs < 2 ^ 63" "quote_rows c q = rows_from E q 1 evs"
    using assms(2) unfolding store_inv_def by blast
  then show "quote_rows c q = rows_from E q 1 (log_of E c q)" "length (log_of E c q) < 2 ^ 63"
    using rows_from_decode [OF assms(1)] by (simp_all add: log_of_def)
qed

lemma length_quote_rows: "length (quote_rows c q) = length (log_of E c q)"
  by (simp add: log_of_def)

lemma select_range:
  assumes "codec_ok E" and "store_inv E c"
  shows "select_events (\<lambda>r. row_quote_id r = q \<and> int a < sint (row_seq r) \<and> sint (row_seq r) \<le> int b) c =
     rows_from E q (Suc a) (drop a (take b (log_of E c q)))"
proof -
  let ?evs = "log_of E c q"
  have "filter (\<lambda>r. row_quote_id r = q \<and> int a < sint (row_seq r) \<and> sint (row_seq r) \<le> int b) (events c) =
      filter (\<lambda>r. int a < sint (row_seq r) \<and> sint (row_seq r) \<le> int b) (quote_rows c q)"
    by (simp add: quote_rows_def conj_commute)
  also have "\<dots> = rows_from E q (Suc a) (drop a (take b ?evs))"
    using filter_rows_range [of 0 ?evs a b E q] store_inv_rows [OF assms] by simp
  finally show ?thesis
    using store_inv_rows(2) [OF assms, of q]
    by (cases "a \<le> length ?evs") (simp_all add: select_events_def sort_key_sorted rows_from_sorted)
qed

lemma select_all:
  assumes "codec_ok E" and "store_inv E c"
  shows "select_events (\<lambda>r. row_quote_id r = q) c = rows_from E q 1 (log_of E c q)"
proof -
  have "sorted (List.map (\<lambda>r. sint (row_seq r)) (rows_from E q 1 (log_of E c q)))"
    using store_inv_rows(2) [OF assms, of q] by (intro rows_from_sorted) simp
  then show ?thesis
    using store_inv_rows(1) [OF assms, of q]
    by (simp add: select_events_def quote_rows_def sort_key_sorted)
qed

lemma store_inv_tables: "same_tables c c' \<Longrightarrow> store_inv E c' = store_inv E c"
  by (simp add: same_tables_def store_inv_def quote_rows_def key_of_def)

lemma log_of_tables: "same_tables c c' \<Longrightarrow> log_of E c' = log_of E c"
  by (simp add: same_tables_def log_of_def quote_rows_def fun_eq_iff)

lemma key_of_tables: "same_tables c c' \<Longrightarrow> key_of c' = key_of c"
  by (simp add: same_tables_def key_of_def fun_eq_iff)

lemmas tables_kept = store_inv_tables log_of_tables key_of_tables

lemma log_of_advance [simp]: "log_of E (advance c) = log_of E c"
  by (rule log_of_tables) simp

lemma store_inv_advance [simp]: "store_inv E (advance c) = store_inv E c"
  by (rule store_inv_tables) simp

lemma load_stored_events_run:
  assumes "codec_ok E" and "store_inv E c"
  shows "load_stored_events E q c =
    (case outcome c of Some e \<Rightarrow> Inl (Sqlite e) | None \<Rightarrow> Inr (stored_from q 1 (log_of E c q)), advance c)"
  using assms select_all [of E "advance c" q]
  by (simp add: load_stored_events_def st_bind_def sql_query_run st_lift_run try_map_rows split: option.split)

lemma load_between_run:
  assumes "codec_ok E" and "store_inv E c" and "unat u < 2 ^ 63"
  shows "load_stored_events_between E q a u c =
    (if unat u \<le> unat a then (Inr [], c)
     else (case outcome c of
             Some e \<Rightarrow> Inl (Sqlite e)
           | None \<Rightarrow> Inr (stored_from q (Suc (unat a)) (drop (unat a) (take (unat u) (log_of E c q)))),
           advance c))"
  using assms select_range [of E "advance c" q "unat a" "unat u"]
  by (simp add: load_stored_events_between_def st_bind_def sql_query_run st_lift_run st_return_run
      try_map_rows sint_unat split: option.split)

lemma load_range_run:
  assumes "codec_ok E" and "store_inv E c" and "unat l < 2 ^ 63" and "1 \<le> unat f" and "unat f < 2 ^ 63"
  shows "load_events_in_seq_range E q f l c =
    (case outcome c of
       Some e \<Rightarrow> Inl (Sqlite e)
     | None \<Rightarrow> Inr (stored_from q (unat f) (drop (unat f - 1) (take (unat l) (log_of E c q)))),
     advance c)"
proof -
  let ?P = "\<lambda>r. row_quote_id r = q \<and> sint f \<le> sint (row_seq r) \<and> sint (row_seq r) \<le> sint l"
  let ?Q = "\<lambda>r. row_quote_id r = q \<and> int (unat f - 1) < sint (row_seq r) \<and> sint (row_seq r) \<le> int (unat l)"
  have "?P = ?Q" using assms(3-5) by (auto simp: fun_eq_iff sint_unat)
  then have "select_events ?P (advance c) = select_events ?Q (advance c)" by (rule arg_cong)
  also have "\<dots> = rows_from E q (Suc (unat f - 1)) (drop (unat f - 1) (take (unat l) (log_of E (advance c) q)))"
    using assms(1,2) by (intro select_range) simp_all
  finally show ?thesis
    using assms(1,4) by (simp add: load_events_in_seq_range_def st_bind_def sql_query_run st_lift_run
        try_map_rows split: option.split)
qed

lemma lookup_run:
  "idempotency_lookup q k c =
    (case outcome c of
       Some e \<Rightarrow> Inl (Sqlite e)
     | None \<Rightarrow> Inr (map_option (\<lambda>r. (key_first_seq r, key_last_seq r))
         (List.find (\<lambda>r. key_quote_id r = q \<and> key_client_command_id r = k) (idempotency_keys c))),
     advance c)"
  by (simp add: idempotency_lookup_def sql_query_run split: option.split)

end
