(* ===== verification/Store_Append.thy ===== *)
theory Store_Append
  imports Store_Facts
begin

text \<open>
  The append of \<open>src/store.rs\<close> against the abstract view: a fresh key extends the log of one
  quote by the given events and records their range, or fails and changes nothing; a known key
  compares the stored range with the given events and changes nothing.
\<close>

section \<open>Single statements\<close>

lemma rows_from_seq_set: "r \<in> set (rows_from E q n evs) \<Longrightarrow> \<exists>i. n \<le> i \<and> i < n + length evs \<and> row_seq r = of_nat i"
proof -
  assume "r \<in> set (rows_from E q n evs)"
  then have "row_seq r \<in> set (List.map row_seq (rows_from E q n evs))" by simp
  then show ?thesis unfolding rows_from_seq by auto
qed

lemma rows_from_sint_set:
  "n + length evs \<le> 2 ^ 63 \<Longrightarrow> (\<lambda>r. sint (row_seq r)) ` set (rows_from E q n evs) = int ` {n ..< n + length evs}"
proof -
  assume b: "n + length evs \<le> 2 ^ 63"
  have "(\<lambda>r. sint (row_seq r)) ` set (rows_from E q n evs) =
      (\<lambda>w. sint (w :: i64)) ` set (List.map row_seq (rows_from E q n evs))" by (simp add: image_image)
  also have "\<dots> = int ` {n ..< n + length evs}"
    unfolding rows_from_seq using b by (auto simp: sint_of_nat_i64 image_iff)
  finally show ?thesis .
qed

lemma max_seq_log:
  assumes "codec_ok E" and "store_inv E c"
  shows "max_seq q c = int (length (log_of E c q))"
proof -
  let ?n = "length (log_of E c q)"
  let ?seqs = "List.map (\<lambda>r. sint (row_seq r)) (filter (\<lambda>r. row_quote_id r = q) (events c))"
  have rows: "filter (\<lambda>r. row_quote_id r = q) (events c) = rows_from E q 1 (log_of E c q)"
    using store_inv_rows(1) [OF assms] by (simp add: quote_rows_def)
  have "set ?seqs = int ` {1 ..< 1 + ?n}"
    using rows rows_from_sint_set [of 1 "log_of E c q" E q] store_inv_rows(2) [OF assms, of q] by simp
  moreover have "Max (int ` {1 ..< 1 + ?n}) = int ?n" if "0 < ?n"
    using that by (intro Max_eqI) (auto intro!: imageI simp: Suc_le_eq)
  ultimately show ?thesis
    using rows by (cases "log_of E c q") (auto simp: max_seq_def Let_def simp del: set_map)
qed

lemma next_seq_run:
  assumes "codec_ok E" and "store_inv E c"
  shows "next_seq_query E q c =
    (case outcome c of
       Some e \<Rightarrow> Inl (Sqlite e)
     | None \<Rightarrow> if Suc (length (log_of E c q)) < 2 ^ 63 then Inr (of_nat (Suc (length (log_of E c q))))
               else Inl (Sqlite (text_not_integer E)),
     advance c)"
  using max_seq_log [of E "advance c" q] assms
  by (simp add: next_seq_query_def sql_def i64_try_from_def fits_i64_def add.commute split: option.split)

lemma insert_event_fresh:
  assumes "\<And>x. x \<in> set (events c) \<Longrightarrow> row_quote_id x = row_quote_id r \<Longrightarrow> row_seq x \<noteq> row_seq r"
  shows "insert_event E r c =
    (case outcome c of
       Some e \<Rightarrow> (Inl (Sqlite e), advance c)
     | None \<Rightarrow> (Inr (), (advance c)\<lparr>events := events c @ [r]\<rparr>))"
  using assms by (auto simp: insert_event_def sql_def list_ex_iff split: option.split)

lemma insert_key_fresh:
  assumes "key_of c (key_quote_id r) (key_client_command_id r) = None"
  shows "insert_key E r c =
    (case outcome c of
       Some e \<Rightarrow> (Inl (Sqlite e), advance c)
     | None \<Rightarrow> (Inr (), (advance c)\<lparr>idempotency_keys := idempotency_keys c @ [r]\<rparr>))"
  using assms by (auto simp: insert_key_def sql_def list_ex_iff key_of_def find_None_iff split: option.split)

section \<open>The loop over the events\<close>

lemma healthy_drop [simp]:
  "healthy c \<Longrightarrow> healthy (c\<lparr>events := es, outcomes := drop n (outcomes c)\<rparr>)"
  by (auto simp: healthy_def list_all_iff dest: in_set_dropD)

lemma not_healthy_outcome: "outcome c = Some e \<Longrightarrow> \<not> healthy c"
  using healthy_outcome [of c] by auto

lemma healthy_advance_iff: "outcome c = None \<Longrightarrow> healthy (advance c) = healthy c"
  by (cases "outcomes c") (auto simp: healthy_def advance_def outcome_def)

lemma fresh_seq:
  assumes "quote_rows c q = rows_from E q 1 evs" and "Suc (length evs) < 2 ^ 63"
    and "x \<in> set (events c)" and "row_quote_id x = q"
  shows "row_seq x \<noteq> of_nat (Suc (length evs))"
proof -
  have "x \<in> set (rows_from E q 1 evs)"
    unfolding assms(1) [symmetric] using assms(3,4) by (simp add: quote_rows_def)
  then obtain i where i: "i < Suc (length evs)" "row_seq x = of_nat i"
    using rows_from_seq_set by fastforce
  with assms(2) unat_of_nat_u64 [of i] unat_of_nat_u64 [of "Suc (length evs)"] show ?thesis
    by (metis less_trans nat_neq_iff)
qed

lemma append_loop_run:
  assumes "codec_ok E" and "quote_rows c q = rows_from E q 1 evs0"
    and "length evs0 + length evs < 2 ^ 63"
    and "append_loop E q (of_nat (Suc (length evs0))) st evs c = (r, c')"
  shows "(\<exists>e. r = Inl (Sqlite e) \<and> \<not> healthy c) \<or>
    (r = Inr (of_nat (Suc (length evs0 + length evs)), st @ stored_from q (Suc (length evs0)) evs) \<and>
     c' = c\<lparr>events := events c @ rows_from E q (Suc (length evs0)) evs,
            outcomes := drop (length evs) (outcomes c)\<rparr>)"
  using assms(2-4)
proof (induction evs arbitrary: evs0 st c)
  case Nil
  then show ?case by (simp add: st_return_run)
next
  case (Cons ev evs)
  let ?n = "Suc (length evs0)"
  let ?row = "\<lparr>row_quote_id = q, row_seq = of_nat ?n, row_event_type = event_type_for ev,
      row_payload = payload_of E ev\<rparr>"
  let ?c1 = "(advance c)\<lparr>events := events c @ [?row]\<rparr>"
  have ins: "insert_event E ?row c = (case outcome c of
      Some e \<Rightarrow> (Inl (Sqlite e), advance c) | None \<Rightarrow> (Inr (), ?c1))"
    using fresh_seq [OF Cons.prems(1)] Cons.prems(2) by (intro insert_event_fresh) auto
  show ?case
  proof (cases "outcome c")
    case (Some e)
    with Cons.prems(3) ins show ?thesis
      by (auto simp: st_bind_def st_lift_run encode_quote_event_def codec_encode [OF assms(1)]
          not_healthy_outcome)
  next
    case None
    have rows: "quote_rows ?c1 q = rows_from E q 1 (evs0 @ [ev])"
      using Cons.prems(1) by (simp add: quote_rows_def rows_from_append)
    have run: "append_loop E q (of_nat (Suc (length (evs0 @ [ev]))))
        (st @ [\<lparr>seq = of_nat ?n, quote_id = q, event = Some ev\<rparr>]) evs ?c1 = (r, c')"
      using Cons.prems(3) ins None
      by (simp add: st_bind_def st_lift_run encode_quote_event_def codec_encode [OF assms(1)] add.commute)
    show ?thesis
      using Cons.IH [OF rows _ run] Cons.prems(2) healthy_advance_iff [OF None]
      by (auto simp: advance_def drop_Suc)
  qed
qed

section \<open>The transaction\<close>

definition append_body :: "External \<Rightarrow> rstring \<Rightarrow> rstring \<Rightarrow> QuoteEvent list \<Rightarrow> StoredEvent list db" where
  "append_body E q k evs =
     st_bind (next_seq_query E q) (\<lambda>first_seq.
     st_bind (append_loop E q first_seq [] evs) (\<lambda>(seq_cursor, stored).
     st_bind (insert_key E \<lparr>key_quote_id = q, key_client_command_id = k,
                key_first_seq = first_seq, key_last_seq = seq_cursor - 1\<rparr>) (\<lambda>_.
     st_return stored)))"

lemma append_new_body: "append_new E q k evs = transaction (append_body E q k evs)"
  by (simp add: append_new_def append_body_def)

text \<open>What a successful append adds to the two tables.\<close>

definition appended :: "External \<Rightarrow> rstring \<Rightarrow> rstring \<Rightarrow> QuoteEvent list \<Rightarrow> Connection \<Rightarrow> Connection \<Rightarrow> bool" where
  "appended E q k evs c c' \<longleftrightarrow>
     (let n = length (log_of E c q) in
      n + length evs < 2 ^ 63 \<and>
      events c' = events c @ rows_from E q (Suc n) evs \<and>
      idempotency_keys c' = idempotency_keys c @
        [\<lparr>key_quote_id = q, key_client_command_id = k,
          key_first_seq = of_nat (Suc n), key_last_seq = of_nat (n + length evs)\<rparr>])"

lemma append_body_run:
  assumes E: "codec_ok E" and inv: "store_inv E c" and k: "key_of c q k = None"
    and ne: "evs \<noteq> []" and room: "length evs = 1 \<or> length (log_of E c q) + length evs < 2 ^ 63"
    and run: "append_body E q k evs c = (r, c')"
  shows "(\<exists>e. r = Inl (Sqlite e) \<and> (healthy c \<longrightarrow> 2 ^ 63 \<le> length (log_of E c q) + length evs)) \<or>
    (r = Inr (stored_from q (Suc (length (log_of E c q))) evs) \<and> appended E q k evs c c' \<and>
     (healthy c \<longrightarrow> healthy c'))"
proof (cases "outcome c = None \<and> Suc (length (log_of E c q)) < 2 ^ 63")
  case False
  then have "(\<exists>e. outcome c = Some e) \<or> 2 ^ 63 \<le> length (log_of E c q) + length evs"
    using ne by (cases evs) auto
  with False run not_healthy_outcome [of c] show ?thesis
    by (cases "outcome c") (auto simp: append_body_def st_bind_def next_seq_run [OF E inv])
next
  case True
  let ?n = "length (log_of E c q)"
  obtain r1 c2 where loop: "append_loop E q (of_nat (Suc ?n)) [] evs (advance c) = (r1, c2)" by fastforce
  have room': "?n + length evs < 2 ^ 63" using room True by auto
  have rows: "quote_rows (advance c) q = rows_from E q 1 (log_of E c q)"
    using store_inv_rows(1) [OF E, of "advance c" q] inv by simp
  from append_loop_run [OF E rows room' loop] consider
      (bad) e where "r1 = Inl (Sqlite e)" "\<not> healthy c"
    | (good) "r1 = Inr (of_nat (Suc (?n + length evs)), stored_from q (Suc ?n) evs)"
        "events c2 = events c @ rows_from E q (Suc ?n) evs"
        "idempotency_keys c2 = idempotency_keys c" "healthy c \<Longrightarrow> healthy c2"
    using True healthy_advance_iff [of c] healthy_drop [of "advance c" "length evs" "events c @ rows_from E q (Suc ?n) evs"]
    by (elim disjE) auto
  then show ?thesis
  proof cases
    case bad
    with run True loop show ?thesis
      by (auto simp: append_body_def st_bind_def next_seq_run [OF E inv])
  next
    case good
    have "key_of c2 q k = None" using k good(3) by (simp add: key_of_def)
    with run True loop good room' not_healthy_outcome [of c2] healthy_advance_iff [of c2] show ?thesis
      by (auto simp: append_body_def st_bind_def next_seq_run [OF E inv] insert_key_fresh st_return_run
          appended_def Let_def split: option.splits)
  qed
qed

lemma append_new_run:
  assumes E: "codec_ok E" and inv: "store_inv E c" and k: "key_of c q k = None"
    and ne: "evs \<noteq> []" and room: "length evs = 1 \<or> length (log_of E c q) + length evs < 2 ^ 63"
    and run: "append_new E q k evs c = (r, c')"
  shows "(\<exists>e. r = Inl (Sqlite e) \<and> same_tables c c' \<and>
       (healthy c \<longrightarrow> 2 ^ 63 \<le> length (log_of E c q) + length evs)) \<or>
    (r = Inr (stored_from q (Suc (length (log_of E c q))) evs) \<and> appended E q k evs c c' \<and>
     (healthy c \<longrightarrow> healthy c'))"
  using run unfolding append_new_body
proof (cases rule: transaction_cases)
  case (ran c1 r1 c2)
  have log: "log_of E c1 = log_of E c" using ran(1) by (rule log_of_tables)
  have app: "appended E q k evs c1 c2 \<Longrightarrow> same_tables c2 c' \<Longrightarrow> appended E q k evs c c'"
    using ran(1) by (simp add: appended_def log same_tables_def)
  have "store_inv E c1" "key_of c1 q k = None"
    "length evs = 1 \<or> length (log_of E c1 q) + length evs < 2 ^ 63"
    using ran(1) inv k room by (simp_all add: tables_kept)
  from append_body_run [OF E this(1,2) ne this(3) ran(3)] consider
      e where "r1 = Inl (Sqlite e)" "healthy c1 \<longrightarrow> 2 ^ 63 \<le> length (log_of E c q) + length evs"
    | "r1 = Inr (stored_from q (Suc (length (log_of E c q))) evs)" "appended E q k evs c1 c2"
      "healthy c1 \<longrightarrow> healthy c2"
    unfolding log by blast
  then show ?thesis
  proof cases
    case 1
    with ran(2,4) show ?thesis by auto
  next
    case 2
    with ran(2,4) app show ?thesis by blast
  qed
qed simp

section \<open>The invariant after an append\<close>

lemma appended_rows:
  "appended E q k evs c c' \<Longrightarrow>
   quote_rows c' q' = (if q' = q then quote_rows c q @ rows_from E q (Suc (length (log_of E c q))) evs
     else quote_rows c q')"
  using rows_from_quote by (fastforce simp: appended_def quote_rows_def Let_def filter_empty_conv filter_id_conv)

lemma appended_log:
  assumes "codec_ok E" and "appended E q k evs c c'"
  shows "log_of E c' = (log_of E c)(q := log_of E c q @ evs)"
  using appended_rows [OF assms(2)] rows_from_decode [OF assms(1)] by (auto simp: fun_eq_iff log_of_def)

lemma find_snoc:
  "List.find P (xs @ [x]) = (case List.find P xs of Some y \<Rightarrow> Some y | None \<Rightarrow> if P x then Some x else None)"
  by (induction xs) auto

lemma appended_key:
  assumes "appended E q k evs c c'" and "key_of c q k = None" and "evs \<noteq> []"
  shows "key_of c' q' k' = (if q' = q \<and> k' = k
     then Some (Suc (length (log_of E c q)), length (log_of E c q) + length evs) else key_of c q' k')"
proof -
  let ?n = "length (log_of E c q)"
  have "?n + length evs < 2 ^ 63" "Suc ?n < 2 ^ 63"
    using assms(1,3) by (cases evs, auto simp: appended_def Let_def)+
  then have "unat (of_nat (Suc ?n) :: u64) = Suc ?n" "unat (of_nat (?n + length evs) :: u64) = ?n + length evs"
    by (simp_all only: unat_of_nat_u64)
  with assms(1,2) show ?thesis
    by (auto simp: appended_def key_of_def find_snoc Let_def simp del: of_nat_Suc of_nat_add
        split: option.splits)
qed

lemma appended_inv:
  assumes E: "codec_ok E" and inv: "store_inv E c" and k: "key_of c q k = None" and ne: "evs \<noteq> []"
    and app: "appended E q k evs c c'"
  shows "store_inv E c'"
  unfolding store_inv_def
proof (intro conjI allI impI)
  fix q'
  have "quote_rows c' q' = rows_from E q' 1 (log_of E c' q')"
    using store_inv_rows(1) [OF E inv]
    by (simp add: appended_log [OF E app] appended_rows [OF app] rows_from_append)
  moreover have "length (log_of E c' q') < 2 ^ 63"
    using store_inv_rows(2) [OF E inv] app
    by (simp add: appended_log [OF E app] appended_def Let_def)
  ultimately show "\<exists>evs. length evs < 2 ^ 63 \<and> quote_rows c' q' = rows_from E q' 1 evs" by blast
next
  fix q' k' f l
  assume kk: "key_of c' q' k' = Some (f, l)"
  have old: "1 \<le> f \<and> f \<le> l \<and> l \<le> length (log_of E c q')" if "key_of c q' k' = Some (f, l)"
    using inv that by (simp add: store_inv_def flip: length_quote_rows)
  have len: "length (quote_rows c' q') = length (log_of E c q') + (if q' = q then length evs else 0)"
    unfolding length_quote_rows [of c' q' E] appended_log [OF E app] by simp
  from kk ne old len show "1 \<le> f" and "f \<le> l" and "l \<le> length (quote_rows c' q')"
    by (cases "q' = q \<and> k' = k"; cases evs; force simp: appended_key [OF app k ne])+
qed

section \<open>The whole operation\<close>

lemma same_payloads_loop_eq:
  "codec_ok E \<Longrightarrow> length xs = length ys \<Longrightarrow>
   same_payloads_loop E (zip (stored_from q n xs) ys) = Inr (xs = ys)"
proof (induction xs arbitrary: n ys)
  case (Cons x xs)
  then show ?case
    by (cases ys) (auto simp: encode_quote_event_def codec_encode payload_of_inj)
qed simp

lemma same_command_payloads_eq:
  "codec_ok E \<Longrightarrow> same_command_payloads E (stored_from q n xs) ys = Inr (xs = ys)"
  by (auto simp: same_command_payloads_def same_payloads_loop_eq)

lemma key_of_find:
  assumes "key_of c q k = Some (f, l)"
  obtains r where "List.find (\<lambda>r. key_quote_id r = q \<and> key_client_command_id r = k) (idempotency_keys c) = Some r"
    and "unat (key_first_seq r) = f" and "unat (key_last_seq r) = l"
  using assms by (auto simp: key_of_def)

lemma store_inv_key:
  assumes "codec_ok E" and "store_inv E c" and "key_of c q k = Some (f, l)"
  shows "1 \<le> f \<and> f \<le> l \<and> l \<le> length (log_of E c q)"
  using assms by (simp add: store_inv_def flip: length_quote_rows)

lemma append_known_run:
  assumes E: "codec_ok E" and inv: "store_inv E c" and key: "key_of c q k = Some (f, l)"
    and run: "append_command_events E q k evs c = (r, c')"
  shows "same_tables c c' \<and> (healthy c \<longrightarrow> healthy c') \<and>
    (r = (if event_slice f l (log_of E c q) = evs then Inr (stored_from q f evs)
          else Inl (IdempotencyConflict q k)) \<or>
     \<not> healthy c \<and> (\<exists>e. r = Inl (Sqlite e)))"
proof -
  from key obtain row where row: "List.find (\<lambda>r. key_quote_id r = q \<and> key_client_command_id r = k)
      (idempotency_keys c) = Some row" "unat (key_first_seq row) = f" "unat (key_last_seq row) = l"
    by (rule key_of_find)
  have b: "1 \<le> f" "f < 2 ^ 63" "l < 2 ^ 63"
    using store_inv_key [OF E inv key] store_inv_rows(2) [OF E inv, of q] by auto
  show ?thesis
  proof (cases "outcome c = None \<and> outcome (advance c) = None")
    case True
    with run row b E inv show ?thesis
      by (auto simp: append_command_events_def st_bind_def lookup_run load_range_run st_lift_run
          st_return_run same_command_payloads_eq  event_slice_def same_tables_def healthy_advance_iff split: if_splits)
  next
    case False
    then have "\<not> healthy c" using not_healthy_outcome healthy_advance by fastforce
    moreover from False have "(\<exists>e. r = Inl (Sqlite e)) \<and> same_tables c c'"
      using run row b E inv
      by (cases "outcome c"; cases "outcome (advance c)")
        (auto simp: append_command_events_def st_bind_def lookup_run load_range_run same_tables_def)
    ultimately show ?thesis by blast
  qed
qed

lemma append_unknown_run:
  assumes key: "key_of c q k = None" and run: "append_command_events E q k evs c = (r, c')"
  shows "(\<not> healthy c \<and> (\<exists>e. r = Inl (Sqlite e)) \<and> same_tables c c') \<or>
    (if evs = [] then r = Inl EmptyAppend \<and> c' = advance c
     else outcome c = None \<and> append_new E q k evs (advance c) = (r, c'))"
  using assms not_healthy_outcome [of c]
  by (cases "outcome c")
    (auto simp: append_command_events_def st_bind_def lookup_run st_lift_run key_of_def)

lemma same_view_tables:
  "store_inv E c \<Longrightarrow> same_tables c c' \<Longrightarrow> same_view (store_inv E) (log_of E) key_of c c'"
  by (simp add: same_view_def tables_kept)

lemma append_fresh_run:
  assumes E: "codec_ok E" and inv: "store_inv E c" and key: "key_of c q k = None" and ne: "evs \<noteq> []"
    and room: "length evs = 1 \<or> length (log_of E c q) + length evs < 2 ^ 63"
    and run: "append_command_events E q k evs c = (r, c')"
  shows "(same_view (store_inv E) (log_of E) key_of c c' \<and> (\<exists>e. r = Inl (Sqlite e)) \<and>
       (healthy c \<longrightarrow> 2 ^ 63 \<le> length (log_of E c q) + length evs)) \<or>
    (grown_view (store_inv E) (log_of E) key_of q k evs c c' \<and> (healthy c \<longrightarrow> healthy c') \<and>
       r = Inr (stored_from q (Suc (length (log_of E c q))) evs))"
proof -
  let ?d = "advance c"
  have d: "store_inv E ?d" "key_of ?d q k = None" "same_tables c ?d"
    using inv key by (simp_all add: key_of_def)
  have d2: "appended E q k evs ?d c' = appended E q k evs c c'" by (simp add: appended_def)
  from append_unknown_run [OF key run] ne consider
      "\<not> healthy c" "\<exists>e. r = Inl (Sqlite e)" "same_tables c c'"
    | "append_new E q k evs ?d = (r, c')" "healthy c \<longrightarrow> healthy ?d"
    by auto
  then show ?thesis
  proof cases
    case 1
    with inv show ?thesis by (simp add: same_view_tables)
  next
    case 2
    from append_new_run [OF E d(1,2) ne _ 2(1)] room consider
        e where "r = Inl (Sqlite e)" "same_tables ?d c'" "healthy ?d \<longrightarrow> 2 ^ 63 \<le> length (log_of E c q) + length evs"
      | "r = Inr (stored_from q (Suc (length (log_of E c q))) evs)" "appended E q k evs c c'" "healthy ?d \<longrightarrow> healthy c'"
      unfolding d2 by auto
    then show ?thesis
    proof cases
      case 1
      with d(3) have "same_tables c c'" using same_tables_trans by blast
      with 1 2(2) inv show ?thesis by (simp add: same_view_tables)
    next
      case app: 2
      have "grown_view (store_inv E) (log_of E) key_of q k evs c c'"
        using appended_inv [OF E inv key ne app(2)] appended_log [OF E app(2)] appended_key [OF app(2) key ne]
        by (auto simp: grown_view_def fun_eq_iff)
      with app 2(2) show ?thesis by simp
    qed
  qed
qed

section \<open>The store provides the contract\<close>

definition db_inv :: "External \<Rightarrow> Connection \<Rightarrow> bool" where
  "db_inv E c \<longleftrightarrow> codec_ok E \<and> store_inv E c"

lemma db_inv_view:
  "codec_ok E \<Longrightarrow> same_view (db_inv E) lg ky c c' = same_view (store_inv E) lg ky c c'"
  "codec_ok E \<Longrightarrow> grown_view (db_inv E) lg' ky' q k evs c c' = grown_view (store_inv E) lg' ky' q k evs c c'"
  by (simp_all add: same_view_def grown_view_def db_inv_def)

lemma reads_as_outcome:
  assumes "m c = ((case outcome c of Some e \<Rightarrow> Inl (Sqlite e) | None \<Rightarrow> Inr v), advance c)"
    and "m c = (r, c')" and "db_inv E c"
  shows "same_view (db_inv E) (log_of E) key_of c c' \<and> (healthy c \<longrightarrow> healthy c') \<and> reads_as (healthy c) r v"
  using assms not_healthy_outcome [of c]
  by (cases "outcome c") (auto simp: same_view_def db_inv_def reads_as_def key_of_tables [of c "advance c"])

lemma lookup_view:
  "idempotency_lookup q k c =
    (case outcome c of
       Some e \<Rightarrow> Inl (Sqlite e)
     | None \<Rightarrow> Inr (map_option (\<lambda>(f, l). (of_nat f, of_nat l)) (key_of c q k)), advance c)"
  by (simp add: lookup_run key_of_def option.map_comp comp_def split: option.split)

text \<open>The laws of the contract, one by one\<close>

lemma bounds_law:
  assumes "db_inv E c"
  shows "length (log_of E c q) < 2 ^ 63"
    and "key_of c q k = Some (f, l) \<Longrightarrow> 1 \<le> f \<and> f \<le> l \<and> l \<le> length (log_of E c q)"
  using assms store_inv_rows(2) [of E c q] store_inv_key [of E c q k f l] by (auto simp: db_inv_def)

lemma load_law:
  assumes "db_inv E c" and "load_stored_events E q c = (r, c')"
  shows "same_view (db_inv E) (log_of E) key_of c c' \<and> (healthy c \<longrightarrow> healthy c') \<and>
    reads_as (healthy c) r (stored_from q 1 (log_of E c q))"
  using assms by (intro reads_as_outcome [OF load_stored_events_run]) (auto simp: db_inv_def)

lemma load_between_law:
  assumes "db_inv E c" and "unat u < 2 ^ 63" and "load_stored_events_between E q a u c = (r, c')"
  shows "same_view (db_inv E) (log_of E) key_of c c' \<and> (healthy c \<longrightarrow> healthy c') \<and>
    reads_as (healthy c) r (stored_from q (Suc (unat a)) (drop (unat a) (take (unat u) (log_of E c q))))"
proof (cases "unat u \<le> unat a")
  case True
  with load_between_run [of E c u q a] assms show ?thesis by (auto simp: same_view_def reads_as_def db_inv_def)
next
  case False
  with load_between_run [of E c u q a] assms show ?thesis by (intro reads_as_outcome) (simp_all add: db_inv_def)
qed

lemma lookup_law:
  assumes "db_inv E c" and "idempotency_lookup q k c = (hit, c')"
  shows "same_view (db_inv E) (log_of E) key_of c c' \<and> (healthy c \<longrightarrow> healthy c') \<and>
    reads_as (healthy c) hit (map_option (\<lambda>(f, l). (of_nat f, of_nat l)) (key_of c q k))"
  using assms by (intro reads_as_outcome [OF lookup_view])

lemma known_law:
  assumes "db_inv E c" and "key_of c q k = Some (f, l)" and "append_command_events E q k evs c = (r, c')"
  shows "same_view (db_inv E) (log_of E) key_of c c' \<and> (healthy c \<longrightarrow> healthy c') \<and>
    (r = (if event_slice f l (log_of E c q) = evs then Inr (stored_from q f evs)
          else Inl (IdempotencyConflict q k)) \<or> \<not> healthy c \<and> (\<exists>e. r = Inl (Sqlite e)))"
  using append_known_run [of E c q k f l evs r c'] same_view_tables assms by (simp add: db_inv_def db_inv_view)

lemma empty_law:
  assumes "db_inv E c" and "key_of c q k = None" and "append_command_events E q k [] c = (r, c')"
  shows "same_view (db_inv E) (log_of E) key_of c c' \<and> (healthy c \<longrightarrow> healthy c') \<and>
    (r = Inl EmptyAppend \<or> \<not> healthy c \<and> (\<exists>e. r = Inl (Sqlite e)))"
  using append_unknown_run [of c q k E "[]" r c'] same_view_tables assms by (auto simp: db_inv_def db_inv_view)

lemma fresh_law:
  assumes "db_inv E c" and "key_of c q k = None" and "evs \<noteq> []"
    and "length evs = 1 \<or> length (log_of E c q) + length evs < 2 ^ 63"
    and "append_command_events E q k evs c = (r, c')"
  shows "(same_view (db_inv E) (log_of E) key_of c c' \<and> (\<exists>e. r = Inl (Sqlite e)) \<and>
       (healthy c \<longrightarrow> 2 ^ 63 \<le> length (log_of E c q) + length evs)) \<or>
    (grown_view (db_inv E) (log_of E) key_of q k evs c c' \<and> (healthy c \<longrightarrow> healthy c') \<and>
       r = Inr (stored_from q (Suc (length (log_of E c q))) evs))"
  using append_fresh_run [of E c q k evs r c'] assms by (simp add: db_inv_def db_inv_view)

interpretation store: event_store "db_inv E" healthy "log_of E" key_of "load_stored_events E"
  "load_stored_events_between E" idempotency_lookup "append_command_events E" for E
  by unfold_locales (fact bounds_law load_law load_between_law lookup_law known_law empty_law fresh_law)+

lemma db_inv_fresh: "codec_ok E \<Longrightarrow> db_inv E (fresh_db os)"
  by (auto simp: db_inv_def store_inv_def fresh_db_def quote_rows_def key_of_def intro: exI [of _ "[]"])

end
