(* ===== verification/Ledger_Core.thy ===== *)
theory Ledger_Core
  imports Store_Append
begin

text \<open>
  The two database closures of \<open>src/ledger.rs\<close>: the one of \<open>append_one\<close>, which decides a
  command on the replayed state and appends its events, and the one of \<open>subscribe_quote\<close>, which
  reads the head, the view and the catch-up events.  They take the store's operations as
  arguments, and their lemmas are proved from the contract of \<open>Event_Store\<close> alone.
\<close>

section \<open>The closures\<close>

definition saturating_sub :: "u64 \<Rightarrow> u64 \<Rightarrow> u64" where
  "saturating_sub a b = (if unat a < unat b then 0 else a - b)"

definition append_one_closure ::
  "(rstring \<Rightarrow> ('c, StoreError, StoredEvent list) comp) \<Rightarrow>
   (rstring \<Rightarrow> u64 \<Rightarrow> u64 \<Rightarrow> ('c, StoreError, StoredEvent list) comp) \<Rightarrow>
   (rstring \<Rightarrow> rstring \<Rightarrow> ('c, StoreError, (u64 \<times> u64) option) comp) \<Rightarrow>
   (rstring \<Rightarrow> rstring \<Rightarrow> QuoteEvent list \<Rightarrow> ('c, StoreError, StoredEvent list) comp) \<Rightarrow>
   rstring \<Rightarrow> rstring \<Rightarrow> DomainCommand \<Rightarrow> ('c, StoreError, StoredEvent list) comp" where
  "append_one_closure load_all load_between lookup append_events q k cmd =
     st_bind (lookup q k) (\<lambda>hit.
       case hit of
         Some (first_seq, _) \<Rightarrow>
           st_bind (load_between q 0 (saturating_sub first_seq 1)) (\<lambda>before.
           st_bind (st_lift (replay_stored_to_state before)) (\<lambda>state_before.
           st_bind (st_lift (map_err DomainErr (command_to_events state_before cmd))) (\<lambda>evs.
             append_events q k (List.map domain_event_to_proto evs))))
       | None \<Rightarrow>
           st_bind (load_all q) (\<lambda>all.
           st_bind (st_lift (replay_stored_to_state all)) (\<lambda>state.
           st_bind (st_lift (map_err DomainErr (command_to_events state cmd))) (\<lambda>evs.
             append_events q k (List.map domain_event_to_proto evs)))))"

record SubscribeInit =
  init_last_seq :: u64
  init_view :: QuoteView
  init_catchup :: "StoredEvent list"

definition subscribe_closure ::
  "(rstring \<Rightarrow> ('c, StoreError, StoredEvent list) comp) \<Rightarrow>
   (rstring \<Rightarrow> u64 \<Rightarrow> u64 \<Rightarrow> ('c, StoreError, StoredEvent list) comp) \<Rightarrow>
   rstring \<Rightarrow> u64 \<Rightarrow> ('c, StoreError, SubscribeInit) comp" where
  "subscribe_closure load_all load_between q after =
     st_bind (load_all q) (\<lambda>all.
       let final = (if all = [] then 0 else seq (last all)) in
       if unat final < unat after then st_lift (Inl (InvalidAfterSeq after final))
       else
         st_bind (st_lift (replay_stored_to_state all)) (\<lambda>state.
         st_bind (st_lift (map_err DomainErr (quote_state_to_view q state))) (\<lambda>v.
         st_bind (if unat after < unat final then load_between q after final else st_return [])
           (\<lambda>catchup.
             st_return \<lparr>init_last_seq = final, init_view = v, init_catchup = catchup\<rparr>))))"

section \<open>The abstract specification of an append\<close>

text \<open>What a command is answered with on the history \<open>es\<close> of its quote.\<close>

definition decide_on :: "DomainEvent list \<Rightarrow> DomainCommand \<Rightarrow> StoreError + DomainEvent list" where
  "decide_on es cmd = map_err DomainErr (and_then (replay es) (\<lambda>s. command_to_events s cmd))"

text \<open>
  The number of the first event and the events an append answers with: a recorded key repeats
  the decision on the history before its range and compares, a new key decides on the history.
\<close>

definition append_spec ::
  "DomainEvent list \<Rightarrow> (nat \<times> nat) option \<Rightarrow> rstring \<Rightarrow> rstring \<Rightarrow> DomainCommand \<Rightarrow>
   StoreError + nat \<times> DomainEvent list" where
  "append_spec es hit q k cmd =
     (case hit of
        Some (f, l) \<Rightarrow>
          and_then (decide_on (take (f - 1) es) cmd) (\<lambda>new.
            if event_slice f l es = new then Inr (f, new) else Inl (IdempotencyConflict q k))
      | None \<Rightarrow> and_then (decide_on es cmd) (\<lambda>new. Inr (Suc (length es), new)))"

text \<open>
  What an append may answer: an SQLite error, which a healthy database gives for a new key at the
  end of the number range only, or what the specification says.
\<close>

definition append_outcome ::
  "bool \<Rightarrow> (DomainEvent list \<Rightarrow> bool) \<Rightarrow> bool \<Rightarrow> bool \<Rightarrow> DomainEvent list \<Rightarrow> (nat \<times> nat) option \<Rightarrow> rstring \<Rightarrow> rstring \<Rightarrow>
   DomainCommand \<Rightarrow> StoreError + StoredEvent list \<Rightarrow> bool" where
  "append_outcome same grown before after es hit q k cmd r \<longleftrightarrow>
     (\<exists>e. r = Inl (Sqlite e)) \<and> same \<and> (before \<longrightarrow> hit = None \<and> 2 ^ 63 \<le> Suc (length es)) \<or>
     (before \<longrightarrow> after) \<and>
     (case append_spec es hit q k cmd of
        Inl x \<Rightarrow> r = Inl x \<and> same
      | Inr (n, new) \<Rightarrow>
          r = Inr (stored_from q n (List.map domain_event_to_proto new)) \<and>
          (if hit = None then grown new else same))"

lemma append_outcome_mono:
  assumes "append_outcome same grown before after es hit q k cmd r" and "same \<Longrightarrow> same'" and "before' \<Longrightarrow> before"
    and "\<And>n new. hit = None \<Longrightarrow> append_spec es None q k cmd = Inr (n, new) \<Longrightarrow> grown new \<Longrightarrow> grown' new"
  shows "append_outcome same' grown' before' after es hit q k cmd r"
  using assms unfolding append_outcome_def by (cases "append_spec es hit q k cmd") (auto split: if_splits)

text \<open>A history is good when it replays to a state that satisfies the invariant.\<close>

definition good_history :: "DomainEvent list \<Rightarrow> bool" where
  "good_history es \<longleftrightarrow> (\<exists>s. replay es = Inr s \<and> quote_inv s)"

definition holds_history :: "QuoteEvent list \<Rightarrow> DomainEvent list \<Rightarrow> bool" where
  "holds_history lg es \<longleftrightarrow> lg = List.map domain_event_to_proto es \<and> good_history es"

lemma good_history_Nil: "good_history []"
  by (simp add: good_history_def replay_def quote_inv_default)

lemma decide_on_single: "good_history es \<Longrightarrow> decide_on es cmd = Inr new \<Longrightarrow> \<exists>ev. new = [ev]"
proof -
  assume "good_history es" "decide_on es cmd = Inr new"
  then obtain s where "quote_inv s" "command_to_events s cmd = Inr new"
    by (auto simp: decide_on_def good_history_def map_err_eq_Inr)
  from command_event_applies [OF this] show ?thesis by blast
qed

lemma good_history_append: "good_history es \<Longrightarrow> decide_on es cmd = Inr new \<Longrightarrow> good_history (es @ new)"
  using quote.history_extends by (auto simp: decide_on_def good_history_def replay_def result_simps)

lemma stored_from_holds:
  "list_all2 (\<lambda>st ev. event st = Some (domain_event_to_proto ev))
     (stored_from q n (List.map domain_event_to_proto es)) es"
  by (induction es arbitrary: n) simp_all

lemma replay_stored_from:
  "replay_stored_to_state (stored_from q n (List.map domain_event_to_proto es)) = map_err DomainErr (replay es)"
  by (rule replay_stored_replay [OF stored_from_holds])

lemma map_proto_eq [simp]:
  "List.map domain_event_to_proto xs = List.map domain_event_to_proto ys \<longleftrightarrow> xs = ys"
  by (auto intro: map_injective simp: inj_def)

lemma event_slice_map: "event_slice f l (List.map g xs) = List.map g (event_slice f l xs)"
  by (simp add: event_slice_def drop_map take_map)

lemma saturating_sub_one: "1 \<le> f \<Longrightarrow> f < 2 ^ 63 \<Longrightarrow> unat (saturating_sub (of_nat f) 1) = f - 1"
proof -
  assume f: "1 \<le> f" "f < 2 ^ 63"
  have u: "unat (of_nat n :: u64) = n" if "n < 2 ^ 63" for n
    using that by (simp add: unat_of_nat take_bit_nat_eq_self)
  have "saturating_sub (of_nat f) 1 = of_nat (f - 1)"
    using f u [of f] by (simp add: saturating_sub_def of_nat_diff)
  then show ?thesis using f u [of "f - 1"] by simp
qed

section \<open>The closures under the contract\<close>

lemma st_bind_reads:
  assumes "st_bind m f c = (r, c')" and "m c = (r1, c1)" and "reads_as ok r1 v"
  obtains (sqlite) e where "r = Inl (Sqlite e)" and "\<not> ok" and "c' = c1"
    | (loaded) "f v c1 = (r, c')"
  using assms by (auto simp: reads_as_def st_bind_def)

lemma st_bind_lift: "st_bind (st_lift x) f c = (case x of Inl e \<Rightarrow> (Inl e, c) | Inr a \<Rightarrow> f a c)"
  by (simp add: st_bind_def st_lift_def split: sum.split)

context event_reader
begin

lemmas same = same_view_def

text \<open>The common tail of both branches of the append closure, on a loaded history.\<close>

lemma decide_stage:
  "st_bind (st_lift (replay_stored_to_state (stored_from q n (List.map domain_event_to_proto es)))) (\<lambda>state.
   st_bind (st_lift (map_err DomainErr (command_to_events state cmd))) f) c =
   (case decide_on es cmd of Inl e \<Rightarrow> (Inl e, c) | Inr new \<Rightarrow> f new c)"
  unfolding replay_stored_from decide_on_def st_bind_lift
  by (cases "replay es") (simp_all split: sum.split)

text \<open>The catch-up read, when the subscriber is behind\<close>

lemma catchup_ok:
  assumes inv: "inv c" and lg: "holds_history (log c q) es"
    and run: "st_bind (if unat after < length es then load_between q after (of_nat (length es)) else st_return []) f c = (r, c')"
    and f: "\<And>evs. f evs = st_return (g evs)"
  shows "same_view inv log key c c' \<and> (healthy c \<longrightarrow> healthy c') \<and>
    reads_as (healthy c) r (g (stored_from q (Suc (unat after)) (List.map domain_event_to_proto (drop (unat after) es))))"
proof (cases "unat after < length es")
  case False
  with inv run f show ?thesis by (simp add: st_bind_def st_return_run same reads_as_def)
next
  case True
  have len: "length es < 2 ^ 63" using log_bound [OF inv, of q] lg by (simp add: holds_history_def)
  then have n: "unat (of_nat (length es) :: u64) = length es" by (simp add: unat_of_nat take_bit_nat_eq_self)
  obtain r2 c2 where b: "load_between q after (of_nat (length es)) c = (r2, c2)" by fastforce
  from load_between [OF inv _ b] len have B: "same_view inv log key c c2" "healthy c \<longrightarrow> healthy c2"
    "reads_as (healthy c) r2 (stored_from q (Suc (unat after)) (List.map domain_event_to_proto (drop (unat after) es)))"
    using lg by (simp_all add: n holds_history_def drop_map)
  with run b True f show ?thesis by (auto simp: st_bind_def st_return_run reads_as_def)
qed

lemma subscribe_ok:
  assumes inv: "inv c" and lg: "holds_history (log c q) es"
    and run: "subscribe_closure load_all load_between q after c = (r, c')"
  shows "same_view inv log key c c' \<and> (healthy c \<longrightarrow> healthy c') \<and>
    ((\<not> healthy c \<and> (\<exists>e. r = Inl (Sqlite e))) \<or>
     (if length es < unat after then r = Inl (InvalidAfterSeq after (of_nat (length es)))
      else \<exists>s v. replay es = Inr s \<and> quote_inv s \<and> quote_state_to_view q s = Inr v \<and>
        r = Inr \<lparr>init_last_seq = of_nat (length es), init_view = v,
          init_catchup = stored_from q (Suc (unat after))
            (List.map domain_event_to_proto (drop (unat after) es))\<rparr>))"
proof -
  obtain r1 c1 where l: "load_all q c = (r1, c1)" by fastforce
  note L = load_all [OF inv l]
  then have c1: "inv c1" "log c1 = log c" "key c1 = key c" by (auto simp: same)
  have lg1: "holds_history (log c1 q) es" using lg by (simp add: c1)
  have len: "length (log c q) = length es" using lg by (auto simp: holds_history_def)
  have n: "unat (of_nat (length es) :: u64) = length es"
    using log_bound [OF inv, of q] len by (simp add: unat_of_nat take_bit_nat_eq_self)
  have final: "(if stored_from q 1 (log c q) = [] then 0 else seq (last (stored_from q 1 (log c q)))) = of_nat (length es)"
    using len by (cases "log c q = []") (simp_all add: seq_last_stored_from)
  obtain s where s: "replay es = Inr s" "quote_inv s"
    using lg by (auto simp: holds_history_def good_history_def)
  obtain v where v: "quote_state_to_view q s = Inr v" using view_ok [OF s(2)] by blast
  have st: "replay_stored_to_state (stored_from q 1 (log c q)) = Inr s"
    using lg s(1) by (simp add: holds_history_def replay_stored_from)
  from run [unfolded subscribe_closure_def] l conjunct2 [OF conjunct2 [OF L]] show ?thesis
  proof (cases rule: st_bind_reads)
    case (sqlite e)
    with L show ?thesis by simp
  next
    case loaded
    note run2 = loaded [unfolded Let_def final n st st_bind_lift sum.case v map_err_simps]
    show ?thesis
    proof (cases "length es < unat after")
      case True
      with run2 L show ?thesis by (simp add: st_lift_run)
    next
      case False
      with catchup_ok [OF c1(1) lg1 run2 [simplified False if_False] refl] L s v show ?thesis
        by (auto simp: same reads_as_def)
    qed
  qed
qed

end

context event_store
begin

abbreviation "answers q k cmd es c r c' \<equiv>
  append_outcome (same_view inv log key c c') (\<lambda>new. grown_view inv log key q k (List.map domain_event_to_proto new) c c')
    (healthy c) (healthy c') es (key c q k) q k cmd r"

lemma outcome_from:
  assumes "same_view inv log key c c1" and "healthy c \<longrightarrow> healthy c1" and "answers q k cmd es c1 r c'"
  shows "answers q k cmd es c r c'"
proof -
  have "key c1 = key c" using assms(1) by (simp add: same)
  with append_outcome_mono [OF assms(3), where same' = "same_view inv log key c c'" and before' = "healthy c"
      and grown' = "\<lambda>new. grown_view inv log key q k (List.map domain_event_to_proto new) c c'"] assms(1,2)
  show ?thesis by (simp add: same grown_view_def)
qed

text \<open>Both branches of the append closure load a history, decide on it and append.\<close>

lemma loaded_branch:
  assumes L: "m c = (r2, c2)" "same_view inv log key c c2" "healthy c \<longrightarrow> healthy c2"
      "reads_as (healthy c) r2 (stored_from q 1 (List.map domain_event_to_proto es0))"
    and run: "st_bind m (\<lambda>all.
      st_bind (st_lift (replay_stored_to_state all)) (\<lambda>state.
      st_bind (st_lift (map_err DomainErr (command_to_events state cmd))) (\<lambda>evs.
        append q k (List.map domain_event_to_proto evs)))) c = (r, c')"
    and refuses: "\<And>x. decide_on es0 cmd = Inl x \<Longrightarrow> append_spec es (key c q k) q k cmd = Inl x"
    and appends: "\<And>new. decide_on es0 cmd = Inr new \<Longrightarrow> append q k (List.map domain_event_to_proto new) c2 = (r, c') \<Longrightarrow>
      answers q k cmd es c2 r c'"
  shows "answers q k cmd es c r c'"
  using run L(1,4)
proof (cases rule: st_bind_reads)
  case (sqlite e)
  with L(2) show ?thesis by (simp add: append_outcome_def)
next
  case loaded
  note run2 = loaded [unfolded decide_stage]
  show ?thesis
  proof (cases "decide_on es0 cmd")
    case (Inl x)
    with run2 refuses [OF Inl] L(2,3) show ?thesis by (simp add: append_outcome_def)
  next
    case (Inr new)
    with run2 appends [OF Inr] outcome_from [OF L(2,3)] show ?thesis by simp
  qed
qed

lemma fresh_branch:
  assumes inv: "inv c" and lg: "holds_history (log c q) es" and None: "key c q k = None"
    and run: "st_bind (load_all q) (\<lambda>all.
      st_bind (st_lift (replay_stored_to_state all)) (\<lambda>state.
      st_bind (st_lift (map_err DomainErr (command_to_events state cmd))) (\<lambda>evs.
        append q k (List.map domain_event_to_proto evs)))) c = (r, c')"
  shows "answers q k cmd es c r c'"
proof -
  have lges: "log c q = List.map domain_event_to_proto es" "good_history es"
    using lg by (auto simp: holds_history_def)
  obtain r2 c2 where l: "load_all q c = (r2, c2)" by fastforce
  note L = load_all [OF inv l]
  then have c2: "inv c2" "log c2 = log c" "key c2 = key c" by (auto simp: same)
  from L have L': "same_view inv log key c c2" "healthy c \<longrightarrow> healthy c2"
    "reads_as (healthy c) r2 (stored_from q 1 (List.map domain_event_to_proto es))"
    by (simp_all add: lges(1))
  show ?thesis
  proof (rule loaded_branch [OF l L' run])
    fix new
    assume new: "decide_on es cmd = Inr new" and run3: "append q k (List.map domain_event_to_proto new) c2 = (r, c')"
    with decide_on_single [OF lges(2)] obtain ev where ev: "new = [ev]" by blast
    from append_fresh [OF c2(1), of q k "List.map domain_event_to_proto new" r c'] run3 None new
    show "answers q k cmd es c2 r c'" by (auto simp: append_outcome_def append_spec_def c2 lges(1) ev)
  qed (simp add: append_spec_def None)
qed

lemma known_branch:
  assumes inv: "inv c" and lg: "holds_history (log c q) es" and fl: "key c q k = Some (f, l)"
    and run: "st_bind (load_between q 0 (saturating_sub (of_nat f) 1)) (\<lambda>all.
      st_bind (st_lift (replay_stored_to_state all)) (\<lambda>state.
      st_bind (st_lift (map_err DomainErr (command_to_events state cmd))) (\<lambda>evs.
        append q k (List.map domain_event_to_proto evs)))) c = (r, c')"
  shows "answers q k cmd es c r c'"
proof -
  have lges: "log c q = List.map domain_event_to_proto es" using lg by (simp add: holds_history_def)
  have rng: "1 \<le> f" "f < 2 ^ 63" using key_range [OF inv fl] log_bound [OF inv, of q] by auto
  then have u: "unat (saturating_sub (of_nat f) 1) = f - 1" by (rule saturating_sub_one)
  with rng have small: "unat (saturating_sub (of_nat f) 1) < 2 ^ 63" by simp
  obtain r2 c2 where b: "load_between q 0 (saturating_sub (of_nat f) 1) c = (r2, c2)" by fastforce
  note B = load_between [OF inv small b]
  then have c2: "inv c2" "log c2 = log c" "key c2 = key c" by (auto simp: same)
  from B have B': "same_view inv log key c c2" "healthy c \<longrightarrow> healthy c2"
    "reads_as (healthy c) r2 (stored_from q 1 (List.map domain_event_to_proto (take (f - 1) es)))"
    by (simp_all add: lges u take_map)
  show ?thesis
  proof (rule loaded_branch [OF b B' run])
    fix new
    assume "decide_on (take (f - 1) es) cmd = Inr new" "append q k (List.map domain_event_to_proto new) c2 = (r, c')"
    with append_known [OF c2(1), of q k f l "List.map domain_event_to_proto new" r c'] fl
    show "answers q k cmd es c2 r c'"
      by (auto simp: append_outcome_def append_spec_def c2 lges event_slice_map)
  qed (simp add: append_spec_def fl)
qed

lemma append_one_ok:
  assumes inv: "inv c" and lg: "holds_history (log c q) es"
    and run: "append_one_closure load_all load_between lookup append q k cmd c = (r, c')"
  shows "answers q k cmd es c r c'"
proof -
  obtain hit c1 where lk: "lookup q k c = (hit, c1)" by fastforce
  note K = lookup [OF inv lk]
  then have c1: "inv c1" "log c1 = log c" "key c1 = key c" by (auto simp: same)
  have lg1: "holds_history (log c1 q) es" using lg by (simp add: c1)
  note from_c1 = outcome_from [OF conjunct1 [OF K] conjunct1 [OF conjunct2 [OF K]]]
  from run [unfolded append_one_closure_def] lk conjunct2 [OF conjunct2 [OF K]] show ?thesis
  proof (cases rule: st_bind_reads)
    case (sqlite e)
    with K show ?thesis by (simp add: append_outcome_def)
  next
    case loaded
    show ?thesis
    proof (cases "key c q k")
      case None
      note run1 = loaded [unfolded None option.map option.case]
      show ?thesis by (rule from_c1 [OF fresh_branch [OF c1(1) lg1 None [folded c1(3)] run1]])
    next
      case (Some fl)
      obtain f l where fl: "key c q k = Some (f, l)" using Some by (cases fl) auto
      note run1 = loaded [unfolded fl option.map option.case prod.case]
      show ?thesis by (rule from_c1 [OF known_branch [OF c1(1) lg1 fl [folded c1(3)] run1]])
    qed
  qed
qed

end

end
