(* ===== verification/Sample_Codec.thy ===== *)
theory Sample_Codec
  imports Store_Append
begin

text \<open>
  A concrete encoder and decoder of \<open>QuoteEvent\<close>, used by the witnesses only: it shows that the
  hypothesis \<open>codec_ok\<close>, which the generated protobuf code is documented to satisfy, can hold.
  A string is a list of marked bytes closed by a zero, an integer its 64 bits.
\<close>

definition put_string :: "rstring \<Rightarrow> bytes" where
  "put_string s = concat (List.map (\<lambda>c. [1, of_nat (of_char c)]) s) @ [0]"

fun get_string :: "bytes \<Rightarrow> (rstring \<times> bytes) option" where
  "get_string [] = None"
| "get_string [m] = (if m = 0 then Some ([], []) else None)"
| "get_string (m # b # bs) =
     (if m = 0 then Some ([], b # bs)
      else map_option (\<lambda>(s, r). (char_of (unat b) # s, r)) (get_string bs))"

definition put_i64 :: "i64 \<Rightarrow> bytes" where
  "put_i64 w = List.map (\<lambda>i. if bit w i then 1 else 0) [0..<64]"

definition get_i64 :: "bytes \<Rightarrow> (i64 \<times> bytes) option" where
  "get_i64 bs = (if length bs < 64 then None
     else Some (horner_sum of_bool 2 (List.map (\<lambda>b. b \<noteq> 0) (take 64 bs)), drop 64 bs))"

definition put_event :: "QuoteEvent \<Rightarrow> rstring + bytes" where
  "put_event ev = Inr
     (case event_kind ev of
        None \<Rightarrow> [0]
      | Some (EvKind_QuoteCreated cc jid) \<Rightarrow> 1 # put_string cc @ put_string jid
      | Some (EvKind_LineItemAdded lid sk desc qty unit) \<Rightarrow>
          2 # put_string lid @ put_string sk @ put_string desc @ put_i64 qty @ put_i64 unit
      | Some EvKind_QuoteFinalized \<Rightarrow> [3])"

definition get_kind :: "bytes \<Rightarrow> EvKind option option" where
  "get_kind bs =
     (case bs of
        [] \<Rightarrow> None
      | t # r \<Rightarrow>
          if t = 0 then Some None
          else if t = 1 then
            Option.bind (get_string r) (\<lambda>(cc, r).
            Option.bind (get_string r) (\<lambda>(jid, r). Some (Some (EvKind_QuoteCreated cc jid))))
          else if t = 2 then
            Option.bind (get_string r) (\<lambda>(lid, r).
            Option.bind (get_string r) (\<lambda>(sk, r).
            Option.bind (get_string r) (\<lambda>(desc, r).
            Option.bind (get_i64 r) (\<lambda>(qty, r).
            Option.bind (get_i64 r) (\<lambda>(unit, r). Some (Some (EvKind_LineItemAdded lid sk desc qty unit)))))))
          else Some (Some EvKind_QuoteFinalized))"

definition get_event :: "bytes \<Rightarrow> rstring + QuoteEvent" where
  "get_event bs = (case get_kind bs of None \<Rightarrow> Inl ''truncated'' | Some k \<Rightarrow> Inr \<lparr>event_kind = k\<rparr>)"

definition sample_external :: External where
  "sample_external = \<lparr>encode_event = put_event, decode_event = get_event,
     text_primary_key = ''UNIQUE constraint failed'', text_not_integer = ''Invalid column type''\<rparr>"

lemma of_char_bound: "(of_char c :: nat) < 256"
  by simp

lemma get_put_string: "get_string (put_string s @ r) = Some (s, r)"
proof (induction s)
  case (Cons c s)
  have "unat (of_nat (of_char c) :: 8 word) = of_char c"
    using of_char_bound [of c] by (simp add: unat_of_nat take_bit_nat_eq_self)
  with Cons show ?case by (simp add: put_string_def)
next
  case Nil
  show ?case by (cases r) (simp_all add: put_string_def)
qed

lemma get_put_i64: "get_i64 (put_i64 w @ r) = Some (w, r)"
proof -
  have "horner_sum of_bool 2 (List.map (bit w) [0..<64]) = w"
    unfolding horner_sum_bit_eq_take_bit
    by (rule bit_eqI) (simp add: bit_take_bit_iff)
  moreover have "List.map (\<lambda>b. b \<noteq> (0 :: 8 word)) (put_i64 w) = List.map (bit w) [0..<64]"
    by (simp add: put_i64_def)
  moreover have "length (put_i64 w) = 64" by (simp add: put_i64_def)
  ultimately show ?thesis by (simp add: get_i64_def)
qed

lemma get_put_i64_end: "get_i64 (put_i64 w) = Some (w, [])"
  using get_put_i64 [of w "[]"] by simp

lemma get_put_string_end: "get_string (put_string s) = Some (s, [])"
  using get_put_string [of s "[]"] by simp

lemma sample_codec_ok: "codec_ok sample_external"
  unfolding codec_ok_def
proof
  fix ev :: QuoteEvent
  have "get_event (projr (put_event ev)) = Inr ev"
    by (cases ev)
      (auto simp: put_event_def get_event_def get_kind_def get_put_string get_put_i64
        get_put_i64_end get_put_string_end split: option.splits EvKind.splits)
  then show "\<exists>b. encode_event sample_external ev = Inr b \<and> decode_event sample_external b = Inr ev"
    by (simp add: sample_external_def put_event_def)
qed

end
