(* ===== verification/Ledger_Store.thy ===== *)
theory Ledger_Store
  imports Ledger_Core Sample_Codec
begin

text \<open>
  The two closures of the ledger run on the store's own operations: which statements write,
  what an error leaves behind, and the histories a sequence of appends builds.
\<close>

section \<open>The closures on the connection\<close>

definition append_one_db :: "External \<Rightarrow> rstring \<Rightarrow> rstring \<Rightarrow> DomainCommand \<Rightarrow> StoredEvent list db" where
  "append_one_db E q k cmd =
     append_one_closure (load_stored_events E) (load_stored_events_between E) idempotency_lookup
       (append_command_events E) q k cmd"

definition subscribe_db :: "External \<Rightarrow> rstring \<Rightarrow> u64 \<Rightarrow> SubscribeInit db" where
  "subscribe_db E q after = subscribe_closure (load_stored_events E) (load_stored_events_between E) q after"

text \<open>A sequence of appends, each by its quote, its client command id and its command.\<close>

fun run_appends :: "External \<Rightarrow> (rstring \<times> rstring \<times> DomainCommand) list \<Rightarrow> Connection \<Rightarrow> Connection" where
  "run_appends E [] c = c"
| "run_appends E ((q, k, cmd) # reqs) c = run_appends E reqs (snd (append_one_db E q k cmd c))"

section \<open>Which computations write\<close>

definition reads_only :: "'a db \<Rightarrow> bool" where
  "reads_only m \<longleftrightarrow> (\<forall>c. same_tables c (snd (m c)))"

definition keeps_on_error :: "'a db \<Rightarrow> bool" where
  "keeps_on_error m \<longleftrightarrow> (\<forall>c. isl (fst (m c)) \<longrightarrow> same_tables c (snd (m c)))"

definition table_prefix :: "Connection \<Rightarrow> Connection \<Rightarrow> bool" where
  "table_prefix c c' \<longleftrightarrow> prefix (events c) (events c') \<and> prefix (idempotency_keys c) (idempotency_keys c')"

definition appends_only :: "'a db \<Rightarrow> bool" where
  "appends_only m \<longleftrightarrow> (\<forall>c. table_prefix c (snd (m c)))"

named_theorems writes \<open>which computations write\<close>

lemma table_prefix_same [simp]: "same_tables c c' \<Longrightarrow> table_prefix c c'"
  by (simp add: same_tables_def table_prefix_def)

lemma table_prefix_refl [simp]: "table_prefix c c"
  by simp

lemma table_prefix_trans [trans]: "table_prefix a b \<Longrightarrow> table_prefix b c \<Longrightarrow> table_prefix a c"
  by (auto simp: table_prefix_def)

lemma reads_only_lift [writes]: "reads_only (st_lift r)" "reads_only (st_return a)"
  by (simp_all add: reads_only_def st_lift_run st_return_run)

lemma reads_only_query [writes]: "reads_only (sql_query f)"
  by (simp add: reads_only_def sql_query_run)

lemma reads_only_sql [writes]: "(\<And>c a c'. f c = Inr (a, c') \<Longrightarrow> c' = c) \<Longrightarrow> reads_only (sql f)"
  unfolding reads_only_def sql_def
  by (auto split: option.split sum.split) (metis same_tables_advance)

lemma reads_only_bind [writes]: "reads_only m \<Longrightarrow> (\<And>a. reads_only (f a)) \<Longrightarrow> reads_only (st_bind m f)"
  unfolding reads_only_def st_bind_def
  by (auto split: prod.split sum.split) (metis same_tables_trans snd_conv)+

lemma keeps_on_error_reads: "reads_only m \<Longrightarrow> keeps_on_error m"
  by (simp add: reads_only_def keeps_on_error_def)

lemma keeps_on_error_bind [writes]:
  assumes "reads_only m" and "\<And>a. keeps_on_error (f a)"
  shows "keeps_on_error (st_bind m f)"
  unfolding keeps_on_error_def
proof (intro allI impI)
  fix c
  assume err: "isl (fst (st_bind m f c))"
  obtain r c1 where m: "m c = (r, c1)" by fastforce
  with assms(1) have c1: "same_tables c c1" unfolding reads_only_def by (metis snd_conv)
  show "same_tables c (snd (st_bind m f c))"
  proof (cases r)
    case (Inr a)
    with err m assms(2) have "same_tables c1 (snd (f a c1))"
      by (simp add: st_bind_def keeps_on_error_def)
    with c1 m Inr show ?thesis using same_tables_trans by (simp add: st_bind_def)
  qed (simp add: st_bind_def m c1)
qed

lemma keeps_on_error_transaction [writes]: "keeps_on_error (transaction b)"
  unfolding keeps_on_error_def
  by (metis isl_def prod.collapse transaction_atomic)

lemma appends_only_reads: "reads_only m \<Longrightarrow> appends_only m"
  by (simp add: reads_only_def appends_only_def)

lemma appends_only_bind [writes]:
  assumes "appends_only m" and "\<And>a. appends_only (f a)"
  shows "appends_only (st_bind m f)"
  unfolding appends_only_def
proof
  fix c
  obtain r c1 where m: "m c = (r, c1)" by fastforce
  with assms(1) have c1: "table_prefix c c1" unfolding appends_only_def by (metis snd_conv)
  show "table_prefix c (snd (st_bind m f c))"
  proof (cases r)
    case (Inr a)
    have "table_prefix c1 (snd (f a c1))" using assms(2) by (simp add: appends_only_def)
    with c1 m Inr show ?thesis using table_prefix_trans by (simp add: st_bind_def)
  qed (simp add: st_bind_def m c1)
qed

lemma appends_only_insert [writes]: "appends_only (insert_event E r)" "appends_only (insert_key E k)"
  by (auto simp: appends_only_def insert_event_def insert_key_def sql_def table_prefix_def split: option.split)

lemma appends_only_transaction [writes]:
  assumes "appends_only b"
  shows "appends_only (transaction b)"
  unfolding appends_only_def
proof
  fix c
  obtain r c' where t: "transaction b c = (r, c')" by fastforce
  then have "table_prefix c c'"
  proof (cases rule: transaction_cases)
    case (ran c1 r1 c2)
    with assms have "table_prefix c1 c2" unfolding appends_only_def by (metis snd_conv)
    with ran show ?thesis by (auto simp: table_prefix_def same_tables_def)
  qed simp
  with t show "table_prefix c (snd (transaction b c))" by simp
qed

lemma reads_only_store [writes]:
  "reads_only (load_stored_events E q)" "reads_only (idempotency_lookup q k)"
  "reads_only (load_events_in_seq_range E q f l)" "reads_only (load_stored_events_between E q a u)"
  "reads_only (next_seq_query E q)"
  by (auto simp: load_stored_events_def idempotency_lookup_def load_events_in_seq_range_def
      load_stored_events_between_def next_seq_query_def intro!: writes split: option.splits)

lemmas read_leaves [writes] =
  reads_only_lift [THEN keeps_on_error_reads] reads_only_lift [THEN appends_only_reads]
  reads_only_store [THEN keeps_on_error_reads] reads_only_store [THEN appends_only_reads]

lemma appends_only_loop [writes]: "appends_only (append_loop E q n st evs)"
  by (induction evs arbitrary: n st) (auto intro!: writes)

lemma append_events_writes [writes]:
  "keeps_on_error (append_command_events E q k evs)" "appends_only (append_command_events E q k evs)"
  by (auto simp: append_command_events_def append_new_def intro!: writes
      split: option.split)

lemma append_one_writes [writes]:
  "keeps_on_error (append_one_db E q k cmd)" "appends_only (append_one_db E q k cmd)"
  by (auto simp: append_one_db_def append_one_closure_def intro!: writes
      split: option.split)

lemma subscribe_reads [writes]: "reads_only (subscribe_db E q after)"
  by (auto simp: subscribe_db_def subscribe_closure_def Let_def intro!: writes)

end
