(* ===== verification/Ledger_History.thy ===== *)
theory Ledger_History
  imports Ledger_Store
begin

text \<open>
  The histories that appends build: the domain events each quote's log holds, the invariant
  that every history replays to a good state, and the refinement of the append closure by the
  abstract specification \<open>append_spec\<close>.  From it follow the retry semantics of the service.
\<close>

section \<open>The domain view of a connection\<close>

definition event_of_proto :: "QuoteEvent \<Rightarrow> DomainEvent" where
  "event_of_proto ev =
     projr (stored_event_to_domain_event_store \<lparr>seq = 0, quote_id = '''', event = Some ev\<rparr>)"

definition history_of :: "External \<Rightarrow> Connection \<Rightarrow> rstring \<Rightarrow> DomainEvent list" where
  "history_of E c q = List.map event_of_proto (log_of E c q)"

definition ledger_inv :: "External \<Rightarrow> Connection \<Rightarrow> bool" where
  "ledger_inv E c \<longleftrightarrow> db_inv E c \<and> (\<forall>q. holds_history (log_of E c q) (history_of E c q))"

lemma event_of_proto_inverse [simp]: "event_of_proto (domain_event_to_proto ev) = ev"
  by (simp add: event_of_proto_def)

lemma holds_history_unique: "holds_history (log_of E c q) es \<Longrightarrow> history_of E c q = es"
  by (simp add: holds_history_def history_of_def comp_def)

lemma ledger_inv_history:
  "ledger_inv E c \<Longrightarrow> log_of E c q = List.map domain_event_to_proto (history_of E c q)"
  "ledger_inv E c \<Longrightarrow> good_history (history_of E c q)"
  "ledger_inv E c \<Longrightarrow> db_inv E c"
  by (simp_all add: ledger_inv_def holds_history_def)

lemma ledger_inv_length: "ledger_inv E c \<Longrightarrow> length (history_of E c q) < 2 ^ 63"
  using store.log_bound [of E c q] by (simp add: ledger_inv_def history_of_def)

lemma ledger_inv_fresh: "codec_ok E \<Longrightarrow> ledger_inv E (fresh_db os)"
  using db_inv_fresh [of E os]
  by (simp add: ledger_inv_def holds_history_def history_of_def log_of_def quote_rows_def
      fresh_db_def good_history_Nil)

definition same_history :: "External \<Rightarrow> Connection \<Rightarrow> Connection \<Rightarrow> bool" where
  "same_history E c c' \<longleftrightarrow> history_of E c' = history_of E c \<and> key_of c' = key_of c"

text \<open>The history of \<open>q\<close> grew by \<open>new\<close>, whose numbers are recorded under \<open>k\<close>.\<close>

definition grown_history ::
  "External \<Rightarrow> rstring \<Rightarrow> rstring \<Rightarrow> DomainEvent list \<Rightarrow> Connection \<Rightarrow> Connection \<Rightarrow> bool" where
  "grown_history E q k new c c' \<longleftrightarrow>
     history_of E c' = (history_of E c)(q := history_of E c q @ new) \<and>
     key_of c' = (key_of c)(q := (key_of c q)(k \<mapsto>
       (Suc (length (history_of E c q)), length (history_of E c q) + length new)))"

text \<open>The stored events an append answers with.\<close>

definition stored_events :: "rstring \<Rightarrow> nat \<Rightarrow> DomainEvent list \<Rightarrow> StoredEvent list" where
  "stored_events q n new = stored_from q n (List.map domain_event_to_proto new)"

lemma same_view_history:
  assumes "ledger_inv E c" and "same_view (db_inv E) (log_of E) key_of c c'"
  shows "ledger_inv E c' \<and> same_history E c c'"
proof -
  have "history_of E c' = history_of E c"
    using assms(2) by (simp add: same_view_def history_of_def fun_eq_iff)
  then show ?thesis using assms by (simp add: same_view_def ledger_inv_def same_history_def)
qed

lemma grown_view_history:
  assumes inv: "ledger_inv E c" and good: "good_history (history_of E c q @ new)"
    and grown: "grown_view (db_inv E) (log_of E) key_of q k (List.map domain_event_to_proto new) c c'"
  shows "ledger_inv E c' \<and> grown_history E q k new c c'"
proof -
  have "holds_history (log_of E c' q') (if q' = q then history_of E c q @ new else history_of E c q')" for q'
    using inv good grown
    by (auto simp: ledger_inv_def holds_history_def grown_view_def)
  then have h: "holds_history (log_of E c' q') (history_of E c' q')"
    and eq: "history_of E c' q' = (if q' = q then history_of E c q @ new else history_of E c q')" for q'
    using holds_history_unique by metis+
  have "length (log_of E c q) = length (history_of E c q)" by (simp add: history_of_def)
  with h eq grown show ?thesis
    by (auto simp: ledger_inv_def grown_history_def grown_view_def fun_eq_iff)
qed

section \<open>The append closure refines its specification\<close>

lemma append_one_db_run:
  assumes inv: "ledger_inv E c" and run: "append_one_db E q k cmd c = (r, c')"
  shows "ledger_inv E c' \<and>
    (((\<exists>e. r = Inl (Sqlite e)) \<and> same_history E c c' \<and>
       (healthy c \<longrightarrow> key_of c q k = None \<and> 2 ^ 63 \<le> Suc (length (history_of E c q)))) \<or>
     (healthy c \<longrightarrow> healthy c') \<and>
     (case append_spec (history_of E c q) (key_of c q k) q k cmd of
        Inl x \<Rightarrow> r = Inl x \<and> same_history E c c'
      | Inr (n, new) \<Rightarrow>
          r = Inr (stored_events q n new) \<and>
          (if key_of c q k = None then grown_history E q k new c c' else same_history E c c')))"
proof -
  have h: "holds_history (log_of E c q) (history_of E c q)" and d: "db_inv E c" using inv by (simp_all add: ledger_inv_def)
  let ?same = "ledger_inv E c' \<and> same_history E c c'" and ?grown = "\<lambda>new. ledger_inv E c' \<and> grown_history E q k new c c'"
  have "append_outcome ?same ?grown (healthy c) (healthy c') (history_of E c q) (key_of c q k) q k cmd r"
  proof (rule append_outcome_mono [OF store.append_one_ok [OF d h run [unfolded append_one_db_def]]])
    fix n new
    assume "append_spec (history_of E c q) None q k cmd = Inr (n, new)"
    then have "good_history (history_of E c q @ new)"
      using good_history_append [OF ledger_inv_history(2) [OF inv]] by (auto simp: append_spec_def result_simps)
    then show "grown_view (db_inv E) (log_of E) key_of q k (List.map domain_event_to_proto new) c c' \<Longrightarrow> ?grown new"
      by (rule grown_view_history [OF inv])
  qed (use same_view_history [OF inv] in simp_all)
  then show ?thesis
    unfolding append_outcome_def
    by (cases "append_spec (history_of E c q) (key_of c q k) q k cmd") (auto simp: stored_events_def split: if_splits)
qed

lemma append_one_db_inv: "ledger_inv E c \<Longrightarrow> ledger_inv E (snd (append_one_db E q k cmd c))"
  using append_one_db_run [of E c q k cmd "fst (append_one_db E q k cmd c)" "snd (append_one_db E q k cmd c)"]
  by simp

lemma run_appends_inv: "ledger_inv E c \<Longrightarrow> ledger_inv E (run_appends E reqs c)"
  by (induction E reqs c rule: run_appends.induct) (simp_all add: append_one_db_inv)

text \<open>One append leaves the histories and keys alone or grows one of them under a new key.\<close>

lemma append_one_db_effect:
  assumes "ledger_inv E c" and "append_one_db E q k cmd c = (r, c')"
  obtains (same) "same_history E c c'" | (grown) new where "key_of c q k = None" and "grown_history E q k new c c'"
  using append_one_db_run [OF assms] by (auto split: sum.splits prod.splits if_splits)

section \<open>Retries\<close>

text \<open>The key \<open>k\<close> of \<open>q\<close> records that \<open>cmd\<close> was committed as the events \<open>new\<close> from number \<open>n\<close>.\<close>

definition committed_as ::
  "External \<Rightarrow> rstring \<Rightarrow> rstring \<Rightarrow> DomainCommand \<Rightarrow> nat \<Rightarrow> DomainEvent list \<Rightarrow> Connection \<Rightarrow> bool" where
  "committed_as E q k cmd n new c \<longleftrightarrow>
     (\<exists>l. key_of c q k = Some (n, l) \<and> event_slice n l (history_of E c q) = new \<and>
          decide_on (take (n - 1) (history_of E c q)) cmd = Inr new)"

lemma committed_after_append:
  assumes inv: "ledger_inv E c" and run: "append_one_db E q k cmd c = (Inr st, c')"
  shows "\<exists>n new. committed_as E q k cmd n new c' \<and> st = stored_events q n new"
proof -
  obtain n new where spec: "append_spec (history_of E c q) (key_of c q k) q k cmd = Inr (n, new)"
    and st: "st = stored_events q n new"
    and c': "if key_of c q k = None then grown_history E q k new c c' else same_history E c c'"
    using append_one_db_run [OF inv run] by (auto split: sum.splits prod.splits)
  have "committed_as E q k cmd n new c'"
  proof (cases "key_of c q k")
    case None
    with spec c' show ?thesis
      by (auto simp: append_spec_def result_simps committed_as_def grown_history_def event_slice_def)
  next
    case (Some fl)
    with spec c' show ?thesis
      by (cases fl) (auto simp: append_spec_def result_simps committed_as_def same_history_def split: if_splits)
  qed
  with st show ?thesis by blast
qed

lemma find_append:
  "List.find P (xs @ ys) = (case List.find P xs of None \<Rightarrow> List.find P ys | Some x \<Rightarrow> Some x)"
  by (induction xs) auto

lemma table_prefix_history: "table_prefix c c' \<Longrightarrow> prefix (history_of E c q) (history_of E c' q)"
  unfolding table_prefix_def history_of_def log_of_def quote_rows_def
  by (blast intro: map_mono_prefix filter_mono_prefix)

lemma table_prefix_key: "table_prefix c c' \<Longrightarrow> key_of c q k = Some x \<Longrightarrow> key_of c' q k = Some x"
  by (auto simp: table_prefix_def key_of_def prefix_def find_append)

lemma committed_prefix:
  assumes inv: "ledger_inv E c" and com: "committed_as E q k cmd n new c" and rows: "table_prefix c c'"
  shows "committed_as E q k cmd n new c'"
proof -
  obtain l where l: "key_of c q k = Some (n, l)" using com by (auto simp: committed_as_def)
  then have "1 \<le> n" "n \<le> l" "l \<le> length (history_of E c q)"
    using store.key_range [OF ledger_inv_history(3) [OF inv] l] by (simp_all add: history_of_def)
  moreover obtain more where "history_of E c' q = history_of E c q @ more"
    using table_prefix_history [OF rows, of E q] by (auto simp: prefix_def)
  ultimately show ?thesis
    using com l table_prefix_key [OF rows l] by (auto simp: committed_as_def event_slice_def)
qed

lemma append_one_rows: "append_one_db E q k cmd c = (r, c') \<Longrightarrow> table_prefix c c'"
  using append_one_writes(2) [of E q k cmd] unfolding appends_only_def by (metis snd_conv)

lemma run_appends_rows: "table_prefix c (run_appends E reqs c)"
proof (induction E reqs c rule: run_appends.induct)
  case (2 E q k cmd reqs c)
  from append_one_rows have "table_prefix c (snd (append_one_db E q k cmd c))" by (metis prod.collapse)
  with 2 show ?case by (simp add: table_prefix_trans)
qed simp

lemma committed_stays_run:
  "ledger_inv E c \<Longrightarrow> committed_as E q k cmd n new c \<Longrightarrow> committed_as E q k cmd n new (run_appends E reqs c)"
  using committed_prefix run_appends_rows by blast

lemma committed_replays:
  assumes inv: "ledger_inv E c" and com: "committed_as E q k cmd n new c" and "healthy c"
    and run: "append_one_db E q k cmd c = (r, c')"
  shows "r = Inr (stored_events q n new) \<and> same_history E c c'"
proof -
  obtain l where l: "key_of c q k = Some (n, l)" "event_slice n l (history_of E c q) = new"
      "decide_on (take (n - 1) (history_of E c q)) cmd = Inr new"
    using com by (auto simp: committed_as_def)
  then have "append_spec (history_of E c q) (key_of c q k) q k cmd = Inr (n, new)"
    by (simp add: append_spec_def)
  with append_one_db_run [OF inv run] \<open>healthy c\<close> l(1) show ?thesis by simp
qed

text \<open>The closure of a subscription, on a healthy database.\<close>

lemma subscribe_ok_history:
  assumes "ledger_inv E c" and "healthy c" and "subscribe_db E q after c = (r, c')"
  shows "events c' = events c \<and>
    (if length (history_of E c q) < unat after
     then r = Inl (InvalidAfterSeq after (of_nat (length (history_of E c q))))
     else \<exists>s v. replay (history_of E c q) = Inr s \<and> quote_state_to_view q s = Inr v \<and>
       r = Inr \<lparr>init_last_seq = of_nat (length (history_of E c q)), init_view = v,
         init_catchup = stored_events q (Suc (unat after)) (drop (unat after) (history_of E c q))\<rparr>)"
proof -
  have "reads_only (subscribe_db E q after)" by (rule subscribe_reads)
  then have "events c' = events c"
    using assms(3) unfolding reads_only_def same_tables_def by (metis snd_conv)
  moreover have "holds_history (log_of E c q) (history_of E c q)" "db_inv E c"
    using assms(1) by (simp_all add: ledger_inv_def)
  ultimately show ?thesis
    using store.subscribe_ok [OF _ _ assms(3) [unfolded subscribe_db_def]] assms(2)
    by (fastforce simp: stored_events_def)
qed

text \<open>What the invariant says of the rows of a quote\<close>

lemma ledger_inv_replays:
  assumes "ledger_inv E c"
  shows "\<exists>s. replay (history_of E c q) = Inr s \<and> quote_inv s \<and>
    List.map row_seq (quote_rows c q) = List.map of_nat [1 ..< Suc (length (history_of E c q))]"
proof -
  have "quote_rows c q = rows_from E q 1 (log_of E c q)"
    using assms by (intro store_inv_rows) (simp_all add: ledger_inv_def db_inv_def)
  then have "List.map row_seq (quote_rows c q) = List.map of_nat [1 ..< 1 + length (log_of E c q)]"
    by (simp only: rows_from_seq)
  with ledger_inv_history(2) [OF assms, of q] show ?thesis
    by (auto simp: good_history_def history_of_def)
qed

section \<open>Properties\<close>

text \<open>
  C3: A retry is answered with the events of the first attempt: after an append succeeded, and
  after any further appends to any quotes, accepted, rejected or failed, the same command under
  the same key returns the same stored events and changes no history and no key.
\<close>

theorem retry_returns_original:
  assumes "ledger_inv E c0" and "append_one_db E q k cmd c0 = (Inr st, c1)"
    and "c2 = run_appends E reqs c1" and "healthy c2" and "append_one_db E q k cmd c2 = (r, c3)"
  shows "r = Inr st \<and> history_of E c3 = history_of E c2 \<and> key_of c3 = key_of c2"
proof -
  have inv1: "ledger_inv E c1" using append_one_db_run [OF assms(1,2)] by blast
  obtain n new where com: "committed_as E q k cmd n new c1" "st = stored_events q n new"
    using committed_after_append [OF assms(1,2)] by blast
  with inv1 assms(3) have "committed_as E q k cmd n new c2" "ledger_inv E c2"
    by (simp_all add: committed_stays_run run_appends_inv)
  from committed_replays [OF this(2,1) assms(4,5)] com(2) show ?thesis by (simp add: same_history_def)
qed

definition sample_appends :: "(rstring \<times> rstring \<times> DomainCommand) list" where
  "sample_appends =
     [(''q1'', ''create'', CreateQuote ''USD'' ''US-CA''),
      (''q1'', ''line'', AddLineItem ''L1'' ''SKU'' ''Widget'' 2 5000),
      (''q2'', ''create'', CreateQuote ''EUR'' ''DE'')]"

definition sample_connection :: Connection where
  "sample_connection = run_appends sample_external sample_appends (fresh_db [])"

lemma sample_connection_inv: "ledger_inv sample_external sample_connection"
  unfolding sample_connection_def by (intro run_appends_inv ledger_inv_fresh sample_codec_ok)

theorem retry_returns_original_witness:
  "fst (append_one_db sample_external ''q1'' ''fin'' FinalizeQuote
     (snd (append_one_db sample_external ''q1'' ''fin'' FinalizeQuote sample_connection))) =
   Inr [\<lparr>seq = 3, quote_id = ''q1'', event = Some \<lparr>event_kind = Some EvKind_QuoteFinalized\<rparr>\<rparr>]"
proof -
  obtain r c1 where run: "append_one_db sample_external ''q1'' ''fin'' FinalizeQuote sample_connection = (r, c1)"
    by fastforce
  moreover have "fst (append_one_db sample_external ''q1'' ''fin'' FinalizeQuote sample_connection) =
      Inr [\<lparr>seq = 3, quote_id = ''q1'', event = Some \<lparr>event_kind = Some EvKind_QuoteFinalized\<rparr>\<rparr>]"
    by code_simp
  moreover have "healthy (snd (append_one_db sample_external ''q1'' ''fin'' FinalizeQuote sample_connection))"
    by code_simp
  ultimately show ?thesis
    using retry_returns_original [OF sample_connection_inv, of "''q1''" "''fin''" FinalizeQuote _ c1 c1 "[]"
        "fst (append_one_db sample_external ''q1'' ''fin'' FinalizeQuote c1)"
        "snd (append_one_db sample_external ''q1'' ''fin'' FinalizeQuote c1)"] by simp
qed

text \<open>
  C4: On a healthy database with room for one more event, the append closure computes exactly its
  abstract specification: it answers with the specified error, or with the specified events under
  consecutive numbers; a new key extends one history and is recorded, a known key changes nothing.
\<close>

theorem append_refines_spec:
  assumes "ledger_inv E c" and "healthy c" and "Suc (length (history_of E c q)) < 2 ^ 63"
    and "append_one_db E q k cmd c = (r, c')"
  shows "ledger_inv E c' \<and>
    (case append_spec (history_of E c q) (key_of c q k) q k cmd of
       Inl x \<Rightarrow> r = Inl x \<and> history_of E c' = history_of E c \<and> key_of c' = key_of c
     | Inr (n, new) \<Rightarrow>
         r = Inr (stored_events q n new) \<and>
         (if key_of c q k = None
          then history_of E c' = (history_of E c)(q := history_of E c q @ new) \<and>
               key_of c' q k = Some (n, n + length new - 1)
          else history_of E c' = history_of E c \<and> key_of c' = key_of c))"
proof -
  have new: "n = Suc (length (history_of E c q))"
    if "append_spec (history_of E c q) None q k cmd = Inr (n, new)" for n new
    using that by (auto simp: append_spec_def result_simps)
  from append_one_db_run [OF assms(1,4)] assms(2,3) show ?thesis
    by (auto simp: same_history_def grown_history_def dest!: new split: sum.splits prod.splits if_splits)
qed

theorem append_refines_spec_witness:
  "fst (append_one_db sample_external ''q1'' ''line2'' (AddLineItem ''L1'' ''S'' ''D'' 1 1) sample_connection) =
     Inl (DomainErr DuplicateLineId) \<and>
   append_spec (history_of sample_external sample_connection ''q1'') (key_of sample_connection ''q1'' ''line2'')
     ''q1'' ''line2'' (AddLineItem ''L1'' ''S'' ''D'' 1 1) = Inl (DomainErr DuplicateLineId)"
proof -
  let ?cmd = "AddLineItem ''L1'' ''S'' ''D'' 1 1"
  obtain r c' where run: "append_one_db sample_external ''q1'' ''line2'' ?cmd sample_connection = (r, c')"
    by fastforce
  have spec: "append_spec (history_of sample_external sample_connection ''q1'')
      (key_of sample_connection ''q1'' ''line2'') ''q1'' ''line2'' ?cmd = Inl (DomainErr DuplicateLineId)"
    by code_simp
  have "healthy sample_connection" "length (history_of sample_external sample_connection ''q1'') = 2"
    by code_simp+
  with append_refines_spec [OF sample_connection_inv _ _ run] spec run show ?thesis by simp
qed

text \<open>
  C10: An append that fails, for whatever reason and at whatever statement, leaves both tables
  exactly as they were; this needs no assumption on the database or on the external code.
\<close>

theorem failed_append_changes_nothing:
  assumes "append_one_db E q k cmd c = (Inl e, c')"
  shows "events c' = events c \<and> idempotency_keys c' = idempotency_keys c"
proof -
  have "keeps_on_error (append_one_db E q k cmd)" by (rule append_one_writes)
  with assms show ?thesis unfolding keeps_on_error_def same_tables_def by (metis fst_conv isl_def snd_conv)
qed

theorem failed_append_changes_nothing_witness:
  "\<exists>c'. append_one_db sample_external ''q'' ''k'' (CreateQuote ''USD'' ''US'')
       (fresh_db [None, None, None, None, None, None, None, Some ''disk I/O error'']) =
       (Inl (Sqlite ''disk I/O error''), c') \<and> events c' = []"
proof -
  let ?c = "fresh_db [None, None, None, None, None, None, None, Some ''disk I/O error'']"
  let ?r = "append_one_db sample_external ''q'' ''k'' (CreateQuote ''USD'' ''US'') ?c"
  have "fst ?r = Inl (Sqlite ''disk I/O error'')" by code_simp
  then have run: "?r = (Inl (Sqlite ''disk I/O error''), snd ?r)" by (metis prod.collapse)
  from failed_append_changes_nothing [OF run] show ?thesis
    using run by (intro exI [of _ "snd ?r"]) (simp add: fresh_db_def)
qed

text \<open>
  The two tables are append-only: whatever sequence of appends runs, with whatever failures,
  the rows that were there stay, in their order.
\<close>

theorem tables_append_only:
  "prefix (events c) (events (run_appends E reqs c)) \<and>
   prefix (idempotency_keys c) (idempotency_keys (run_appends E reqs c))"
  using run_appends_rows [of c E reqs] by (simp add: table_prefix_def)

text \<open>
  From a freshly migrated database, whatever appends arrive and whatever statements fail, the
  rows of every quote are numbered 1, 2, 3, ... in table order, and the events they hold replay to
  a state that satisfies the domain invariant.
\<close>

theorem every_log_replays:
  assumes "codec_ok E" and "c = run_appends E reqs (fresh_db os)"
  shows "\<exists>s. replay (history_of E c q) = Inr s \<and> quote_inv s \<and>
    List.map row_seq (quote_rows c q) = List.map of_nat [1 ..< Suc (length (history_of E c q))]"
  unfolding assms(2) by (intro ledger_inv_replays run_appends_inv ledger_inv_fresh assms(1))

theorem every_log_replays_witness:
  "\<exists>s. replay (history_of sample_external sample_connection ''q1'') = Inr s \<and> quote_inv s \<and>
     List.map row_seq (quote_rows sample_connection ''q1'') = [1, 2]"
proof -
  have "length (history_of sample_external sample_connection ''q1'') = 2" by code_simp
  with every_log_replays [OF sample_codec_ok sample_connection_def, of "''q1''"]
  show ?thesis by (simp add: upt_rec)
qed

text \<open>
  A subscription to a healthy database reads the head, the view and the catch-up of one
  moment: it is refused when \<open>after\<close> is past the head, and otherwise the catch-up is exactly the
  events numbered \<open>after + 1\<close> to the head, and the view is the one of the replayed history.
\<close>

theorem subscribe_reads_exactly:
  assumes "ledger_inv E c" and "healthy c" and "subscribe_db E q after c = (r, c')"
  shows "events c' = events c \<and>
    (if length (history_of E c q) < unat after
     then r = Inl (InvalidAfterSeq after (of_nat (length (history_of E c q))))
     else \<exists>s v. replay (history_of E c q) = Inr s \<and> quote_state_to_view q s = Inr v \<and>
       r = Inr \<lparr>init_last_seq = of_nat (length (history_of E c q)), init_view = v,
         init_catchup = stored_events q (Suc (unat after)) (drop (unat after) (history_of E c q))\<rparr>)"
  by (rule subscribe_ok_history [OF assms])

theorem subscribe_reads_exactly_witness:
  "\<exists>v. fst (subscribe_db sample_external ''q1'' 1 sample_connection) =
     Inr \<lparr>init_last_seq = 2, init_view = v, init_catchup = stored_events ''q1'' 2
       [LineItemAdded ''L1'' ''SKU'' ''Widget'' 2 5000]\<rparr>"
proof -
  obtain r c' where run: "subscribe_db sample_external ''q1'' 1 sample_connection = (r, c')" by fastforce
  have "healthy sample_connection" "history_of sample_external sample_connection ''q1'' =
      [QuoteCreated ''USD'' ''US-CA'', LineItemAdded ''L1'' ''SKU'' ''Widget'' 2 5000]"
    by code_simp+
  with subscribe_reads_exactly [OF sample_connection_inv _ run] run show ?thesis by (auto simp: numeral_2_eq_2)
qed

text \<open>
  C32: The store appends a batch of any size under a new key, more than the one event the domain ever
  sends it: the events get the next numbers in order, loading the quote afterwards returns the
  old events followed by them, and the key is recorded with the first and the last number.
\<close>

theorem append_then_load:
  assumes "db_inv E c" and "healthy c" and "key_of c q k = None" and "evs \<noteq> []"
    and "length (log_of E c q) + length evs < 2 ^ 63"
    and "append_command_events E q k evs c = (r, c1)" and "load_stored_events E q c1 = (r2, c2)"
  shows "r = Inr (stored_from q (Suc (length (log_of E c q))) evs) \<and>
    r2 = Inr (stored_from q 1 (log_of E c q @ evs)) \<and>
    key_of c2 q k = Some (Suc (length (log_of E c q)), length (log_of E c q) + length evs)"
proof -
  have "length evs = 1 \<or> length (log_of E c q) + length evs < 2 ^ 63" using assms(5) by blast
  from store.append_fresh [OF assms(1,3,4) this assms(6)] assms(2,5)
  have grown: "grown_view (db_inv E) (log_of E) key_of q k evs c c1" "healthy c1"
    and r: "r = Inr (stored_from q (Suc (length (log_of E c q))) evs)" by auto
  then have "db_inv E c1" by (simp add: grown_view_def)
  from store.load_all [OF this assms(7)] grown r show ?thesis
    by (auto simp: grown_view_def same_view_def reads_as_def)
qed

theorem append_then_load_witness:
  "fst (append_command_events sample_external ''q'' ''k'' (List.map domain_event_to_proto
      [QuoteCreated ''USD'' ''US'', QuoteFinalized]) (fresh_db [])) =
   Inr (stored_events ''q'' 1 [QuoteCreated ''USD'' ''US'', QuoteFinalized])"
proof -
  let ?evs = "List.map domain_event_to_proto [QuoteCreated ''USD'' ''US'', QuoteFinalized]"
  obtain r c1 where run: "append_command_events sample_external ''q'' ''k'' ?evs (fresh_db []) = (r, c1)"
    by fastforce
  obtain r2 c2 where load: "load_stored_events sample_external ''q'' c1 = (r2, c2)" by fastforce
  have "log_of sample_external (fresh_db []) ''q'' = []" "key_of (fresh_db []) ''q'' ''k'' = None"
    "healthy (fresh_db [])"
    by (simp_all add: fresh_db_def log_of_def quote_rows_def key_of_def healthy_def)
  with append_then_load [OF db_inv_fresh [OF sample_codec_ok] this(3,2) _ _ run load] run
  show ?thesis by (simp add: stored_events_def)
qed

end
