(* ===== verification/Ledger_Service.thy ===== *)
theory Ledger_Service
  imports Ledger_History
begin

text \<open>
  \<open>LedgerInner\<close> of \<open>src/ledger.rs\<close>: the connection, the bus of watch channels, the in-flight
  counter with its guard, \<open>db\<close>, \<open>publish_head\<close> and \<open>append_one\<close>; and the identifier check
  of the service.
  \<^item> The watch channel of \<open>tokio::sync::watch\<close> is a parameter: \<open>WatchOps\<close> holds its
    operations, \<open>watch_ok\<close> what its documentation promises.
  \<^item> Metrics are the list of increments \<open>counted\<close> and the gauge, which holds a counter
    converted to \<open>f64\<close>; the two latency histograms
    are added in theory \<open>Latency_Histograms\<close>.  A guard changes the counter and the gauge in one
    step here; theory \<open>In_Flight_Gauge\<close> has the two apart.
  \<^item> \<open>conn.lock()\<close> and \<open>bus.lock().await\<close> give one holder at a time: what happens under a lock
    is one definition.  A closure on the connection does not panic, so the mutex is not
    poisoned and \<open>spawn_blocking\<close> returns what the closure returned.
\<close>

section \<open>The watch channel\<close>

text \<open>
  \<open>receiver_of\<close> says which receivers belong to a channel; the code does not compute it, the
  ownership of the values does.
\<close>

record ('w, 'r) WatchOps =
  watch_channel :: "u64 \<Rightarrow> 'w"
  send_replace :: "'w \<Rightarrow> u64 \<Rightarrow> 'w"
  watch_subscribe :: "'w \<Rightarrow> 'r"
  borrow :: "'w \<Rightarrow> u64"
  has_changed :: "'w \<Rightarrow> 'r \<Rightarrow> bool"
  mark_seen :: "'w \<Rightarrow> 'r \<Rightarrow> 'r"
  receiver_of :: "'w \<Rightarrow> 'r \<Rightarrow> bool"

definition watch_ok :: "('w, 'r) WatchOps \<Rightarrow> bool" where
  "watch_ok W \<longleftrightarrow>
     (\<forall>v. borrow W (watch_channel W v) = v) \<and>
     (\<forall>w v. borrow W (send_replace W w v) = v) \<and>
     (\<forall>w. receiver_of W w (watch_subscribe W w) \<and> \<not> has_changed W w (watch_subscribe W w)) \<and>
     (\<forall>w r. receiver_of W w r \<longrightarrow>
        receiver_of W w (mark_seen W w r) \<and> \<not> has_changed W w (mark_seen W w r)) \<and>
     (\<forall>w v r. receiver_of W w r \<longrightarrow>
        receiver_of W (send_replace W w v) r \<and> has_changed W (send_replace W w v) r)"

section \<open>State\<close>

record 'w Ledger =
  conn :: Connection
  bus :: "rstring \<Rightarrow> 'w option"
  in_flight_appends :: u64
  in_flight_gauge :: nat
  counted :: "(rstring \<times> rstring) list"
  slept :: "nat list"

definition new_ledger :: "Connection \<Rightarrow> 'w Ledger" where
  "new_ledger c =
     \<lparr>conn = c, bus = (\<lambda>_. None), in_flight_appends = 0, in_flight_gauge = 0, counted = [], slept = []\<rparr>"

type_synonym ('w, 'a) svc = "('w Ledger, Status, 'a) comp"

text \<open>\<open>counter!(name, label).increment(1)\<close>, with the empty label for a counter without one\<close>

definition count_metric :: "rstring \<Rightarrow> rstring \<Rightarrow> 'w Ledger \<Rightarrow> 'w Ledger" where
  "count_metric name label l = l\<lparr>counted := counted l @ [(name, label)]\<rparr>"

definition on_db :: "'a db \<Rightarrow> ('w, 'a) svc" where
  "on_db f l = (case f (conn l) of (r, c) \<Rightarrow> (map_err store_error_to_status r, l\<lparr>conn := c\<rparr>))"

definition publish_head :: "('w, 'r) WatchOps \<Rightarrow> rstring \<Rightarrow> u64 \<Rightarrow> 'w Ledger \<Rightarrow> 'w Ledger" where
  "publish_head W q head l =
     (let tx = (case bus l q of Some tx \<Rightarrow> tx | None \<Rightarrow> watch_channel W head)
      in l\<lparr>bus := (bus l)(q \<mapsto> send_replace W tx head)\<rparr>)"

section \<open>The in-flight guard\<close>

definition InFlightGuard_enter :: "'w Ledger \<Rightarrow> 'w Ledger" where
  "InFlightGuard_enter l =
     (let n = in_flight_appends l + 1 in l\<lparr>in_flight_appends := n, in_flight_gauge := as_f64 n\<rparr>)"

definition InFlightGuard_drop :: "'w Ledger \<Rightarrow> 'w Ledger" where
  "InFlightGuard_drop l =
     (let prev = in_flight_appends l;
          n = saturating_sub prev 1
      in l\<lparr>in_flight_appends := prev - 1, in_flight_gauge := as_f64 n\<rparr>)"

text \<open>A scope that holds the guard: it is dropped on every path out, the early returns included.\<close>

definition guarded :: "('w, 'a) svc \<Rightarrow> ('w, 'a) svc" where
  "guarded body l = (case body (InFlightGuard_enter l) of (r, l') \<Rightarrow> (r, InFlightGuard_drop l'))"

section \<open>Appending one command\<close>

definition append_one ::
  "External \<Rightarrow> ('w, 'r) WatchOps \<Rightarrow> rstring \<Rightarrow> rstring \<Rightarrow> QuoteCommand \<Rightarrow> ('w, StoredEvent list) svc" where
  "append_one E W q k cmd =
     guarded
       (st_bind (st_lift (proto_command_to_domain cmd)) (\<lambda>domain_cmd.
        st_bind (on_db (append_one_db E q k domain_cmd)) (\<lambda>cs l.
          let l = (if cs = [] then l else publish_head W q (seq (last cs)) l);
              l = count_metric ''quote_ledger_append_one_commits_total'' '''' l
          in (Inr cs, l))))"

section \<open>Identifiers\<close>

definition MAX_ID_LEN :: nat where
  "MAX_ID_LEN = 128"

definition id_char :: "char \<Rightarrow> bool" where
  "id_char c \<longleftrightarrow> is_ascii_alphanumeric c \<or> c \<in> {CHR ''-'', CHR ''_'', CHR '':'', CHR ''.''}"

definition validate_identifier :: "rstring \<Rightarrow> rstring \<Rightarrow> Status + unit" where
  "validate_identifier field v =
     fail_if (trim v = []) (status InvalidArgument (field @ '' is required''))
     (fail_if (MAX_ID_LEN < length v)
        (status InvalidArgument (field @ '' exceeds '' @ show_nat MAX_ID_LEN @ '' characters''))
     (fail_if (v \<noteq> trim v)
        (status InvalidArgument (field @ '' must not contain leading/trailing spaces''))
     (fail_if (\<not> list_all id_char v)
        (status InvalidArgument (field @ '' contains invalid characters''))
     (Inr ()))))"

section \<open>Lemmas\<close>

definition valid_id :: "rstring \<Rightarrow> bool" where
  "valid_id v \<longleftrightarrow> v \<noteq> [] \<and> length v \<le> MAX_ID_LEN \<and> list_all id_char v"

lemma id_char_graphic: "id_char c \<Longrightarrow> ascii_graphic c"
  by (auto simp: id_char_def ascii_graphic_def is_ascii_alphanumeric_def in_range_def)

lemma trim_id: "list_all id_char v \<Longrightarrow> trim v = v"
  using id_char_graphic by (intro trim_graphic) (auto simp: list_all_iff)

lemma validate_identifier_Inr [result_simps]: "validate_identifier f v = Inr u \<longleftrightarrow> valid_id v"
  using trim_id [of v] by (auto simp: validate_identifier_def valid_id_def result_simps)

lemma validate_identifier_code: "validate_identifier f v = Inl st \<Longrightarrow> code st = InvalidArgument"
  by (auto simp: validate_identifier_def result_simps)

lemma count_metric_simps [simp]:
  "conn (count_metric n b l) = conn l" "bus (count_metric n b l) = bus l"
  "in_flight_appends (count_metric n b l) = in_flight_appends l"
  "in_flight_gauge (count_metric n b l) = in_flight_gauge l"
  "counted (count_metric n b l) = counted l @ [(n, b)]" "slept (count_metric n b l) = slept l"
  by (simp_all add: count_metric_def)

lemma publish_head_simps [simp]:
  "conn (publish_head W q h l) = conn l"
  "in_flight_appends (publish_head W q h l) = in_flight_appends l"
  "in_flight_gauge (publish_head W q h l) = in_flight_gauge l"
  "counted (publish_head W q h l) = counted l" "slept (publish_head W q h l) = slept l"
  by (simp_all add: publish_head_def Let_def)

lemma InFlightGuard_simps [simp]:
  "conn (InFlightGuard_enter l) = conn l" "bus (InFlightGuard_enter l) = bus l"
  "conn (InFlightGuard_drop l) = conn l" "bus (InFlightGuard_drop l) = bus l"
  "counted (InFlightGuard_enter l) = counted l" "counted (InFlightGuard_drop l) = counted l"
  "in_flight_appends (InFlightGuard_enter l) = in_flight_appends l + 1"
  "in_flight_appends (InFlightGuard_drop l) = in_flight_appends l - 1"
  by (simp_all add: InFlightGuard_enter_def InFlightGuard_drop_def Let_def)

text \<open>What subscribers of \<open>q\<close> see when they borrow.\<close>

definition head_of :: "('w, 'r) WatchOps \<Rightarrow> 'w Ledger \<Rightarrow> rstring \<Rightarrow> u64 option" where
  "head_of W l q = map_option (borrow W) (bus l q)"

lemma publish_head_bus [simp]: "watch_ok W \<Longrightarrow> head_of W (publish_head W q h l) = (head_of W l)(q \<mapsto> h)"
  by (auto simp: head_of_def publish_head_def watch_ok_def Let_def)

lemma head_of_simps [simp]:
  "head_of W (count_metric n b l) = head_of W l" "head_of W (InFlightGuard_enter l) = head_of W l"
  "head_of W (InFlightGuard_drop l) = head_of W l" "head_of W (l\<lparr>conn := c\<rparr>) = head_of W l"
  by (simp_all add: head_of_def fun_eq_iff)

text \<open>What one append does to each part of the ledger.\<close>

lemma append_one_run:
  "append_one E W q k cmd l =
     (case proto_command_to_domain cmd of
        Inl st \<Rightarrow> (Inl st, InFlightGuard_drop (InFlightGuard_enter l))
      | Inr dc \<Rightarrow>
          (case append_one_db E q k dc (conn l) of
             (Inl e, c) \<Rightarrow> (Inl (store_error_to_status e), InFlightGuard_drop ((InFlightGuard_enter l)\<lparr>conn := c\<rparr>))
           | (Inr cs, c) \<Rightarrow>
               (Inr cs, InFlightGuard_drop (count_metric ''quote_ledger_append_one_commits_total'' ''''
                  (if cs = [] then (InFlightGuard_enter l)\<lparr>conn := c\<rparr>
                   else publish_head W q (seq (last cs)) ((InFlightGuard_enter l)\<lparr>conn := c\<rparr>))))))"
  by (auto simp: append_one_def guarded_def st_lift_run on_db_def st_bind_def Let_def
      split: sum.split prod.split)

lemma append_one_cases:
  assumes "append_one E W q k cmd l = (r, l')"
  obtains (malformed) st where "proto_command_to_domain cmd = Inl st" and "r = Inl st" and "conn l' = conn l"
      and "bus l' = bus l" and "counted l' = counted l"
    | (failed) dc e where "proto_command_to_domain cmd = Inr dc" and "r = Inl (store_error_to_status e)"
      and "append_one_db E q k dc (conn l) = (Inl e, conn l')" and "bus l' = bus l" and "counted l' = counted l"
    | (committed) dc cs where "proto_command_to_domain cmd = Inr dc" and "r = Inr cs"
      and "append_one_db E q k dc (conn l) = (Inr cs, conn l')"
      and "watch_ok W \<Longrightarrow> head_of W l' = (if cs = [] then head_of W l else (head_of W l)(q \<mapsto> seq (last cs)))"
      and "counted l' = counted l @ [(''quote_ledger_append_one_commits_total'', '''')]"
proof (cases "proto_command_to_domain cmd")
  case (Inl st)
  with assms show ?thesis by (intro malformed) (auto simp: append_one_run)
next
  case (Inr dc)
  obtain r1 c where run: "append_one_db E q k dc (conn l) = (r1, c)" by fastforce
  show ?thesis
  proof (cases r1)
    case (Inl e)
    with assms Inr run show ?thesis by (intro failed) (auto simp: append_one_run)
  next
    case (Inr cs)
    with assms \<open>proto_command_to_domain cmd = Inr dc\<close> run show ?thesis
      by (intro committed [of dc cs]) (auto simp: append_one_run)
  qed
qed

lemma append_one_in_flight: "in_flight_appends (snd (append_one E W q k cmd l)) = in_flight_appends l"
  by (auto simp: append_one_run split: sum.split prod.split)

end
