(* ===== verification/Append_Stream.thy ===== *)
theory Append_Stream
  imports Ledger_Service
begin

text \<open>
  \<open>append_commands\<close> of \<open>src/ledger.rs\<close>: the loop over the client's stream, with its limits,
  the checks of each message and the accumulated response.  The stream is the list of what
  \<open>timeout(idle, stream.message())\<close> yields: a message, a transport error or the idle timeout;
  the end of the list is the end of the stream.
\<close>

section \<open>The handler\<close>

datatype StreamItem = Frame AppendCommandRequest | TransportError Status | IdleTimeout

record ReliabilityLimits =
  append_idle_timeout :: nat
  append_max_commands :: u64

definition ReliabilityLimits_default :: ReliabilityLimits where
  "ReliabilityLimits_default = \<lparr>append_idle_timeout = 10000, append_max_commands = 512\<rparr>"

record AppendStream =
  stream_quote_id :: "rstring option"
  stream_last_seq :: u64
  stream_committed :: "StoredEvent list"
  command_count :: u64

definition AppendStream_start :: AppendStream where
  "AppendStream_start =
     \<lparr>stream_quote_id = None, stream_last_seq = 0, stream_committed = [], command_count = 0\<rparr>"

definition count_stream :: "rstring \<Rightarrow> ('w, unit) svc" where
  "count_stream result l =
     (Inr (), count_metric ''quote_ledger_append_commands_streams_total'' result l)"

text \<open>The checks of one message, up to the call of \<open>append_one\<close>.\<close>

definition frame_checks :: "AppendStream \<Rightarrow> AppendCommandRequest \<Rightarrow> Status + rstring \<times> QuoteCommand" where
  "frame_checks st msg =
     and_then (validate_identifier ''client_command_id'' (req_client_command_id msg)) (\<lambda>_.
     and_then (validate_identifier ''quote_id'' (req_quote_id msg)) (\<lambda>_.
     and_then
       (case stream_quote_id st of
          None \<Rightarrow> Inr (req_quote_id msg)
        | Some q \<Rightarrow>
            fail_if (q \<noteq> req_quote_id msg)
              (status InvalidArgument ''quote_id must remain consistent within AppendCommands'')
              (Inr q)) (\<lambda>qid.
     and_then (ok_or (req_command msg) (status InvalidArgument ''command required'')) (\<lambda>cmd.
       Inr (qid, cmd)))))"

definition append_commands_frame ::
  "External \<Rightarrow> ('w, 'r) WatchOps \<Rightarrow> ReliabilityLimits \<Rightarrow> AppendStream \<Rightarrow> AppendCommandRequest \<Rightarrow>
   ('w, AppendStream) svc" where
  "append_commands_frame E W lim st msg =
     (let n = command_count st + 1 in
      if unat (append_max_commands lim) < unat n
      then st_bind (count_stream ''too_many'') (\<lambda>_.
             st_lift (Inl (status ResourceExhausted
               (''append_commands stream exceeds max '' @ show_nat (unat (append_max_commands lim)) @
                '' commands''))))
      else
        st_bind (st_lift (frame_checks st msg)) (\<lambda>(qid, cmd).
        st_bind (append_one E W qid (req_client_command_id msg) cmd) (\<lambda>stored.
          st_return
            \<lparr>stream_quote_id = Some qid,
             stream_last_seq = (if stored = [] then stream_last_seq st else seq (last stored)),
             stream_committed = stream_committed st @ stored,
             command_count = n\<rparr>)))"

fun append_commands_loop ::
  "External \<Rightarrow> ('w, 'r) WatchOps \<Rightarrow> ReliabilityLimits \<Rightarrow> AppendStream \<Rightarrow> StreamItem list \<Rightarrow>
   ('w, AppendStream) svc" where
  "append_commands_loop E W lim st [] = st_return st"
| "append_commands_loop E W lim st (TransportError e # items) =
     st_bind (count_stream ''transport_error'') (\<lambda>_. st_lift (Inl e))"
| "append_commands_loop E W lim st (IdleTimeout # items) =
     st_bind (count_stream ''timeout'') (\<lambda>_.
       st_lift (Inl (status DeadlineExceeded ''append_commands stream idle timeout'')))"
| "append_commands_loop E W lim st (Frame msg # items) =
     st_bind (append_commands_frame E W lim st msg) (\<lambda>st'.
       append_commands_loop E W lim st' items)"

definition append_commands ::
  "External \<Rightarrow> ('w, 'r) WatchOps \<Rightarrow> ReliabilityLimits \<Rightarrow> StreamItem list \<Rightarrow>
   ('w, AppendCommandsResponse) svc" where
  "append_commands E W lim items =
     st_bind (append_commands_loop E W lim AppendStream_start items) (\<lambda>st.
       case stream_quote_id st of
         None \<Rightarrow>
           st_bind (count_stream ''invalid'') (\<lambda>_.
             st_lift (Inl (status InvalidArgument ''append_commands stream was empty'')))
       | Some _ \<Rightarrow>
           st_bind (count_stream ''ok'') (\<lambda>_.
             st_return \<lparr>last_committed_seq = stream_last_seq st, committed = stream_committed st\<rparr>))"

section \<open>What a stream runs\<close>

text \<open>The append that a message asks for, when it carries one.\<close>

definition item_request :: "StreamItem \<Rightarrow> (rstring \<times> rstring \<times> DomainCommand) option" where
  "item_request item =
     (case item of
        Frame msg \<Rightarrow>
          (case req_command msg of
             Some cmd \<Rightarrow>
               (case proto_command_to_domain cmd of
                  Inr dc \<Rightarrow> Some (req_quote_id msg, req_client_command_id msg, dc)
                | Inl _ \<Rightarrow> None)
           | None \<Rightarrow> None)
      | _ \<Rightarrow> None)"

definition seq_of_last :: "StoredEvent list \<Rightarrow> u64" where
  "seq_of_last cs = (if cs = [] then 0 else seq (last cs))"

lemma seq_of_last_append: "seq_of_last (xs @ ys) = (if ys = [] then seq_of_last xs else seq (last ys))"
  by (simp add: seq_of_last_def)

text \<open>The variables of the loop after a message whose append stored \<open>cs\<close>\<close>

abbreviation after_frame :: "AppendStream \<Rightarrow> rstring \<Rightarrow> StoredEvent list \<Rightarrow> AppendStream" where
  "after_frame st q cs \<equiv>
     \<lparr>stream_quote_id = Some q, stream_last_seq = (if cs = [] then stream_last_seq st else seq (last cs)),
      stream_committed = stream_committed st @ cs, command_count = command_count st + 1\<rparr>"

text \<open>A message that reaches the database: within the limit, well formed, on the quote of the stream.\<close>

definition admits :: "ReliabilityLimits \<Rightarrow> AppendStream \<Rightarrow> AppendCommandRequest \<Rightarrow> DomainCommand \<Rightarrow> bool" where
  "admits lim st msg dc \<longleftrightarrow>
     item_request (Frame msg) = Some (req_quote_id msg, req_client_command_id msg, dc) \<and>
     unat (command_count st + 1) \<le> unat (append_max_commands lim) \<and>
     valid_id (req_quote_id msg) \<and> valid_id (req_client_command_id msg) \<and>
     stream_quote_id st \<in> {None, Some (req_quote_id msg)}"

lemma frame_checks_Inr:
  "frame_checks st msg = Inr (q, cmd) \<Longrightarrow>
     q = req_quote_id msg \<and> req_command msg = Some cmd \<and> valid_id q \<and> valid_id (req_client_command_id msg) \<and>
     stream_quote_id st \<in> {None, Some q}"
  by (auto simp: frame_checks_def result_simps split: option.splits)

lemma append_commands_frame_run:
  "append_commands_frame E W lim st msg =
     (if unat (append_max_commands lim) < unat (command_count st + 1)
      then st_bind (count_stream ''too_many'') (\<lambda>_. st_lift (Inl (status ResourceExhausted
             (''append_commands stream exceeds max '' @ show_nat (unat (append_max_commands lim)) @ '' commands''))))
      else st_bind (st_lift (frame_checks st msg)) (\<lambda>(q, cmd).
           st_bind (append_one E W q (req_client_command_id msg) cmd) (\<lambda>cs. st_return (after_frame st q cs))))"
  by (simp add: append_commands_frame_def Let_def)

text \<open>One message either stops before the database, or runs its append on one quote.\<close>

lemma append_commands_frame_cases:
  assumes "append_commands_frame E W lim st msg l = (r, l')"
  obtains (refused) e where "r = Inl e" and "conn l' = conn l" and "bus l' = bus l"
      and "in_flight_appends l' = in_flight_appends l"
    | (failed) dc e where "admits lim st msg dc" and "r = Inl (store_error_to_status e)"
      and "append_one_db E (req_quote_id msg) (req_client_command_id msg) dc (conn l) = (Inl e, conn l')"
      and "in_flight_appends l' = in_flight_appends l"
    | (stored) dc cs where "admits lim st msg dc" and "r = Inr (after_frame st (req_quote_id msg) cs)"
      and "append_one_db E (req_quote_id msg) (req_client_command_id msg) dc (conn l) = (Inr cs, conn l')"
      and "in_flight_appends l' = in_flight_appends l"
proof (cases "unat (append_max_commands lim) < unat (command_count st + 1) \<or> (\<exists>e. frame_checks st msg = Inl e)")
  case True
  with assms have "\<exists>e. r = Inl e \<and> conn l' = conn l \<and> bus l' = bus l \<and> in_flight_appends l' = in_flight_appends l"
    by (auto simp: append_commands_frame_run count_stream_def st_bind_def st_lift_run split: if_splits)
  then show ?thesis using refused by blast
next
  case False
  then obtain q cmd where cmd: "frame_checks st msg = Inr (q, cmd)" by (metis old.prod.exhaust old.sum.exhaust)
  let ?k = "req_client_command_id msg"
  obtain r1 l1 where run: "append_one E W q ?k cmd l = (r1, l1)" by fastforce
  have fl: "in_flight_appends l1 = in_flight_appends l" using append_one_in_flight [of E W q ?k cmd l] run by simp
  have body: "(r, l') = st_bind (append_one E W q ?k cmd) (\<lambda>cs. st_return (after_frame st q cs)) l"
    using assms False cmd by (simp add: append_commands_frame_run st_bind_lift)
  have admits: "admits lim st msg dc" if "proto_command_to_domain cmd = Inr dc" for dc
    using False frame_checks_Inr [OF cmd] that by (auto simp: admits_def item_request_def)
  from run show ?thesis
    by (cases rule: append_one_cases)
      (use body run fl admits frame_checks_Inr [OF cmd] in \<open>auto simp: st_bind_def st_return_run intro: refused failed stored\<close>)
qed

text \<open>The requests a loop ran: those of a prefix of the stream, on one quote, within the limit.\<close>

definition ran_as ::
  "ReliabilityLimits \<Rightarrow> AppendStream \<Rightarrow> StreamItem list \<Rightarrow> (rstring \<times> rstring \<times> DomainCommand) list \<Rightarrow>
   Status + AppendStream \<Rightarrow> bool" where
  "ran_as lim st items reqs r \<longleftrightarrow>
     prefix (List.map Some reqs) (List.map item_request items) \<and>
     unat (command_count st) + length reqs \<le> unat (append_max_commands lim) \<and>
     (\<exists>q. stream_quote_id st \<in> {None, Some q} \<and> (\<forall>(q', k, dc) \<in> set reqs. q' = q \<and> valid_id q \<and> valid_id k)) \<and>
     (case r of
        Inl _ \<Rightarrow> True
      | Inr st' \<Rightarrow>
          List.map Some reqs = List.map item_request items \<and>
          (stream_last_seq st = seq_of_last (stream_committed st) \<longrightarrow>
             stream_last_seq st' = seq_of_last (stream_committed st')) \<and>
          (stream_quote_id st' = None \<longleftrightarrow> stream_quote_id st = None \<and> reqs = []))"

lemma ran_as_stop: "unat (command_count st) \<le> unat (append_max_commands lim) \<Longrightarrow> ran_as lim st items [] (Inl e)"
  by (cases "stream_quote_id st") (auto simp: ran_as_def)

lemma unat_count_step:
  "append_max_commands lim \<noteq> -1 \<Longrightarrow> unat (n :: u64) \<le> unat (append_max_commands lim) \<Longrightarrow> unat (n + 1) = Suc (unat n)"
  by (metis Suc_eq_plus1 add.commute unatSuc word_le_nat_alt word_order.extremum_unique max_word_wrap)

lemma ran_as_failed:
  assumes "append_max_commands lim \<noteq> -1" and "unat (command_count st) \<le> unat (append_max_commands lim)"
    and "admits lim st msg dc"
  shows "ran_as lim st (Frame msg # items) [(req_quote_id msg, req_client_command_id msg, dc)] (Inl e)"
  using assms(3) unat_count_step [OF assms(1,2)] by (auto simp: ran_as_def admits_def)

lemma ran_as_Cons:
  assumes "append_max_commands lim \<noteq> -1" and "unat (command_count st) \<le> unat (append_max_commands lim)"
    and "admits lim st msg dc" and "ran_as lim (after_frame st (req_quote_id msg) cs) items reqs r"
  shows "ran_as lim st (Frame msg # items) ((req_quote_id msg, req_client_command_id msg, dc) # reqs) r"
  using assms(3,4) unat_count_step [OF assms(1,2)]
  by (auto simp: ran_as_def admits_def seq_of_last_append split: sum.splits)

lemma append_commands_loop_runs:
  assumes "append_max_commands lim \<noteq> -1" and "unat (command_count st) \<le> unat (append_max_commands lim)"
    and "append_commands_loop E W lim st items l = (r, l')"
  shows "in_flight_appends l' = in_flight_appends l \<and>
    (\<exists>reqs. conn l' = run_appends E reqs (conn l) \<and> ran_as lim st items reqs r)"
  using assms(2,3)
proof (induction items arbitrary: st l)
  case Nil
  then show ?case
    by (intro conjI exI [of _ "[]"]; cases "stream_quote_id st") (auto simp: st_return_run ran_as_def)
next
  case (Cons item items)
  show ?case
  proof (cases item)
    case (Frame msg)
    obtain r1 l1 where run: "append_commands_frame E W lim st msg l = (r1, l1)" by fastforce
    note loop = Cons.prems(2) [unfolded Frame append_commands_loop.simps st_bind_def run, simplified]
    from run show ?thesis
    proof (cases rule: append_commands_frame_cases)
      case (refused e)
      with loop Cons.prems(1) show ?thesis by (auto intro!: exI [of _ "[]"] intro: ran_as_stop)
    next
      case (failed dc e)
      with loop ran_as_failed [OF assms(1) Cons.prems(1) failed(1), of items] Frame show ?thesis
        by (intro conjI exI [of _ "[(req_quote_id msg, req_client_command_id msg, dc)]"]) auto
    next
      case (stored dc cs)
      from stored(1) have "unat (command_count (after_frame st (req_quote_id msg) cs)) \<le> unat (append_max_commands lim)"
        by (simp add: admits_def)
      from Cons.IH [OF this, of l1] loop stored obtain reqs where fl: "in_flight_appends l' = in_flight_appends l"
        and reqs: "conn l' = run_appends E reqs (conn l1)" "ran_as lim (after_frame st (req_quote_id msg) cs) items reqs r"
        by auto
      with ran_as_Cons [OF assms(1) Cons.prems(1) stored(1) reqs(2)] stored(3) Frame show ?thesis
        by (intro conjI exI [of _ "(req_quote_id msg, req_client_command_id msg, dc) # reqs"]) simp_all
    qed
  qed (use Cons.prems in \<open>auto simp: count_stream_def st_bind_def st_lift_run intro!: exI [of _ "[]"] intro: ran_as_stop\<close>)
qed

section \<open>The stream against its specification\<close>

text \<open>
  The abstract ledger: the history of each quote and the range of each key.  An append follows
  \<open>append_spec\<close>; a stream is the sequence of its appends.
\<close>

type_synonym AbsLedger = "(rstring \<Rightarrow> DomainEvent list) \<times> (rstring \<Rightarrow> rstring \<Rightarrow> (nat \<times> nat) option)"

definition abs_ledger :: "External \<Rightarrow> Connection \<Rightarrow> AbsLedger" where
  "abs_ledger E c = (history_of E c, key_of c)"

definition spec_append ::
  "rstring \<Rightarrow> rstring \<Rightarrow> DomainCommand \<Rightarrow> (AbsLedger, StoreError, StoredEvent list) comp" where
  "spec_append q k cmd a =
     (case append_spec (fst a q) (snd a q k) q k cmd of
        Inl e \<Rightarrow> (Inl e, a)
      | Inr (n, new) \<Rightarrow>
          (Inr (stored_events q n new),
           if snd a q k = None
           then ((fst a)(q := fst a q @ new), (snd a)(q := (snd a q)(k \<mapsto> (n, n + length new - 1))))
           else a))"

fun spec_stream ::
  "rstring \<Rightarrow> (rstring \<times> DomainCommand) list \<Rightarrow> (AbsLedger, StoreError, StoredEvent list) comp" where
  "spec_stream q [] = st_return []"
| "spec_stream q ((k, cmd) # rest) =
     st_bind (spec_append q k cmd) (\<lambda>cs.
     st_bind (spec_stream q rest) (\<lambda>more. st_return (cs @ more)))"

text \<open>The message a client sends for a command.\<close>

fun kind_of_command :: "DomainCommand \<Rightarrow> CmdKind" where
  "kind_of_command (CreateQuote cc jid) = CmdKind_CreateQuote cc jid"
| "kind_of_command (AddLineItem lid sk desc qty unit) = CmdKind_AddLineItem lid sk desc qty unit"
| "kind_of_command FinalizeQuote = CmdKind_FinalizeQuote"

definition frame_for :: "rstring \<Rightarrow> rstring \<times> DomainCommand \<Rightarrow> StreamItem" where
  "frame_for q kc =
     Frame \<lparr>req_client_command_id = fst kc, req_quote_id = q,
       req_command = Some \<lparr>command_kind = Some (kind_of_command (snd kc))\<rparr>\<rparr>"

lemma kind_of_command_inverse [simp]:
  "proto_command_to_domain \<lparr>command_kind = Some (kind_of_command cmd)\<rparr> = Inr cmd"
  by (cases cmd) (simp_all add: proto_command_to_domain_def)

lemma append_spec_fresh: "append_spec es None q k cmd = Inr (n, new) \<Longrightarrow> n = Suc (length es)"
  by (auto simp: append_spec_def result_simps)

lemma append_one_db_spec:
  assumes "ledger_inv E c" and "healthy c" and "Suc (length (history_of E c q)) < 2 ^ 63"
    and "append_one_db E q k cmd c = (r, c')"
  shows "ledger_inv E c' \<and> healthy c' \<and> spec_append q k cmd (abs_ledger E c) = (r, abs_ledger E c')"
proof (cases "append_spec (history_of E c q) (key_of c q k) q k cmd")
  case (Inl e)
  with append_one_db_run [OF assms(1,4)] assms(2,3) show ?thesis
    by (auto simp: abs_ledger_def spec_append_def same_history_def)
next
  case (Inr nn)
  then obtain n new where nn: "append_spec (history_of E c q) (key_of c q k) q k cmd = Inr (n, new)"
    by (cases nn) simp
  show ?thesis
  proof (cases "key_of c q k = None")
    case True
    with nn append_one_db_run [OF assms(1,4)] assms(2,3) show ?thesis
      by (auto simp: abs_ledger_def spec_append_def grown_history_def dest!: append_spec_fresh)
  next
    case False
    with nn append_one_db_run [OF assms(1,4)] assms(2,3) show ?thesis
      by (auto simp: abs_ledger_def spec_append_def same_history_def)
  qed
qed

lemma spec_append_length:
  assumes "spec_append q k cmd (abs_ledger E c) = (r, abs_ledger E c')" and "ledger_inv E c"
  shows "length (history_of E c' q) \<le> Suc (length (history_of E c q))"
proof -
  have one: "length new = 1" if "append_spec (history_of E c q) None q k cmd = Inr (n, new)" for n new
    using that decide_on_single [OF ledger_inv_history(2) [OF assms(2)]]
    by (fastforce simp: append_spec_def result_simps)
  have "history_of E c' = fst (snd (spec_append q k cmd (abs_ledger E c)))"
    using assms(1) by (simp add: abs_ledger_def)
  then show ?thesis
    by (auto simp: spec_append_def abs_ledger_def dest!: one split: sum.splits)
qed

lemma append_one_spec:
  assumes "ledger_inv E (conn l)" and "healthy (conn l)" and "Suc (length (history_of E (conn l) q)) < 2 ^ 63"
    and "append_one E W q k \<lparr>command_kind = Some (kind_of_command cmd)\<rparr> l = (r, l')"
  shows "\<exists>sr. spec_append q k cmd (abs_ledger E (conn l)) = (sr, abs_ledger E (conn l')) \<and>
    r = map_err store_error_to_status sr \<and> ledger_inv E (conn l') \<and> healthy (conn l')"
  using assms(4)
proof (cases rule: append_one_cases)
  case (failed dc e)
  with append_one_db_spec [OF assms(1-3)] show ?thesis by auto
next
  case (committed dc cs)
  with append_one_db_spec [OF assms(1-3)] show ?thesis by auto
qed simp

lemma unat_below_step: "unat (n :: u64) < unat (m :: u64) \<Longrightarrow> unat (n + 1) = Suc (unat n)"
proof -
  assume less: "unat n < unat m"
  have "1 + n \<noteq> 0"
  proof
    assume "1 + n = 0"
    then have "n = -1" by (metis add.commute eq_neg_iff_add_eq_0)
    with less show False by (simp flip: word_less_nat_alt)
  qed
  then show ?thesis by (metis add.commute unatSuc)
qed

lemma frame_for_run:
  assumes "valid_id q" and "valid_id k" and "stream_quote_id st \<in> {None, Some q}"
    and "unat (command_count st) < unat (append_max_commands lim)"
  shows "append_commands_loop E W lim st (frame_for q (k, cmd) # items) =
    st_bind (append_one E W q k \<lparr>command_kind = Some (kind_of_command cmd)\<rparr>) (\<lambda>cs.
      append_commands_loop E W lim (after_frame st q cs) items)"
proof -
  have ids: "validate_identifier f v = Inr ()" if "valid_id v" for f v
    using that by (simp add: validate_identifier_Inr)
  have "unat (command_count st + 1) \<le> unat (append_max_commands lim)"
    using assms(4) unat_below_step [OF assms(4)] by simp
  then show ?thesis
    using assms(1-3)
    by (auto simp: frame_for_def append_commands_frame_run frame_checks_def ids st_bind_def st_lift_run
        st_return_run fun_eq_iff split: prod.splits sum.splits)
qed

text \<open>How the end of the loop after \<open>n\<close> messages answers the result of the specification\<close>

definition loop_answers ::
  "rstring \<Rightarrow> nat \<Rightarrow> AppendStream \<Rightarrow> StoreError + StoredEvent list \<Rightarrow> Status + AppendStream \<Rightarrow> bool" where
  "loop_answers q n st sr r \<longleftrightarrow>
     (case sr of
        Inl e \<Rightarrow> r = Inl (store_error_to_status e)
      | Inr cs \<Rightarrow> \<exists>st'. r = Inr st' \<and> stream_committed st' = stream_committed st @ cs \<and>
          stream_last_seq st' = (if cs = [] then stream_last_seq st else seq (last cs)) \<and>
          stream_quote_id st' = (if n = 0 then stream_quote_id st else Some q) \<and>
          unat (command_count st') = unat (command_count st) + n)"

lemma loop_answers_Cons:
  assumes "loop_answers q n (after_frame st q cs) sr r" and "unat (command_count st + 1) = Suc (unat (command_count st))"
  shows "loop_answers q (Suc n) st (and_then sr (\<lambda>cs'. Inr (cs @ cs'))) r"
  using assms by (cases sr) (auto simp: loop_answers_def)

lemma spec_stream_Cons:
  "spec_append q k cmd a = (Inr cs, a1) \<Longrightarrow> spec_stream q kcs a1 = (sr, a2) \<Longrightarrow>
     spec_stream q ((k, cmd) # kcs) a = (and_then sr (\<lambda>cs'. Inr (cs @ cs')), a2)"
  by (cases sr) (simp_all add: st_bind_def st_return_run)

lemma append_commands_loop_spec:
  assumes "valid_id q" and "\<forall>kc \<in> set kcs. valid_id (fst kc)" and "stream_quote_id st \<in> {None, Some q}"
    and "unat (command_count st) + length kcs \<le> unat (append_max_commands lim)"
    and "ledger_inv E (conn l)" and "healthy (conn l)" and "length (history_of E (conn l) q) + length kcs < 2 ^ 63"
    and "append_commands_loop E W lim st (List.map (frame_for q) kcs) l = (r, l')"
  shows "\<exists>sr. spec_stream q kcs (abs_ledger E (conn l)) = (sr, abs_ledger E (conn l')) \<and>
    loop_answers q (length kcs) st sr r \<and> ledger_inv E (conn l') \<and> healthy (conn l')"
  using assms(2-8)
proof (induction kcs arbitrary: st l)
  case Nil
  then show ?case by (auto simp: st_return_run loop_answers_def)
next
  case (Cons kc kcs)
  obtain k cmd where kc: "kc = (k, cmd)" by (cases kc)
  obtain r1 l1 where run: "append_one E W q k \<lparr>command_kind = Some (kind_of_command cmd)\<rparr> l = (r1, l1)"
    by fastforce
  have room: "Suc (length (history_of E (conn l) q)) < 2 ^ 63" using Cons.prems(6) by simp
  from append_one_spec [OF Cons.prems(4,5) room run] obtain sr where
    sr: "spec_append q k cmd (abs_ledger E (conn l)) = (sr, abs_ledger E (conn l1))"
    and r1: "r1 = map_err store_error_to_status sr" and inv: "ledger_inv E (conn l1)" and h: "healthy (conn l1)"
    by blast
  have below: "unat (command_count st) < unat (append_max_commands lim)" using Cons.prems(3) by simp
  note step = unat_below_step [OF below]
  have loop: "(r, l') = st_bind (\<lambda>_. (r1, l1)) (\<lambda>cs.
      append_commands_loop E W lim (after_frame st q cs) (List.map (frame_for q) kcs)) l"
    using Cons.prems(1,2,7) run by (simp add: kc frame_for_run [OF assms(1) _ _ below] st_bind_def)
  show ?case
  proof (cases sr)
    case (Inl e)
    with sr r1 loop inv h show ?thesis by (auto simp: kc st_bind_def loop_answers_def)
  next
    case (Inr cs)
    have len: "length (history_of E (conn l1) q) + length kcs < 2 ^ 63"
      using spec_append_length [OF sr Cons.prems(4)] Cons.prems(6) by simp
    from loop Inr r1 have "append_commands_loop E W lim (after_frame st q cs) (List.map (frame_for q) kcs) l1 = (r, l')"
      by (simp add: st_bind_def)
    from Cons.IH [OF _ _ _ inv h len this] Cons.prems(1,3) step obtain sr2 where
      sr2: "spec_stream q kcs (abs_ledger E (conn l1)) = (sr2, abs_ledger E (conn l'))"
        "loop_answers q (length kcs) (after_frame st q cs) sr2 r" and "ledger_inv E (conn l')" "healthy (conn l')"
      by auto
    with spec_stream_Cons [OF sr [unfolded Inr] sr2(1)] loop_answers_Cons [OF sr2(2) step] show ?thesis
      by (auto simp: kc)
  qed
qed

lemma append_commands_loop_append:
  "append_commands_loop E W lim st (xs @ ys) l =
   st_bind (append_commands_loop E W lim st xs) (\<lambda>st'. append_commands_loop E W lim st' ys) l"
  by (induction E W lim st xs arbitrary: l rule: append_commands_loop.induct)
    (auto simp: st_bind_def st_return_def st_lift_def count_stream_def split: prod.split sum.split)

lemma append_commands_frame_in_flight:
  "append_commands_frame E W lim st msg l = (r, l') \<Longrightarrow> in_flight_appends l' = in_flight_appends l"
  by (cases rule: append_commands_frame_cases) auto

lemma append_commands_loop_in_flight:
  "append_commands_loop E W lim st items l = (r, l') \<Longrightarrow> in_flight_appends l' = in_flight_appends l"
proof (induction items arbitrary: st l)
  case (Cons item items)
  show ?case
  proof (cases item)
    case (Frame msg)
    obtain r1 l1 where run: "append_commands_frame E W lim st msg l = (r1, l1)" by fastforce
    with Cons Frame append_commands_frame_in_flight [OF run] show ?thesis
      by (cases r1) (auto simp: st_bind_def)
  qed (use Cons.prems in \<open>auto simp: count_stream_def st_bind_def st_lift_run\<close>)
qed (simp add: st_return_run)

section \<open>Properties\<close>

definition sample_watch :: "(u64 \<times> nat, nat) WatchOps" where
  "sample_watch =
     \<lparr>watch_channel = (\<lambda>v. (v, 0)), send_replace = (\<lambda>w v. (v, Suc (snd w))), watch_subscribe = snd,
      borrow = fst, has_changed = (\<lambda>w r. r < snd w), mark_seen = (\<lambda>w r. snd w),
      receiver_of = (\<lambda>w r. r \<le> snd w)\<rparr>"

definition sample_commands :: "(rstring \<times> DomainCommand) list" where
  "sample_commands =
     [(''c1'', CreateQuote ''USD'' ''US-CA''), (''c2'', AddLineItem ''L1'' ''SKU'' ''Widget'' 2 5000),
      (''c1'', CreateQuote ''USD'' ''US-CA'')]"

lemma fresh_ledger:
  "healthy (conn (new_ledger (fresh_db [])))"
  "history_of E (conn (new_ledger (fresh_db os))) q = []"
  by (simp_all add: new_ledger_def fresh_db_def healthy_def history_of_def log_of_def quote_rows_def)

lemma sample_watch_ok: "watch_ok sample_watch"
  by (simp add: watch_ok_def sample_watch_def)

text \<open>
  C1: An AppendCommands stream of well-formed messages on one quote, within the limit and on a
  healthy database, refines the sequence of abstract appends: the histories and keys afterwards
  are the specified ones, and the response is the specified events with the number of the last
  one, or the status of the specified error.  Retried keys within the stream are covered.
\<close>

theorem append_commands_refines:
  assumes "valid_id q" and "\<forall>kc \<in> set kcs. valid_id (fst kc)" and "kcs \<noteq> []"
    and "length kcs \<le> unat (append_max_commands lim)"
    and "ledger_inv E (conn l)" and "healthy (conn l)" and "length (history_of E (conn l) q) + length kcs < 2 ^ 63"
    and "append_commands E W lim (List.map (frame_for q) kcs) l = (r, l')"
    and "spec_stream q kcs (abs_ledger E (conn l)) = (sr, a)"
  shows "abs_ledger E (conn l') = a \<and>
    r = map_err store_error_to_status (and_then sr (\<lambda>cs.
      Inr \<lparr>last_committed_seq = seq_of_last cs, committed = cs\<rparr>))"
proof -
  obtain r1 l1 where run: "append_commands_loop E W lim AppendStream_start (List.map (frame_for q) kcs) l = (r1, l1)"
    by fastforce
  with append_commands_loop_spec [OF assms(1,2) _ _ assms(5-7) run] assms(4,9) have
    "a = abs_ledger E (conn l1)" "loop_answers q (length kcs) AppendStream_start sr r1"
    by (auto simp: AppendStream_start_def)
  with assms(3,8) run show ?thesis
    by (cases sr) (auto simp: loop_answers_def AppendStream_start_def seq_of_last_def append_commands_def st_bind_def count_stream_def st_return_run)
qed

theorem append_commands_refines_witness:
  "fst (append_commands sample_external sample_watch ReliabilityLimits_default
      (List.map (frame_for ''q'') sample_commands) (new_ledger (fresh_db []))) =
   Inr \<lparr>last_committed_seq = 1, committed = stored_events ''q'' 1
     [QuoteCreated ''USD'' ''US-CA'', LineItemAdded ''L1'' ''SKU'' ''Widget'' 2 5000] @
     stored_events ''q'' 1 [QuoteCreated ''USD'' ''US-CA'']\<rparr>"
proof -
  let ?l = "new_ledger (fresh_db []) :: (u64 \<times> nat) Ledger"
  obtain r l' where run: "append_commands sample_external sample_watch ReliabilityLimits_default
      (List.map (frame_for ''q'') sample_commands) ?l = (r, l')" by fastforce
  obtain sr a where spec: "spec_stream ''q'' sample_commands (abs_ledger sample_external (conn ?l)) = (sr, a)"
    by (rule prod.exhaust)
  have "fst (spec_stream ''q'' sample_commands (abs_ledger sample_external (fresh_db []))) =
      Inr (stored_events ''q'' 1 [QuoteCreated ''USD'' ''US-CA'', LineItemAdded ''L1'' ''SKU'' ''Widget'' 2 5000] @
        stored_events ''q'' 1 [QuoteCreated ''USD'' ''US-CA''])"
    by code_simp
  with spec have sr: "sr = Inr (stored_events ''q'' 1 [QuoteCreated ''USD'' ''US-CA'', LineItemAdded ''L1'' ''SKU'' ''Widget'' 2 5000] @
        stored_events ''q'' 1 [QuoteCreated ''USD'' ''US-CA''])"
    by (simp add: new_ledger_def)
  have "valid_id ''q''" "\<forall>kc \<in> set sample_commands. valid_id (fst kc)" "sample_commands \<noteq> []"
    "length sample_commands \<le> unat (append_max_commands ReliabilityLimits_default)"
    by code_simp+
  moreover have "healthy (conn ?l)" "length (history_of sample_external (conn ?l) ''q'') + length sample_commands < 2 ^ 63"
    by (simp_all add: fresh_ledger sample_commands_def)
  moreover have "ledger_inv sample_external (conn ?l)"
    using ledger_inv_fresh [OF sample_codec_ok] by (simp add: new_ledger_def)
  ultimately have "r = Inr \<lparr>last_committed_seq = 1, committed = stored_events ''q'' 1
     [QuoteCreated ''USD'' ''US-CA'', LineItemAdded ''L1'' ''SKU'' ''Widget'' 2 5000] @
     stored_events ''q'' 1 [QuoteCreated ''USD'' ''US-CA'']\<rparr>"
    using append_commands_refines [OF _ _ _ _ _ _ _ run spec] sr
    by (simp add: seq_of_last_def stored_events_def)
  with run show ?thesis by simp
qed

text \<open>
  C23: Whatever the client sends and however the call ends, the database runs the appends of a
  prefix of the stream in order, all on one quote under valid identifiers and no more than the
  limit; a call that succeeds ran every message, at least one, and answers with the number of
  its last committed event.  (The limit of the largest 64-bit number is excluded.)
\<close>

theorem append_commands_runs_prefix:
  assumes "append_max_commands lim \<noteq> -1" and "append_commands E W lim items l = (r, l')"
  shows "\<exists>reqs. conn l' = run_appends E reqs (conn l) \<and>
    prefix (List.map Some reqs) (List.map item_request items) \<and>
    length reqs \<le> unat (append_max_commands lim) \<and>
    (\<exists>q. \<forall>(q', k, dc) \<in> set reqs. q' = q \<and> valid_id q \<and> valid_id k) \<and>
    (case r of
       Inl _ \<Rightarrow> True
     | Inr resp \<Rightarrow> reqs \<noteq> [] \<and> List.map Some reqs = List.map item_request items \<and>
         last_committed_seq resp = seq_of_last (committed resp))"
proof -
  obtain r1 l1 where run: "append_commands_loop E W lim AppendStream_start items l = (r1, l1)" by fastforce
  have "unat (command_count AppendStream_start) \<le> unat (append_max_commands lim)"
    by (simp add: AppendStream_start_def)
  from append_commands_loop_runs [OF assms(1) this run] obtain reqs where
    reqs: "conn l1 = run_appends E reqs (conn l)" "ran_as lim AppendStream_start items reqs r1" by blast
  have "conn l' = conn l1"
    using assms(2) run
    by (auto simp: append_commands_def st_bind_def count_stream_def st_return_run st_lift_run
        split: sum.splits option.splits)
  moreover have "case r of Inl _ \<Rightarrow> True | Inr resp \<Rightarrow> \<exists>st'. r1 = Inr st' \<and> stream_quote_id st' \<noteq> None \<and>
      last_committed_seq resp = stream_last_seq st' \<and> committed resp = stream_committed st'"
    using assms(2) run
    by (auto simp: append_commands_def st_bind_def count_stream_def st_return_run st_lift_run
        split: sum.splits option.splits)
  ultimately show ?thesis
    using reqs
    by (intro exI [of _ reqs])
      (auto simp: ran_as_def AppendStream_start_def seq_of_last_def split: sum.splits)
qed

theorem append_commands_runs_prefix_witness:
  "\<exists>reqs. conn (snd (append_commands sample_external sample_watch ReliabilityLimits_default
        [frame_for ''q'' (''c1'', CreateQuote ''USD'' ''US-CA''), IdleTimeout] (new_ledger (fresh_db [])))) =
      run_appends sample_external reqs (fresh_db []) \<and>
    length reqs \<le> 512"
proof -
  let ?items = "[frame_for ''q'' (''c1'', CreateQuote ''USD'' ''US-CA''), IdleTimeout]"
  let ?l = "new_ledger (fresh_db []) :: (u64 \<times> nat) Ledger"
  obtain r l' where run: "append_commands sample_external sample_watch ReliabilityLimits_default ?items ?l = (r, l')"
    by fastforce
  have "append_max_commands ReliabilityLimits_default \<noteq> -1"
    by (simp add: ReliabilityLimits_default_def)
  from append_commands_runs_prefix [OF this run] show ?thesis
    using run by (auto simp: new_ledger_def ReliabilityLimits_default_def)
qed

text \<open>
  C14: The message after the last one the limit allows, whatever it holds, is refused with
  RESOURCE_EXHAUSTED and counted as \<open>too_many\<close>, and the appends before it stay committed: the
  histories and keys are those of the specification of exactly these appends.
\<close>

theorem stream_over_limit:
  assumes "valid_id q" and "\<forall>kc \<in> set kcs. valid_id (fst kc)"
    and "length kcs = unat (append_max_commands lim)" and "append_max_commands lim \<noteq> -1"
    and "ledger_inv E (conn l)" and "healthy (conn l)" and "length (history_of E (conn l) q) + length kcs < 2 ^ 63"
    and "spec_stream q kcs (abs_ledger E (conn l)) = (Inr cs, a)"
    and "append_commands E W lim (List.map (frame_for q) kcs @ Frame msg # rest) l = (r, l')"
  shows "r = Inl (status ResourceExhausted
      (''append_commands stream exceeds max '' @ show_nat (length kcs) @ '' commands'')) \<and>
    abs_ledger E (conn l') = a \<and>
    counted l' \<noteq> [] \<and> last (counted l') = (''quote_ledger_append_commands_streams_total'', ''too_many'')"
proof -
  obtain r1 l1 where run: "append_commands_loop E W lim AppendStream_start (List.map (frame_for q) kcs) l = (r1, l1)"
    by fastforce
  with append_commands_loop_spec [OF assms(1,2) _ _ assms(5-7) run] assms(3,8)
  obtain st where st: "r1 = Inr st" "unat (command_count st) = length kcs" and a: "a = abs_ledger E (conn l1)"
    by (auto simp: loop_answers_def AppendStream_start_def)
  have "unat (command_count st + 1) = Suc (length kcs)"
    using unat_count_step [OF assms(4), of "command_count st"] st(2) assms(3) by simp
  with run st assms(3) have "append_commands_loop E W lim AppendStream_start (List.map (frame_for q) kcs @ Frame msg # rest) l =
      (Inl (status ResourceExhausted (''append_commands stream exceeds max '' @ show_nat (length kcs) @ '' commands'')),
       count_metric ''quote_ledger_append_commands_streams_total'' ''too_many'' l1)"
    by (simp add: append_commands_loop_append st_bind_def append_commands_frame_def Let_def count_stream_def st_lift_run)
  with assms(9) a show ?thesis by (auto simp: append_commands_def st_bind_def)
qed

theorem stream_over_limit_witness:
  "fst (append_commands sample_external sample_watch \<lparr>append_idle_timeout = 10, append_max_commands = 1\<rparr>
      (List.map (frame_for ''q'') [(''c1'', CreateQuote ''USD'' ''US'')] @ Frame
         \<lparr>req_client_command_id = ''c2'', req_quote_id = ''q'', req_command = None\<rparr> # [])
      (new_ledger (fresh_db []))) =
    Inl (status ResourceExhausted ''append_commands stream exceeds max 1 commands'')"
proof -
  let ?kcs = "[(''c1'', CreateQuote ''USD'' ''US'')]"
  let ?msg = "\<lparr>req_client_command_id = ''c2'', req_quote_id = ''q'', req_command = None\<rparr>"
  let ?lim = "\<lparr>append_idle_timeout = 10, append_max_commands = 1\<rparr>"
  let ?l = "new_ledger (fresh_db []) :: (u64 \<times> nat) Ledger"
  obtain r l' where run: "append_commands sample_external sample_watch ?lim
      (List.map (frame_for ''q'') ?kcs @ Frame ?msg # []) ?l = (r, l')" by fastforce
  have "fst (spec_stream ''q'' ?kcs (abs_ledger sample_external (conn ?l))) =
      Inr (stored_events ''q'' 1 [QuoteCreated ''USD'' ''US''])" by code_simp
  then have spec: "spec_stream ''q'' ?kcs (abs_ledger sample_external (conn ?l)) =
      (Inr (stored_events ''q'' 1 [QuoteCreated ''USD'' ''US'']), snd (spec_stream ''q'' ?kcs (abs_ledger sample_external (conn ?l))))"
    by (metis prod.collapse)
  have "valid_id ''q''" "\<forall>kc \<in> set ?kcs. valid_id (fst kc)" "show_nat (length ?kcs) = ''1''"
    by code_simp+
  moreover have "healthy (conn ?l)" "length (history_of sample_external (conn ?l) ''q'') + length ?kcs < 2 ^ 63"
    by (simp_all add: fresh_ledger)
  moreover have "ledger_inv sample_external (conn ?l)"
    using ledger_inv_fresh [OF sample_codec_ok] by (simp add: new_ledger_def)
  ultimately show ?thesis
    using stream_over_limit [OF _ _ _ _ _ _ _ spec run] run by simp
qed

text \<open>
  The in-flight counter, which the shutdown waits on, is back at its value whatever way a
  stream of appends ends.
\<close>

theorem in_flight_balanced:
  "in_flight_appends (snd (append_commands E W lim items l)) = in_flight_appends l"
proof -
  obtain r1 l1 where run: "append_commands_loop E W lim AppendStream_start items l = (r1, l1)" by fastforce
  then have "in_flight_appends l1 = in_flight_appends l" by (rule append_commands_loop_in_flight)
  with run show ?thesis
    by (auto simp: append_commands_def st_bind_def count_stream_def st_return_run st_lift_run split: sum.split option.split)
qed

text \<open>
  C36: An identifier is accepted exactly when it is non-empty, has at most 128 bytes, and has only
  ASCII letters, digits and the characters - _ : and dot; every other one is an INVALID_ARGUMENT.
\<close>

theorem identifier_check:
  "case validate_identifier field v of
     Inr _ \<Rightarrow> v \<noteq> [] \<and> length v \<le> 128 \<and> list_all id_char v
   | Inl st \<Rightarrow> \<not> (v \<noteq> [] \<and> length v \<le> 128 \<and> list_all id_char v) \<and> code st = InvalidArgument"
proof (cases "validate_identifier field v")
  case (Inl st)
  then have "\<not> valid_id v" using validate_identifier_Inr [of field v] by fastforce
  with Inl validate_identifier_code [OF Inl] show ?thesis by (auto simp: valid_id_def MAX_ID_LEN_def)
next
  case (Inr u)
  then have "valid_id v" by (simp add: validate_identifier_Inr)
  with Inr show ?thesis by (simp add: valid_id_def MAX_ID_LEN_def)
qed

end
