(* ===== verification/Subscribe.thy ===== *)
theory Subscribe
  imports Append_Stream
begin

text \<open>
  \<open>subscribe_quote\<close> of \<open>src/ledger.rs\<close>: the bounded retries of \<open>subscribe_load_between\<close>, the
  reads and the registration of the handler, and the spawned task that sends the catch-up tail,
  the snapshot and the live tails.  The task is a \<open>Pump\<close>: its local variables, what it sent on
  the channel to the client, and whether the client still takes messages (one entry of \<open>sends\<close>
  per call of \<open>tx.send\<close>, \<open>False\<close> once the receiver is dropped; a list that is used up accepts).
\<close>

section \<open>Bounded retries\<close>

definition SUBSCRIBE_DB_MAX_ATTEMPTS :: nat where
  "SUBSCRIBE_DB_MAX_ATTEMPTS = 8"

definition SUBSCRIBE_DB_BACKOFF_START_MS :: u64 where
  "SUBSCRIBE_DB_BACKOFF_START_MS = 10"

definition SUBSCRIBE_DB_BACKOFF_CAP_MS :: u64 where
  "SUBSCRIBE_DB_BACKOFF_CAP_MS = 500"

definition saturating_mul :: "u64 \<Rightarrow> u64 \<Rightarrow> u64" where
  "saturating_mul a b = (if uint a * uint b < 2 ^ 64 then a * b else -1)"

definition sleep_ms :: "u64 \<Rightarrow> 'w Ledger \<Rightarrow> 'w Ledger" where
  "sleep_ms ms l = l\<lparr>slept := slept l @ [unat ms]\<rparr>"

definition next_backoff :: "u64 \<Rightarrow> u64" where
  "next_backoff backoff_ms =
     (let b = saturating_mul backoff_ms 2
      in if unat SUBSCRIBE_DB_BACKOFF_CAP_MS < unat b then SUBSCRIBE_DB_BACKOFF_CAP_MS else b)"

text \<open>The loop over the attempts, with the number left, the attempt and the two variables.\<close>

fun load_attempts ::
  "External \<Rightarrow> rstring \<Rightarrow> u64 \<Rightarrow> u64 \<Rightarrow> nat \<Rightarrow> nat \<Rightarrow> u64 \<Rightarrow> Status option \<Rightarrow> ('w, StoredEvent list) svc" where
  "load_attempts E q a u 0 attempt backoff_ms last_err l =
     (Inl (case last_err of Some e \<Rightarrow> e | None \<Rightarrow> status Internal ''subscribe db load failed''),
      count_metric ''quote_ledger_subscribe_stream_terminal_errors_total'' ''db_load_between'' l)"
| "load_attempts E q a u (Suc left) attempt backoff_ms last_err l =
     (let (l1, backoff1) =
        (if 0 < attempt
         then (sleep_ms backoff_ms (count_metric ''quote_ledger_subscribe_db_retries_total'' '''' l),
               next_backoff backoff_ms)
         else (l, backoff_ms))
      in case on_db (load_stored_events_between E q a u) l1 of
           (Inr evs, l2) \<Rightarrow> (Inr evs, l2)
         | (Inl e, l2) \<Rightarrow>
             load_attempts E q a u left (Suc attempt) backoff1 (Some e)
               (count_metric ''quote_ledger_subscribe_db_load_failures_total'' '''' l2))"

definition subscribe_load_between :: "External \<Rightarrow> rstring \<Rightarrow> u64 \<Rightarrow> u64 \<Rightarrow> ('w, StoredEvent list) svc" where
  "subscribe_load_between E q a u =
     load_attempts E q a u SUBSCRIBE_DB_MAX_ATTEMPTS 0 SUBSCRIBE_DB_BACKOFF_START_MS None"

section \<open>The task of a subscriber\<close>

datatype PumpPhase = CatchingUp | Waiting | Finished

record 'r Pump =
  pump_quote :: rstring
  pump_after :: u64
  watermark :: u64
  rx_watch :: 'r
  sent :: "(Status + QuoteUpdate) list"
  sends :: "bool list"
  phase :: PumpPhase

text \<open>\<open>tx.send(x).await\<close>, with whether it succeeded\<close>

definition push :: "Status + QuoteUpdate \<Rightarrow> 'r Pump \<Rightarrow> bool \<times> 'r Pump" where
  "push x p =
     (case sends p of
        False # _ \<Rightarrow> (False, p)
      | bs \<Rightarrow> (True, p\<lparr>sent := sent p @ [x], sends := tl bs\<rparr>))"

definition finish :: "'r Pump \<Rightarrow> 'r Pump" where
  "finish p = p\<lparr>phase := Finished\<rparr>"

definition tail_update :: "u64 \<Rightarrow> StoredEvent list \<Rightarrow> QuoteUpdate" where
  "tail_update from_seq evs =
     \<lparr>update_kind = Some (Tail
        \<lparr>from_seq_exclusive = from_seq, to_seq_inclusive = (if evs = [] then from_seq else seq (last evs)),
         tail_events = evs\<rparr>)\<rparr>"

text \<open>The catch-up tail and the snapshot: lines 451 to 476.\<close>

definition pump_start :: "SubscribeInit \<Rightarrow> 'r Pump \<Rightarrow> 'r Pump" where
  "pump_start init p =
     (let (ok, p) = (if init_catchup init = [] then (True, p)
                     else push (Inr (tail_update (pump_after p) (init_catchup init))) p)
      in if \<not> ok then finish p
         else
           let snap = \<lparr>update_kind = Some (Snapshot
                         \<lparr>last_seq = init_last_seq init, view = Some (init_view init)\<rparr>)\<rparr>;
               (ok, p) = push (Inr snap) p
           in if \<not> ok then finish p else p\<lparr>watermark := init_last_seq init\<rparr>)"

text \<open>The check for a head that moved since the reads: lines 478 to 505.\<close>

definition pump_catch_up :: "External \<Rightarrow> u64 \<Rightarrow> 'w Ledger \<Rightarrow> 'r Pump \<Rightarrow> 'w Ledger \<times> 'r Pump" where
  "pump_catch_up E head_now l p =
     (if unat (watermark p) < unat head_now then
        (case subscribe_load_between E (pump_quote p) (watermark p) head_now l of
           (Inr chunk, l) \<Rightarrow>
             if chunk = [] then (l, p\<lparr>watermark := head_now, phase := Waiting\<rparr>)
             else
               let (ok, p) = push (Inr (tail_update (watermark p) chunk)) p
               in if \<not> ok then (l, finish p) else (l, p\<lparr>watermark := head_now, phase := Waiting\<rparr>)
         | (Inl st, l) \<Rightarrow> (l, finish (snd (push (Inl st) p))))
      else (l, p\<lparr>phase := Waiting\<rparr>))"

text \<open>One round of the loop after \<open>changed()\<close> returned: lines 511 to 543.\<close>

definition pump_wake :: "External \<Rightarrow> u64 \<Rightarrow> 'w Ledger \<Rightarrow> 'r Pump \<Rightarrow> 'w Ledger \<times> 'r Pump" where
  "pump_wake E head l p =
     (if unat head \<le> unat (watermark p) then (l, p)
      else
        case subscribe_load_between E (pump_quote p) (watermark p) head l of
          (Inl st, l) \<Rightarrow> (l, finish (snd (push (Inl st) p)))
        | (Inr chunk, l) \<Rightarrow>
            if chunk = [] then (l, p\<lparr>watermark := head\<rparr>)
            else
              let (ok, p) = push (Inr (tail_update (watermark p) chunk)) p
              in if \<not> ok then (l, finish p) else (l, p\<lparr>watermark := head\<rparr>))"

section \<open>The handler\<close>

text \<open>The registration under the lock of the bus: lines 430 to 437.\<close>

definition register :: "('w, 'r) WatchOps \<Rightarrow> rstring \<Rightarrow> u64 \<Rightarrow> 'w Ledger \<Rightarrow> 'r \<times> 'w Ledger" where
  "register W q head l =
     (let tx = (case bus l q of Some tx \<Rightarrow> tx | None \<Rightarrow> watch_channel W head);
          tx = send_replace W tx head
      in (watch_subscribe W tx, l\<lparr>bus := (bus l)(q \<mapsto> tx)\<rparr>))"

definition new_pump :: "rstring \<Rightarrow> u64 \<Rightarrow> 'r \<Rightarrow> bool list \<Rightarrow> 'r Pump" where
  "new_pump q after rx bs =
     \<lparr>pump_quote = q, pump_after = after, watermark = after, rx_watch = rx, sent = [], sends = bs,
      phase = CatchingUp\<rparr>"

definition subscribe_quote ::
  "External \<Rightarrow> ('w, 'r) WatchOps \<Rightarrow> SubscribeQuoteRequest \<Rightarrow> bool list \<Rightarrow> ('w, 'r Pump) svc" where
  "subscribe_quote E W req bs =
     st_bind (st_lift (validate_identifier ''quote_id'' (sub_quote_id req))) (\<lambda>_.
     st_bind (\<lambda>l. (Inr (), count_metric ''quote_ledger_subscribe_streams_total'' '''' l)) (\<lambda>_.
     st_bind (on_db (subscribe_db E (sub_quote_id req) (after_seq req))) (\<lambda>init l.
       let (rx, l) = register W (sub_quote_id req) (init_last_seq init) l
       in (Inr (pump_start init (new_pump (sub_quote_id req) (after_seq req) rx bs)), l))))"

section \<open>Lemmas\<close>

text \<open>The two copies of the delivery code agree but for the phase.\<close>

lemma pump_catch_up_wake:
  "pump_catch_up E head l p = pump_wake E head l (p\<lparr>phase := Waiting\<rparr>)"
proof (cases "subscribe_load_between E (pump_quote p) (watermark p) head l")
  case (Pair r l1)
  then show ?thesis
    by (cases r; cases "sends p")
      (auto simp: pump_catch_up_def pump_wake_def push_def finish_def Let_def not_less split: bool.splits)
qed

text \<open>The pauses before the next \<open>n\<close> attempts.\<close>

fun waits :: "nat \<Rightarrow> u64 \<Rightarrow> nat list" where
  "waits 0 b = []"
| "waits (Suc n) b = unat b # waits n (next_backoff b)"

definition failures :: "Connection \<Rightarrow> nat" where
  "failures c = length (takeWhile (\<lambda>x. x \<noteq> None) (outcomes c))"

lemma failures_outcome:
  "outcome c = None \<Longrightarrow> failures c = 0"
  "outcome c = Some e \<Longrightarrow> failures c = Suc (failures (advance c)) \<and> hd (outcomes c) = Some e \<and> outcomes c \<noteq> []"
  by (cases "outcomes c"; auto simp: failures_def outcome_def advance_def)+

definition range_of :: "External \<Rightarrow> Connection \<Rightarrow> rstring \<Rightarrow> u64 \<Rightarrow> u64 \<Rightarrow> StoredEvent list" where
  "range_of E c q a u = stored_events q (Suc (unat a)) (drop (unat a) (take (unat u) (history_of E c q)))"

lemma load_between_history:
  assumes "ledger_inv E c" and "unat a < unat u" and "unat u < 2 ^ 63"
  shows "load_stored_events_between E q a u c =
    (case outcome c of Some e \<Rightarrow> Inl (Sqlite e) | None \<Rightarrow> Inr (range_of E c q a u), advance c)"
proof -
  have "log_of E c q = List.map domain_event_to_proto (history_of E c q)" "db_inv E c"
    using assms(1) by (rule ledger_inv_history)+
  with assms(2,3) show ?thesis
    by (simp add: load_between_run db_inv_def range_of_def stored_events_def drop_map take_map not_le split: option.split)
qed

lemma ledger_inv_advance [simp]: "ledger_inv E (advance c) = ledger_inv E c"
  by (simp add: ledger_inv_def db_inv_def history_of_def)

lemma history_of_advance [simp]: "history_of E (advance c) = history_of E c"
  by (simp add: history_of_def fun_eq_iff)

lemma key_of_advance [simp]: "key_of (advance c) = key_of c"
  by (rule key_of_tables) simp

lemma range_of_advance [simp]: "range_of E (advance c) q a u = range_of E c q a u"
  by (simp add: range_of_def)

definition load_result :: "External \<Rightarrow> Connection \<Rightarrow> rstring \<Rightarrow> u64 \<Rightarrow> u64 \<Rightarrow> nat \<Rightarrow> Status \<Rightarrow> Status + StoredEvent list" where
  "load_result E c q a u n err =
     (if failures c < n then Inr (range_of E c q a u)
      else Inl (if n = 0 then err else status Internal (the (outcomes c ! (n - 1)))))"

lemma load_result_fail:
  assumes "outcome c = Some e"
  shows "load_result E c q a u (Suc n) err = load_result E (advance c) q a u n (status Internal e)"
proof -
  have "outcomes c = Some e # outcomes (advance c)"
    using assms by (cases "outcomes c") (auto simp: outcome_def advance_def)
  with failures_outcome(2) [OF assms] show ?thesis by (cases n) (simp_all add: load_result_def)
qed

definition untouched :: "External \<Rightarrow> 'w Ledger \<Rightarrow> 'w Ledger \<Rightarrow> bool" where
  "untouched E l l' \<longleftrightarrow>
     abs_ledger E (conn l') = abs_ledger E (conn l) \<and> ledger_inv E (conn l') \<and> bus l' = bus l \<and>
     in_flight_appends l' = in_flight_appends l \<and> (healthy (conn l) \<longrightarrow> healthy (conn l'))"

lemma load_attempts_retry:
  assumes "unat a < unat u" and "unat u < 2 ^ 63" and "ledger_inv E (conn l)"
    and "load_attempts E q a u n (Suc att) b (Some err) l = (r, l')"
  shows "r = load_result E (conn l) q a u n err \<and>
    slept l' = slept l @ waits (min n (Suc (failures (conn l)))) b \<and> untouched E l l'"
  using assms(3,4)
proof (induction n arbitrary: att b err l)
  case 0
  then show ?case by (auto simp: load_result_def untouched_def)
next
  case (Suc n)
  show ?case
  proof (cases "outcome (conn l)")
    case None
    with Suc.prems load_between_history [OF Suc.prems(1) assms(1,2)] failures_outcome(1) [OF None] show ?thesis
      by (auto simp: on_db_def sleep_ms_def load_result_def untouched_def abs_ledger_def)
  next
    case (Some e)
    let ?l = "(count_metric ''quote_ledger_subscribe_db_load_failures_total'' ''''
       ((sleep_ms b (count_metric ''quote_ledger_subscribe_db_retries_total'' '''' l))\<lparr>conn := advance (conn l)\<rparr>))"
    have "load_attempts E q a u n (Suc (Suc att)) (next_backoff b) (Some (status Internal e)) ?l = (r, l')"
      using Suc.prems(2) Some load_between_history [OF Suc.prems(1) assms(1,2)]
      by (simp add: on_db_def sleep_ms_def store_error_to_status_def)
    from Suc.IH [OF _ this] Suc.prems(1) Some failures_outcome(2) [OF Some] show ?thesis
      by (auto simp: sleep_ms_def load_result_fail [OF Some] untouched_def abs_ledger_def)
  qed
qed

lemma subscribe_load_between_run:
  assumes "unat a < unat u" and "unat u < 2 ^ 63" and "ledger_inv E (conn l)"
    and "subscribe_load_between E q a u l = (r, l')"
  shows "r = load_result E (conn l) q a u 8 err \<and>
    slept l' = slept l @ waits (min 7 (failures (conn l))) 10 \<and> untouched E l l'"
proof -
  have run: "load_attempts E q a u (Suc 7) 0 10 None l = (r, l')"
    using assms(4) by (simp add: subscribe_load_between_def SUBSCRIBE_DB_MAX_ATTEMPTS_def
        SUBSCRIBE_DB_BACKOFF_START_MS_def eval_nat_numeral del: load_attempts.simps)
  note run = run [unfolded load_attempts.simps(2)]
  show ?thesis
  proof (cases "outcome (conn l)")
    case None
    with run load_between_history [OF assms(3,1,2)] failures_outcome(1) [OF None] show ?thesis
      by (auto simp: on_db_def load_result_def untouched_def abs_ledger_def assms(3))
  next
    case (Some e)
    let ?l = "count_metric ''quote_ledger_subscribe_db_load_failures_total'' '''' (l\<lparr>conn := advance (conn l)\<rparr>)"
    have "load_attempts E q a u 7 (Suc 0) 10 (Some (status Internal e)) ?l = (r, l')"
      using run Some load_between_history [OF assms(3,1,2)]
      by (simp add: on_db_def store_error_to_status_def del: One_nat_def)
    note retry = load_attempts_retry [OF assms(1,2) _ this]
    have "load_result E (conn l) q a u 8 err = load_result E (advance (conn l)) q a u 7 (status Internal e)"
      using load_result_fail [OF Some, of E q a u 7 err] by simp
    with retry assms(3) failures_outcome(2) [OF Some] show ?thesis
      by (auto simp: untouched_def abs_ledger_def)
  qed
qed

lemma take_waits: "take m (waits n b) = waits (min n m) b"
proof (induction n arbitrary: m b)
  case (Suc n)
  then show ?case by (cases m) simp_all
qed simp

lemma waits_all: "waits 7 10 = [10, 20, 40, 80, 160, 320, 500]"
proof -
  have "next_backoff 10 = 20" "next_backoff 20 = 40" "next_backoff 40 = 80" "next_backoff 80 = 160"
    "next_backoff 160 = 320" "next_backoff 320 = 500" "next_backoff 500 = 500"
    by (simp_all add: next_backoff_def saturating_mul_def SUBSCRIBE_DB_BACKOFF_CAP_MS_def)
  moreover have "(7 :: nat) = Suc (Suc (Suc (Suc (Suc (Suc (Suc 0))))))" by simp
  ultimately show ?thesis by (simp only: waits.simps) simp
qed

lemma waits_retry: "waits (min 7 n) 10 = take n [10, 20, 40, 80, 160, 320, 500]"
  using take_waits [of n 7 10] by (simp only: waits_all)

text \<open>What the opening of a subscription sends to a client that takes every message.\<close>

definition opening_updates :: "u64 \<Rightarrow> u64 \<Rightarrow> QuoteView \<Rightarrow> StoredEvent list \<Rightarrow> (Status + QuoteUpdate) list" where
  "opening_updates after head v catchup =
     (if catchup = [] then [] else [Inr (tail_update after catchup)]) @
     [Inr \<lparr>update_kind = Some (Snapshot \<lparr>last_seq = head, view = Some v\<rparr>)\<rparr>]"

lemma pump_start_open:
  "pump_start \<lparr>init_last_seq = head, init_view = v, init_catchup = cu\<rparr> (new_pump q after rx []) =
   (new_pump q after rx [])\<lparr>watermark := head, sent := opening_updates after head v cu\<rparr>"
  by (simp add: pump_start_def new_pump_def push_def opening_updates_def)

lemma new_pump_simps [simp]:
  "phase (new_pump q after rx bs) = CatchingUp" "watermark (new_pump q after rx bs) = after"
  "sent (new_pump q after rx bs) = []" "sends (new_pump q after rx bs) = bs"
  "pump_quote (new_pump q after rx bs) = q" "pump_after (new_pump q after rx bs) = after"
  by (simp_all add: new_pump_def)

lemma register_run:
  "register W q head l = (rx, l') \<Longrightarrow> l' = l\<lparr>bus := (bus l')\<rparr> \<and> bus l' = (bus l)(q := bus l' q) \<and>
    (watch_ok W \<longrightarrow> head_of W l' = (head_of W l)(q \<mapsto> head))"
  by (auto simp: register_def Let_def head_of_def watch_ok_def fun_eq_iff)

section \<open>Properties\<close>

text \<open>
  C22: A read of the subscribe task survives up to seven consecutive database failures: with fewer
  than eight it returns exactly the committed events of the range, having paused 10, 20, 40, 80,
  160, 320 and 500 milliseconds before the second to the eighth attempt; with eight or more it
  gives up with the last failure as an INTERNAL status.  Histories and keys are untouched.
\<close>

theorem subscribe_load_retries:
  assumes "unat a < unat u" and "unat u < 2 ^ 63" and "ledger_inv E (conn l)"
    and "subscribe_load_between E q a u l = (r, l')"
    and "n = length (takeWhile (\<lambda>x. x \<noteq> None) (outcomes (conn l)))"
  shows "r = (if n < 8
      then Inr (stored_events q (Suc (unat a)) (drop (unat a) (take (unat u) (history_of E (conn l) q))))
      else Inl (status Internal (the (outcomes (conn l) ! 7)))) \<and>
    slept l' = slept l @ take n [10, 20, 40, 80, 160, 320, 500] \<and>
    history_of E (conn l') = history_of E (conn l) \<and> key_of (conn l') = key_of (conn l)"
  using subscribe_load_between_run [OF assms(1-4), of "status Internal []"] assms(5)
  by (simp add: load_result_def failures_def range_of_def untouched_def abs_ledger_def waits_retry)

definition sample_ledger :: "sqlite_error option list \<Rightarrow> (u64 \<times> nat) Ledger" where
  "sample_ledger os = new_ledger (sample_connection\<lparr>outcomes := os\<rparr>)"

lemma ledger_inv_outcomes [simp]: "ledger_inv E (c\<lparr>outcomes := os\<rparr>) = ledger_inv E c"
  by (simp add: ledger_inv_def db_inv_def history_of_def log_of_def quote_rows_def store_inv_def key_of_def)

lemma sample_ledger_inv: "ledger_inv sample_external (conn (sample_ledger os))"
  using sample_connection_inv by (simp add: sample_ledger_def new_ledger_def)

theorem subscribe_load_retries_witness:
  "fst (subscribe_load_between sample_external ''q1'' 1 2 (sample_ledger [Some ''busy'', Some ''busy''])) =
     Inr (stored_events ''q1'' 2 [LineItemAdded ''L1'' ''SKU'' ''Widget'' 2 5000]) \<and>
   slept (snd (subscribe_load_between sample_external ''q1'' 1 2 (sample_ledger [Some ''busy'', Some ''busy'']))) = [10, 20]"
proof -
  let ?l = "sample_ledger [Some ''busy'', Some ''busy'']"
  obtain r l' where run: "subscribe_load_between sample_external ''q1'' 1 2 ?l = (r, l')" by (rule prod.exhaust)
  have "2 = length (takeWhile (\<lambda>x. x \<noteq> None) (outcomes (conn ?l)))"
    by (simp add: sample_ledger_def new_ledger_def)
  moreover have "history_of sample_external (conn ?l) ''q1'' =
      [QuoteCreated ''USD'' ''US-CA'', LineItemAdded ''L1'' ''SKU'' ''Widget'' 2 5000]" by code_simp
  ultimately show ?thesis
    using subscribe_load_retries [OF _ _ sample_ledger_inv run] run
    by (simp add: sample_ledger_def new_ledger_def flip: numeral_2_eq_2)
qed

text \<open>
  C21: A subscription with a valid identifier on a healthy database is refused with
  INVALID_ARGUMENT when it starts after the head, and otherwise opens with the events after the
  client's number in one tail (none when there are none) and a snapshot of the replayed state
  at the head; it then waits from that head.
\<close>

theorem subscribe_opens:
  assumes "watch_ok W" and "valid_id (sub_quote_id req)" and "ledger_inv E (conn l)" and "healthy (conn l)"
    and "subscribe_quote E W req [] l = (r, l')"
    and "es = history_of E (conn l) (sub_quote_id req)" and "n = unat (after_seq req)"
  shows "if length es < n
    then r = Inl (status InvalidArgument
           (''after_seq '' @ show_nat n @ '' is ahead of head '' @ show_nat (length es)))
    else \<exists>s v p. replay es = Inr s \<and> quote_state_to_view (sub_quote_id req) s = Inr v \<and> r = Inr p \<and>
      sent p = opening_updates (after_seq req) (of_nat (length es)) v
        (stored_events (sub_quote_id req) (Suc n) (drop n es)) \<and>
      watermark p = of_nat (length es) \<and> phase p = CatchingUp \<and>
      head_of W l' (sub_quote_id req) = Some (of_nat (length es))"
proof -
  let ?q = "sub_quote_id req"
  let ?l = "count_metric ''quote_ledger_subscribe_streams_total'' '''' l"
  obtain r1 c where run: "subscribe_db E ?q (after_seq req) (conn l) = (r1, c)" by fastforce
  have body: "(r, l') = (case r1 of
        Inl e \<Rightarrow> (Inl (store_error_to_status e), ?l\<lparr>conn := c\<rparr>)
      | Inr init \<Rightarrow> (case register W ?q (init_last_seq init) (?l\<lparr>conn := c\<rparr>) of
          (rx, l2) \<Rightarrow> (Inr (pump_start init (new_pump ?q (after_seq req) rx [])), l2)))"
    using assms(2,5) run validate_identifier_Inr [of "''quote_id''" ?q "()"]
    by (cases r1) (auto simp: subscribe_quote_def st_lift_run st_bind_def on_db_def split: prod.splits)
  have len: "unat (of_nat (length es) :: u64) = length es"
    using ledger_inv_length [OF assms(3), of ?q] assms(6) by (simp add: unat_of_nat_u64)
  from subscribe_ok_history [OF assms(3,4) run] show ?thesis
    using body assms(1,6,7) register_run [of W ?q "of_nat (length es)" "?l\<lparr>conn := c\<rparr>"]
    by (auto simp: store_error_to_status_def len [unfolded assms(6)] pump_start_open split: prod.splits if_splits)
qed

theorem subscribe_opens_witness:
  "\<exists>v p. fst (subscribe_quote sample_external sample_watch \<lparr>sub_quote_id = ''q1'', after_seq = 1\<rparr> [] (sample_ledger [])) = Inr p \<and>
     sent p = opening_updates 1 2 v (stored_events ''q1'' 2 [LineItemAdded ''L1'' ''SKU'' ''Widget'' 2 5000]) \<and>
     watermark p = 2"
proof -
  let ?req = "\<lparr>sub_quote_id = ''q1'', after_seq = 1\<rparr>"
  let ?es = "[QuoteCreated ''USD'' ''US-CA'', LineItemAdded ''L1'' ''SKU'' ''Widget'' 2 5000]"
  obtain r l' where run: "subscribe_quote sample_external sample_watch ?req [] (sample_ledger []) = (r, l')"
    by (rule prod.exhaust)
  have "history_of sample_external (conn (sample_ledger [])) ''q1'' = ?es" and "valid_id ''q1''"
    by code_simp+
  moreover have "healthy (conn (sample_ledger []))"
    by (simp add: sample_ledger_def new_ledger_def healthy_def)
  ultimately show ?thesis
    using subscribe_opens [OF sample_watch_ok _ sample_ledger_inv _ run, of ?es 1] run
    by (auto simp flip: numeral_2_eq_2)
qed

end
