(* ===== verification/Ledger_System.thy ===== *)
theory Ledger_System
  imports Subscribe
begin

text \<open>
  The service as a whole: appends, subscriptions and subscriber tasks that interleave.  A step is
  what the code does without giving up control in between: a closure on the connection, an
  access to the bus under its lock, or one round of a subscriber's task.  Between its commit and
  its \<open>publish_head\<close> an append is in \<open>publishing\<close>; between its reads and its registration a
  subscription is in \<open>registering\<close>.  A round of a task is one step although it awaits the
  database up to eight times: it reads a range that is committed already, which no append changes.
\<close>

section \<open>States and steps\<close>

record Registration =
  reg_quote :: rstring
  reg_after :: u64
  reg_sends :: "bool list"
  reg_init :: SubscribeInit

record ('w, 'r) System =
  ledger :: "'w Ledger"
  publishing :: "(rstring \<times> u64) list"
  registering :: "Registration list"
  pumps :: "'r Pump list"

definition start_system :: "Connection \<Rightarrow> ('w, 'r) System" where
  "start_system c =
     \<lparr>ledger = new_ledger c, publishing = [], registering = [], pumps = []\<rparr>"

inductive step :: "External \<Rightarrow> ('w, 'r) WatchOps \<Rightarrow> ('w, 'r) System \<Rightarrow> ('w, 'r) System \<Rightarrow> bool"
  for E :: External and W :: "('w, 'r) WatchOps" where
  commit: "append_one_db E q k cmd (conn (ledger S)) = (Inr cs, c) \<Longrightarrow>
    step E W S (S\<lparr>ledger := (ledger S)\<lparr>conn := c\<rparr>,
      publishing := publishing S @ (if cs = [] then [] else [(q, seq (last cs))])\<rparr>)"
| commit_fails: "append_one_db E q k cmd (conn (ledger S)) = (Inl e, c) \<Longrightarrow>
    step E W S (S\<lparr>ledger := (ledger S)\<lparr>conn := c\<rparr>\<rparr>)"
| publish: "publishing S = before @ (q, head) # behind \<Longrightarrow>
    step E W S (S\<lparr>ledger := publish_head W q head (ledger S), publishing := before @ behind\<rparr>)"
| read: "subscribe_db E q after (conn (ledger S)) = (Inr init, c) \<Longrightarrow>
    step E W S (S\<lparr>ledger := (ledger S)\<lparr>conn := c\<rparr>,
      registering := registering S @
        [\<lparr>reg_quote = q, reg_after = after, reg_sends = bs, reg_init = init\<rparr>]\<rparr>)"
| read_fails: "subscribe_db E q after (conn (ledger S)) = (Inl e, c) \<Longrightarrow>
    step E W S (S\<lparr>ledger := (ledger S)\<lparr>conn := c\<rparr>\<rparr>)"
| register: "registering S = before @ R # behind \<Longrightarrow>
    register W (reg_quote R) (init_last_seq (reg_init R)) (ledger S) = (rx, l) \<Longrightarrow>
    step E W S (S\<lparr>ledger := l, registering := before @ behind,
      pumps := pumps S @ [pump_start (reg_init R) (new_pump (reg_quote R) (reg_after R) rx (reg_sends R))]\<rparr>)"
| catch_up: "i < length (pumps S) \<Longrightarrow> p = pumps S ! i \<Longrightarrow> phase p = CatchingUp \<Longrightarrow>
    bus (ledger S) (pump_quote p) = Some w \<Longrightarrow>
    pump_catch_up E (borrow W w) (ledger S) p = (l, p') \<Longrightarrow>
    step E W S (S\<lparr>ledger := l, pumps := (pumps S)[i := p']\<rparr>)"
| wake: "i < length (pumps S) \<Longrightarrow> p = pumps S ! i \<Longrightarrow> phase p = Waiting \<Longrightarrow>
    bus (ledger S) (pump_quote p) = Some w \<Longrightarrow> has_changed W w (rx_watch p) \<Longrightarrow>
    pump_wake E (borrow W w) (ledger S) (p\<lparr>rx_watch := mark_seen W w (rx_watch p)\<rparr>) = (l, p') \<Longrightarrow>
    step E W S (S\<lparr>ledger := l, pumps := (pumps S)[i := p']\<rparr>)"

inductive reachable ::
  "External \<Rightarrow> ('w, 'r) WatchOps \<Rightarrow> Connection \<Rightarrow> ('w, 'r) System \<Rightarrow> bool"
  for E :: External and W :: "('w, 'r) WatchOps" and c0 where
  start: "reachable E W c0 (start_system c0)"
| next_step: "reachable E W c0 S \<Longrightarrow> step E W S S' \<Longrightarrow> reachable E W c0 S'"

section \<open>What a subscriber received\<close>

fun received :: "(Status + QuoteUpdate) list \<Rightarrow> StoredEvent list" where
  "received [] = []"
| "received (Inl st # us) = received us"
| "received (Inr u # us) =
     (case update_kind u of Some (Tail t) \<Rightarrow> tail_events t | _ \<Rightarrow> []) @ received us"

text \<open>
  Where the tails of a stream end, when each starts where the one before ended and an error can
  only come last.
\<close>

fun chain_end :: "nat \<Rightarrow> (Status + QuoteUpdate) list \<Rightarrow> nat option" where
  "chain_end n [] = Some n"
| "chain_end n (Inl st # us) = (if us = [] then Some n else None)"
| "chain_end n (Inr u # us) =
     (case update_kind u of
        Some (Tail t) \<Rightarrow>
          if unat (from_seq_exclusive t) = n \<and> tail_events t \<noteq> []
          then chain_end (unat (to_seq_inclusive t)) us else None
      | _ \<Rightarrow> chain_end n us)"

definition no_error :: "(Status + QuoteUpdate) list \<Rightarrow> bool" where
  "no_error us \<longleftrightarrow> (\<forall>u \<in> set us. \<not> isl u)"

definition feed_ok :: "DomainEvent list \<Rightarrow> 'r Pump \<Rightarrow> bool" where
  "feed_ok es p \<longleftrightarrow>
     (\<exists>m. chain_end (unat (pump_after p)) (sent p) = Some m \<and>
        received (sent p) =
          stored_events (pump_quote p) (Suc (unat (pump_after p))) (drop (unat (pump_after p)) (take m es)) \<and>
        unat (pump_after p) \<le> m \<and> m \<le> length es \<and>
        (phase p = Finished \<or> m = unat (watermark p) \<and> no_error (sent p)))"

lemma received_append [simp]: "received (us @ vs) = received us @ received vs"
  by (induction us rule: received.induct) simp_all

lemma chain_end_append:
  "no_error us \<Longrightarrow> chain_end n (us @ vs) = (case chain_end n us of None \<Rightarrow> None | Some m \<Rightarrow> chain_end m vs)"
  by (induction n us rule: chain_end.induct) (auto simp: no_error_def split: option.splits UpdateKind.splits)

lemma no_error_append [simp]: "no_error (us @ vs) \<longleftrightarrow> no_error us \<and> no_error vs"
  by (auto simp: no_error_def)

lemma feed_ok_mono: "feed_ok es p \<Longrightarrow> prefix es es' \<Longrightarrow> feed_ok es' p"
  by (fastforce simp: feed_ok_def prefix_def)

lemma feed_ok_rx [simp]: "feed_ok es (p\<lparr>rx_watch := r\<rparr>) = feed_ok es p"
  by (simp add: feed_ok_def)

lemma feed_ok_waiting: "feed_ok es p \<Longrightarrow> phase p \<noteq> Finished \<Longrightarrow> feed_ok es (p\<lparr>phase := x\<rparr>)"
  by (auto simp: feed_ok_def)

lemma feed_ok_finish: "feed_ok es p \<Longrightarrow> feed_ok es (finish p)"
  by (auto simp: feed_ok_def finish_def)

lemma push_cases:
  obtains (gone) "push x p = (False, p)" | (taken) bs where "push x p = (True, p\<lparr>sent := sent p @ [x], sends := bs\<rparr>)"
  by (cases "sends p" rule: list.exhaust; cases "hd (sends p)") (auto simp: push_def split: list.splits bool.splits)

lemma feed_ok_error:
  "feed_ok es p \<Longrightarrow> phase p \<noteq> Finished \<Longrightarrow> feed_ok es (finish (snd (push (Inl st) p)))"
  by (cases "Inl st :: Status + QuoteUpdate" p rule: push_cases)
    (auto simp: feed_ok_def finish_def chain_end_append)

lemma stored_events_append:
  "stored_events q n (xs @ ys) = stored_events q n xs @ stored_events q (n + length xs) ys"
  by (simp add: stored_events_def stored_from_append)

lemma stored_events_Nil [simp]: "stored_events q n es = [] \<longleftrightarrow> es = []"
  by (simp add: stored_events_def)

lemma last_stored_events:
  "es \<noteq> [] \<Longrightarrow> n + length es - 1 < 2 ^ 63 \<Longrightarrow> unat (seq (last (stored_events q n es))) = n + length es - 1"
  using seq_last_stored_from [of "List.map domain_event_to_proto es" q n]
  by (simp add: stored_events_def unat_of_nat_u64)

lemma stored_events_range:
  assumes "a \<le> m" and "m \<le> h" and "h \<le> length es"
  shows "stored_events q (Suc a) (drop a (take h es)) =
    stored_events q (Suc a) (drop a (take m es)) @ stored_events q (Suc m) (drop m (take h es))"
proof -
  have "take h es = take m es @ drop m (take h es)"
    using assms by (metis append_take_drop_id min.absorb1 take_take)
  then have "drop a (take h es) = drop a (take m es @ drop m (take h es))" by simp
  also have "\<dots> = drop a (take m es) @ drop m (take h es)" using assms by (simp only: drop_append) simp
  finally have "drop a (take h es) = drop a (take m es) @ drop m (take h es)" .
  with assms show ?thesis by (simp add: stored_events_append)
qed

text \<open>Sending the events from the watermark to a head, in one tail.\<close>

lemma feed_ok_tail:
  assumes ok: "feed_ok es p" and run: "phase p \<noteq> Finished" and head: "unat (watermark p) < unat head"
    and len: "unat head \<le> length es" and bound: "length es < 2 ^ 63"
    and evs: "evs = stored_events (pump_quote p) (Suc (unat (watermark p))) (drop (unat (watermark p)) (take (unat head) es))"
    and push: "push (Inr (tail_update (watermark p) evs)) p = (taken, p')"
  shows "evs \<noteq> [] \<and> (if taken then feed_ok es (p'\<lparr>watermark := head, phase := x\<rparr>) \<and>
      feed_ok es (p'\<lparr>watermark := head\<rparr>) else feed_ok es (finish p'))"
proof -
  let ?m = "unat (watermark p)" and ?a = "unat (pump_after p)"
  have ne: "evs \<noteq> []" using evs head len by simp
  have last: "unat (seq (last evs)) = unat head"
    using last_stored_events [of "drop ?m (take (unat head) es)" "Suc ?m" "pump_quote p"] head len bound evs by auto
  have a: "?a \<le> ?m" "chain_end ?a (sent p) = Some ?m" "no_error (sent p)"
    "received (sent p) = stored_events (pump_quote p) (Suc ?a) (drop ?a (take ?m es))"
    using ok run by (auto simp: feed_ok_def)
  have range: "stored_events (pump_quote p) (Suc ?a) (drop ?a (take (unat head) es)) = received (sent p) @ evs"
    unfolding a(4) evs using a(1) head len by (intro stored_events_range) simp_all
  show ?thesis
  proof (cases "Inr (tail_update (watermark p) evs) :: Status + QuoteUpdate" p rule: push_cases)
    case gone
    with push ok ne show ?thesis by (auto intro: feed_ok_finish)
  next
    case (taken bs)
    with push ne a range last head len show ?thesis
      by (auto simp: feed_ok_def chain_end_append tail_update_def no_error_def)
  qed
qed

section \<open>What the steps keep\<close>

definition hist_le :: "External \<Rightarrow> Connection \<Rightarrow> Connection \<Rightarrow> bool" where
  "hist_le E c c' \<longleftrightarrow> (\<forall>q. prefix (history_of E c q) (history_of E c' q))"

definition reg_ok :: "External \<Rightarrow> Connection \<Rightarrow> Registration \<Rightarrow> bool" where
  "reg_ok E c R \<longleftrightarrow>
     (\<exists>m. unat (reg_after R) \<le> m \<and> m \<le> length (history_of E c (reg_quote R)) \<and>
        unat (init_last_seq (reg_init R)) = m \<and>
        init_catchup (reg_init R) = stored_events (reg_quote R) (Suc (unat (reg_after R)))
          (drop (unat (reg_after R)) (take m (history_of E c (reg_quote R)))))"

definition bus_ok :: "External \<Rightarrow> ('w, 'r) WatchOps \<Rightarrow> 'w Ledger \<Rightarrow> bool" where
  "bus_ok E W l \<longleftrightarrow>
     (\<forall>q w. bus l q = Some w \<longrightarrow> unat (borrow W w) \<le> length (history_of E (conn l) q))"

definition waiting_ok :: "('w, 'r) WatchOps \<Rightarrow> 'w Ledger \<Rightarrow> 'r Pump \<Rightarrow> bool" where
  "waiting_ok W l p \<longleftrightarrow>
     (\<exists>w. bus l (pump_quote p) = Some w \<and> receiver_of W w (rx_watch p) \<and>
        (phase p = Waiting \<longrightarrow>
           unat (borrow W w) \<le> unat (watermark p) \<or> has_changed W w (rx_watch p)))"

lemma hist_le_length: "hist_le E c c' \<Longrightarrow> length (history_of E c q) \<le> length (history_of E c' q)"
  by (simp add: hist_le_def prefix_length_le)

lemma reg_ok_mono: "reg_ok E c R \<Longrightarrow> hist_le E c c' \<Longrightarrow> reg_ok E c' R"
  by (fastforce simp: reg_ok_def hist_le_def prefix_def dest!: spec [of _ "reg_quote R"])

lemma append_one_grows:
  assumes "ledger_inv E c" and "append_one_db E q k cmd c = (r, c')"
  shows "ledger_inv E c' \<and> hist_le E c c' \<and>
    (\<forall>cs. r = Inr cs \<longrightarrow> cs \<noteq> [] \<longrightarrow> unat (seq (last cs)) \<le> length (history_of E c' q))"
proof -
  have inv: "ledger_inv E c'" using append_one_db_run [OF assms] by blast
  have le: "hist_le E c c'"
    using assms by (cases rule: append_one_db_effect) (auto simp: hist_le_def same_history_def grown_history_def)
  have "unat (seq (last cs)) \<le> length (history_of E c' q)" if "r = Inr cs" "cs \<noteq> []" for cs
  proof -
    from committed_after_append [OF assms(1), of q k cmd cs c'] assms(2) that
    obtain n new l where com: "cs = stored_events q n new" "key_of c' q k = Some (n, l)"
      "event_slice n l (history_of E c' q) = new"
      by (auto simp: committed_as_def)
    have rng: "1 \<le> n" "n \<le> l" "l \<le> length (history_of E c' q)" "length (history_of E c' q) < 2 ^ 63"
      using store.key_range [OF ledger_inv_history(3) [OF inv] com(2)] ledger_inv_length [OF inv, of q]
      by (simp_all add: history_of_def)
    then have "n + length new - 1 = l" "new \<noteq> []" using com(3) by (auto simp: event_slice_def)
    with last_stored_events [of new n q] rng com(1) show ?thesis by simp
  qed
  with inv le show ?thesis by blast
qed

lemma subscribe_db_reads:
  assumes "ledger_inv E c" and "subscribe_db E q after c = (r, c')"
  shows "ledger_inv E c' \<and> hist_le E c c' \<and>
    (\<forall>init bs. r = Inr init \<longrightarrow>
       reg_ok E c' \<lparr>reg_quote = q, reg_after = after, reg_sends = bs, reg_init = init\<rparr>)"
proof -
  have "holds_history (log_of E c q) (history_of E c q)" "db_inv E c"
    using assms(1) by (simp_all add: ledger_inv_def)
  note run = store.subscribe_ok [OF this(2,1) assms(2) [unfolded subscribe_db_def]]
  with same_view_history [OF assms(1), of c'] have same: "ledger_inv E c'" "history_of E c' = history_of E c"
    by (auto simp: same_history_def)
  with run ledger_inv_length [OF assms(1), of q] show ?thesis
    by (auto simp: hist_le_def reg_ok_def stored_events_def unat_of_nat_u64 split: if_splits)
qed

text \<open>A value sent on the channel of \<open>q\<close> wakes every receiver of that channel.\<close>

lemma sent_head_ok:
  assumes W: "watch_ok W" and bus: "bus l' = (bus l)(q \<mapsto> send_replace W tx head)" and conn: "conn l' = conn l"
    and tx: "tx = (case bus l q of Some w \<Rightarrow> w | None \<Rightarrow> watch_channel W head)"
  shows "bus_ok E W l \<Longrightarrow> unat head \<le> length (history_of E (conn l) q) \<Longrightarrow> bus_ok E W l'"
    and "waiting_ok W l p \<Longrightarrow> waiting_ok W l' p"
  using assms by (auto simp: bus_ok_def waiting_ok_def watch_ok_def split: option.splits)

text \<open>The task after the catch-up tail of its opening\<close>

definition opened :: "DomainEvent list \<Rightarrow> Registration \<Rightarrow> 'r \<Rightarrow> bool \<Rightarrow> 'r Pump \<Rightarrow> bool" where
  "opened es R rx taken p \<longleftrightarrow>
     phase p = CatchingUp \<and> pump_quote p = reg_quote R \<and> rx_watch p = rx \<and>
     (if taken then feed_ok es (p\<lparr>watermark := init_last_seq (reg_init R)\<rparr>) else feed_ok es (finish p))"

lemma catch_up_opened:
  assumes R: "reg_ok E c R" and inv: "ledger_inv E c" and p: "p = new_pump (reg_quote R) (reg_after R) rx bs"
    and push: "(if init_catchup (reg_init R) = [] then (True, p)
      else push (Inr (tail_update (reg_after R) (init_catchup (reg_init R)))) p) = (taken, p')"
  shows "opened (history_of E c (reg_quote R)) R rx taken p'"
proof -
  let ?es = "history_of E c (reg_quote R)" and ?cu = "init_catchup (reg_init R)" and ?head = "init_last_seq (reg_init R)"
  obtain m where m: "unat (reg_after R) \<le> m" "m \<le> length ?es" "unat ?head = m"
    "?cu = stored_events (reg_quote R) (Suc (unat (reg_after R))) (drop (unat (reg_after R)) (take m ?es))"
    using R by (auto simp: reg_ok_def)
  have fresh: "phase p = CatchingUp" "pump_quote p = reg_quote R" "pump_after p = reg_after R" "rx_watch p = rx"
    "watermark p = reg_after R"
    by (simp_all add: p new_pump_def)
  have new: "feed_ok ?es p" using m(1,2) by (auto simp: p feed_ok_def no_error_def stored_events_def)
  show ?thesis
  proof (cases "?cu = []")
    case True
    with m(4) have "stored_events (reg_quote R) (Suc (unat (reg_after R))) (drop (unat (reg_after R)) (take m ?es)) = []"
      by simp
    with m(1,2) have "m = unat (reg_after R)" by simp
    with m(3) have "?head = watermark p" by (simp add: word_unat_eq_iff fresh)
    then have "p\<lparr>watermark := ?head\<rparr> = p" by (cases p) simp
    with push True new fresh show ?thesis by (auto simp: opened_def)
  next
    case False
    with push have push: "push (Inr (tail_update (watermark p) ?cu)) p = (taken, p')" by (simp add: fresh)
    then have "phase p' = CatchingUp \<and> pump_quote p' = reg_quote R \<and> rx_watch p' = rx"
      using fresh by (cases "Inr (tail_update (watermark p) ?cu) :: Status + QuoteUpdate" p rule: push_cases) auto
    moreover have less: "unat (watermark p) < unat ?head" using False m fresh by simp
    ultimately show ?thesis
      using feed_ok_tail [OF new _ less _ ledger_inv_length [OF inv] _ push] m fresh by (auto simp: opened_def)
  qed
qed

lemma snapshot_opened:
  assumes ok: "opened es R rx True p" and x: "x = Inr \<lparr>update_kind = Some (Snapshot s)\<rparr>"
    and p': "p' = (case push x p of (ok, p) \<Rightarrow> if \<not> ok then finish p else p\<lparr>watermark := init_last_seq (reg_init R)\<rparr>)"
  shows "feed_ok es p' \<and> pump_quote p' = reg_quote R \<and> rx_watch p' = rx \<and> phase p' \<noteq> Waiting"
proof (cases x p rule: push_cases)
  case gone
  with ok p' show ?thesis by (auto simp: opened_def finish_def feed_ok_def)
next
  case (taken bs)
  with ok p' x show ?thesis by (auto simp: opened_def feed_ok_def chain_end_append no_error_def)
qed

lemma pump_start_ok:
  assumes "reg_ok E c R" and "ledger_inv E c" and p: "p = pump_start (reg_init R) (new_pump (reg_quote R) (reg_after R) rx bs)"
  shows "feed_ok (history_of E c (reg_quote R)) p \<and> pump_quote p = reg_quote R \<and> rx_watch p = rx \<and> phase p \<noteq> Waiting"
proof -
  let ?p = "new_pump (reg_quote R) (reg_after R) rx bs" and ?cu = "init_catchup (reg_init R)"
  obtain taken p1 where push: "(if ?cu = [] then (True, ?p) else push (Inr (tail_update (reg_after R) ?cu)) ?p) = (taken, p1)"
    by fastforce
  from catch_up_opened [OF assms(1,2) refl push] have opened: "opened (history_of E c (reg_quote R)) R rx taken p1" .
  note start = p [unfolded pump_start_def new_pump_simps push Let_def prod.case]
  show ?thesis
  proof (cases taken)
    case False
    with start opened show ?thesis by (auto simp: opened_def finish_def)
  next
    case True
    with opened have "opened (history_of E c (reg_quote R)) R rx True p1" by simp
    then show ?thesis by (rule snapshot_opened [OF _ refl]) (use start True in simp)
  qed
qed

end
