(* ===== verification/Simulation.thy ===== *)
theory Simulation
  imports Main
begin

text \<open>
  What it means that one step relation refines another: every step of the detailed one is matched
  by a sequence of steps, possibly empty, of the abstract one.  The theories that model the
  service at several grains interpret this locale for each pair.  A second locale is for the
  invariants of one relation.
\<close>

locale simulation =
  fixes detailed :: "'s \<Rightarrow> 's \<Rightarrow> bool"
    and abstract :: "'t \<Rightarrow> 't \<Rightarrow> bool"
    and matches :: "'s \<Rightarrow> 't \<Rightarrow> bool"
  assumes step_matched: "matches s t \<Longrightarrow> detailed s s' \<Longrightarrow> \<exists>t'. abstract\<^sup>*\<^sup>* t t' \<and> matches s' t'"
begin

lemma run_matched: "detailed\<^sup>*\<^sup>* s s' \<Longrightarrow> matches s t \<Longrightarrow> \<exists>t'. abstract\<^sup>*\<^sup>* t t' \<and> matches s' t'"
proof (induction rule: rtranclp_induct)
  case base
  then show ?case by blast
next
  case (step s1 s2)
  then obtain t1 where t1: "abstract\<^sup>*\<^sup>* t t1" "matches s1 t1" by blast
  from step_matched [OF t1(2) step(2)] obtain t2 where "abstract\<^sup>*\<^sup>* t1 t2" "matches s2 t2" by blast
  with t1(1) show ?case by (meson rtranclp_trans)
qed

text \<open>What holds of every abstract state that a run reaches holds of a matching detailed state.\<close>

lemma invariant_transfers:
  assumes "detailed\<^sup>*\<^sup>* s s'" and "matches s t" and "\<And>t'. abstract\<^sup>*\<^sup>* t t' \<Longrightarrow> Q t'"
  shows "\<exists>t'. Q t' \<and> matches s' t'"
  using run_matched [OF assms(1,2)] assms(3) by blast

end

text \<open>
  A system whose steps keep an invariant and let a part of the state only grow, in some order on
  states, keeps and grows it along every run.
\<close>

locale evolving =
  fixes next_state :: "'s \<Rightarrow> 's \<Rightarrow> bool"
    and ok :: "'s \<Rightarrow> bool"
    and grows :: "'s \<Rightarrow> 's \<Rightarrow> bool"
  assumes step_ok: "ok s \<Longrightarrow> next_state s s' \<Longrightarrow> ok s' \<and> grows s s'"
    and grows_refl: "grows s s"
    and grows_trans: "grows s s' \<Longrightarrow> grows s' s'' \<Longrightarrow> grows s s''"
begin

lemma run_ok: "next_state\<^sup>*\<^sup>* s s' \<Longrightarrow> ok s \<Longrightarrow> ok s' \<and> grows s s'"
proof (induction rule: rtranclp_induct)
  case base
  then show ?case by (simp add: grows_refl)
next
  case (step s1 s2)
  with step_ok grows_trans show ?case by blast
qed

end

end
