(* ===== verification/Concurrent_System.thy ===== *)
theory Concurrent_System
  imports Ledger_System Simulation
begin

text \<open>
  The service at the grain of its \<open>await\<close> points, a refinement of theory \<open>Ledger_System\<close>.
  \<^item> An append enters the in-flight guard, waits for its closure to run on the connection, then
    for the bus; the guard is dropped where the code drops it.
  \<^item> An append whose command does not convert enters the guard and leaves it again without touching
    the database: it is \<open>malformed\<close> in between.
  \<^item> A client can go away at any of these points.  The handler's future is then dropped with its
    guard, but a closure given to \<open>spawn_blocking\<close> still runs: it is \<open>orphaned\<close>.
  \<^item> A round of a subscriber's task is one step per database attempt, with the sleeps between
    them, and anything can happen between two attempts.  \<open>changed()\<close> and the \<open>borrow()\<close> after it are
    two steps: in between the phase is \<open>CatchingUp\<close>, as it is before the first look at the head.
\<close>

section \<open>The rounds of a task\<close>

record Round =
  round_head :: u64
  round_attempt :: nat
  round_backoff :: u64

record 'r Task =
  pump :: "'r Pump"
  in_round :: "Round option"

text \<open>A round begins: the head is read, and with nothing new there is nothing to load.\<close>

definition start_round :: "u64 \<Rightarrow> 'r Pump \<Rightarrow> 'r Task" where
  "start_round head p =
     (if unat head \<le> unat (watermark p) then \<lparr>pump = p\<lparr>phase := Waiting\<rparr>, in_round = None\<rparr>
      else \<lparr>pump = p, in_round = Some
        \<lparr>round_head = head, round_attempt = 0, round_backoff = SUBSCRIBE_DB_BACKOFF_START_MS\<rparr>\<rparr>)"

text \<open>What the task does with the result of \<open>subscribe_load_between\<close>.\<close>

definition deliver :: "u64 \<Rightarrow> Status + StoredEvent list \<Rightarrow> 'r Pump \<Rightarrow> 'r Pump" where
  "deliver head r p =
     (case r of
        Inl st \<Rightarrow> finish (snd (push (Inl st) p))
      | Inr chunk \<Rightarrow>
          if chunk = [] then p\<lparr>watermark := head, phase := Waiting\<rparr>
          else
            let (ok, p) = push (Inr (tail_update (watermark p) chunk)) p
            in if \<not> ok then finish p else p\<lparr>watermark := head, phase := Waiting\<rparr>)"

text \<open>
  One attempt of \<open>subscribe_load_between\<close>, with the sleep before it: what the load returns, or the
  round with its next attempt.
\<close>

definition attempt_load ::
  "External \<Rightarrow> Round \<Rightarrow> 'r Pump \<Rightarrow> 'w Ledger \<Rightarrow> 'w Ledger \<times> (Round + (Status + StoredEvent list))" where
  "attempt_load E rd p l =
     (let (l1, backoff) =
        (if 0 < round_attempt rd
         then (sleep_ms (round_backoff rd) (count_metric ''quote_ledger_subscribe_db_retries_total'' '''' l),
               next_backoff (round_backoff rd))
         else (l, round_backoff rd))
      in case on_db (load_stored_events_between E (pump_quote p) (watermark p) (round_head rd)) l1 of
           (Inr evs, l2) \<Rightarrow> (l2, Inr (Inr evs))
         | (Inl e, l2) \<Rightarrow>
             let l3 = count_metric ''quote_ledger_subscribe_db_load_failures_total'' '''' l2;
                 n = Suc (round_attempt rd)
             in if n < SUBSCRIBE_DB_MAX_ATTEMPTS
                then (l3, Inl \<lparr>round_head = round_head rd, round_attempt = n, round_backoff = backoff\<rparr>)
                else (count_metric ''quote_ledger_subscribe_stream_terminal_errors_total'' ''db_load_between'' l3,
                      Inr (Inl e)))"

definition attempt_round :: "External \<Rightarrow> Round \<Rightarrow> 'w Ledger \<Rightarrow> 'r Pump \<Rightarrow> 'w Ledger \<times> 'r Task" where
  "attempt_round E rd l p =
     (case attempt_load E rd p l of
        (l', Inl rd') \<Rightarrow> (l', \<lparr>pump = p, in_round = Some rd'\<rparr>)
      | (l', Inr r) \<Rightarrow> (l', \<lparr>pump = deliver (round_head rd) r p, in_round = None\<rparr>))"

section \<open>States and steps\<close>

record Job =
  job_quote :: rstring
  job_key :: rstring
  job_command :: DomainCommand

definition run_job :: "External \<Rightarrow> Job \<Rightarrow> StoredEvent list db" where
  "run_job E j = append_one_db E (job_quote j) (job_key j) (job_command j)"

text \<open>\<open>finishing\<close> holds the appends whose closure has returned, with the head they will publish.\<close>

record ('w, 'r) Concurrent =
  shared :: "'w Ledger"
  malformed :: nat
  running :: "Job list"
  orphaned :: "Job list"
  finishing :: "(rstring \<times> u64 option) list"
  subscribing :: "Registration list"
  tasks :: "'r Task list"

definition start_concurrent :: "Connection \<Rightarrow> ('w, 'r) Concurrent" where
  "start_concurrent c =
     \<lparr>shared = new_ledger c, malformed = 0, running = [], orphaned = [], finishing = [], subscribing = [], tasks = []\<rparr>"

text \<open>The end of \<open>append_one\<close>: publish what there is, count the commit.\<close>

definition conclude :: "('w, 'r) WatchOps \<Rightarrow> rstring \<Rightarrow> u64 option \<Rightarrow> 'w Ledger \<Rightarrow> 'w Ledger" where
  "conclude W q head l =
     count_metric ''quote_ledger_append_one_commits_total'' ''''
       (case head of None \<Rightarrow> l | Some h \<Rightarrow> publish_head W q h l)"

inductive cstep :: "External \<Rightarrow> ('w, 'r) WatchOps \<Rightarrow> ('w, 'r) Concurrent \<Rightarrow> ('w, 'r) Concurrent \<Rightarrow> bool"
  for E :: External and W :: "('w, 'r) WatchOps" where
  enter: "cstep E W S (S\<lparr>shared := InFlightGuard_enter (shared S), running := running S @ [j]\<rparr>)"
| enter_malformed: "cstep E W S (S\<lparr>shared := InFlightGuard_enter (shared S), malformed := Suc (malformed S)\<rparr>)"
| refuse_malformed: "malformed S = Suc n \<Longrightarrow>
    cstep E W S (S\<lparr>shared := InFlightGuard_drop (shared S), malformed := n\<rparr>)"
| commit: "running S = before @ j # behind \<Longrightarrow> run_job E j (conn (shared S)) = (Inr cs, c) \<Longrightarrow>
    cstep E W S (S\<lparr>shared := (shared S)\<lparr>conn := c\<rparr>, running := before @ behind,
      finishing := finishing S @ [(job_quote j, if cs = [] then None else Some (seq (last cs)))]\<rparr>)"
| refuse: "running S = before @ j # behind \<Longrightarrow> run_job E j (conn (shared S)) = (Inl e, c) \<Longrightarrow>
    cstep E W S (S\<lparr>shared := InFlightGuard_drop ((shared S)\<lparr>conn := c\<rparr>), running := before @ behind\<rparr>)"
| publish: "finishing S = before @ (q, head) # behind \<Longrightarrow>
    cstep E W S (S\<lparr>shared := InFlightGuard_drop (conclude W q head (shared S)), finishing := before @ behind\<rparr>)"
| cancel_running: "running S = before @ j # behind \<Longrightarrow>
    cstep E W S (S\<lparr>shared := InFlightGuard_drop (shared S), running := before @ behind,
      orphaned := orphaned S @ [j]\<rparr>)"
| cancel_finishing: "finishing S = before @ x # behind \<Longrightarrow>
    cstep E W S (S\<lparr>shared := InFlightGuard_drop (shared S), finishing := before @ behind\<rparr>)"
| orphan_runs: "orphaned S = before @ j # behind \<Longrightarrow> run_job E j (conn (shared S)) = (r, c) \<Longrightarrow>
    cstep E W S (S\<lparr>shared := (shared S)\<lparr>conn := c\<rparr>, orphaned := before @ behind\<rparr>)"
| read: "subscribe_db E q after (conn (shared S)) = (Inr init, c) \<Longrightarrow>
    cstep E W S (S\<lparr>shared := (shared S)\<lparr>conn := c\<rparr>,
      subscribing := subscribing S @
        [\<lparr>reg_quote = q, reg_after = after, reg_sends = bs, reg_init = init\<rparr>]\<rparr>)"
| read_fails: "subscribe_db E q after (conn (shared S)) = (Inl e, c) \<Longrightarrow>
    cstep E W S (S\<lparr>shared := (shared S)\<lparr>conn := c\<rparr>\<rparr>)"
| register: "subscribing S = before @ R # behind \<Longrightarrow>
    register W (reg_quote R) (init_last_seq (reg_init R)) (shared S) = (rx, l) \<Longrightarrow>
    cstep E W S (S\<lparr>shared := l, subscribing := before @ behind,
      tasks := tasks S @
        [\<lparr>pump = pump_start (reg_init R) (new_pump (reg_quote R) (reg_after R) rx (reg_sends R)), in_round = None\<rparr>]\<rparr>)"
| cancel_subscribing: "subscribing S = before @ R # behind \<Longrightarrow>
    cstep E W S (S\<lparr>subscribing := before @ behind\<rparr>)"
| wake: "i < length (tasks S) \<Longrightarrow> tasks S ! i = \<lparr>pump = p, in_round = None\<rparr> \<Longrightarrow> phase p = Waiting \<Longrightarrow>
    bus (shared S) (pump_quote p) = Some w \<Longrightarrow> has_changed W w (rx_watch p) \<Longrightarrow>
    cstep E W S (S\<lparr>tasks := (tasks S)[i :=
      \<lparr>pump = p\<lparr>rx_watch := mark_seen W w (rx_watch p), phase := CatchingUp\<rparr>, in_round = None\<rparr>]\<rparr>)"
| look: "i < length (tasks S) \<Longrightarrow> tasks S ! i = \<lparr>pump = p, in_round = None\<rparr> \<Longrightarrow> phase p = CatchingUp \<Longrightarrow>
    bus (shared S) (pump_quote p) = Some w \<Longrightarrow>
    cstep E W S (S\<lparr>tasks := (tasks S)[i := start_round (borrow W w) p]\<rparr>)"
| attempt: "i < length (tasks S) \<Longrightarrow> tasks S ! i = \<lparr>pump = p, in_round = Some rd\<rparr> \<Longrightarrow>
    attempt_round E rd (shared S) p = (l, t) \<Longrightarrow>
    cstep E W S (S\<lparr>shared := l, tasks := (tasks S)[i := t]\<rparr>)"

inductive creachable ::
  "External \<Rightarrow> ('w, 'r) WatchOps \<Rightarrow> Connection \<Rightarrow> ('w, 'r) Concurrent \<Rightarrow> bool"
  for E :: External and W :: "('w, 'r) WatchOps" and c0 where
  start: "creachable E W c0 (start_concurrent c0)"
| next_step: "creachable E W c0 S \<Longrightarrow> cstep E W S S' \<Longrightarrow> creachable E W c0 S'"

section \<open>Lemmas on rounds\<close>

lemma phase_self [simp]: "phase p = x \<Longrightarrow> p\<lparr>phase := x\<rparr> = p"
  by (cases p) simp

text \<open>A round that runs without interruption is the round of the whole-round model.\<close>

lemma pump_wake_deliver:
  assumes "phase p = Waiting"
  shows "pump_wake E head l p =
    (if unat head \<le> unat (watermark p) then (l, p)
     else case subscribe_load_between E (pump_quote p) (watermark p) head l of
       (r, l') \<Rightarrow> (l', deliver head r p))"
proof -
  have "p'\<lparr>watermark := head, phase := Waiting\<rparr> = p'\<lparr>watermark := head\<rparr>" if "phase p' = Waiting" for p'
    using that by (cases p') simp
  moreover have "phase p' = Waiting" if "push x p = (ok, p')" for x ok p'
    using that assms by (cases x p rule: push_cases) auto
  ultimately show ?thesis
    using assms by (auto simp: pump_wake_def deliver_def split: prod.splits sum.splits)
qed

lemma pump_catch_up_deliver:
  "pump_catch_up E head l p =
    (if unat head \<le> unat (watermark p) then (l, p\<lparr>phase := Waiting\<rparr>)
     else case subscribe_load_between E (pump_quote p) (watermark p) head l of
       (r, l') \<Rightarrow> (l', deliver head r p))"
  by (auto simp: pump_catch_up_def deliver_def Let_def split: prod.splits sum.splits)

text \<open>The attempts of a round, one after the other, until it ends.\<close>

fun rounds :: "External \<Rightarrow> nat \<Rightarrow> 'w Ledger \<times> 'r Task \<Rightarrow> 'w Ledger \<times> 'r Task" where
  "rounds E 0 x = x"
| "rounds E (Suc n) (l, t) =
     (case in_round t of None \<Rightarrow> (l, t) | Some rd \<Rightarrow> rounds E n (attempt_round E rd l (pump t)))"

lemma rounds_stop [simp]: "in_round t = None \<Longrightarrow> rounds E n (l, t) = (l, t)"
  by (cases n) simp_all

lemma rounds_load_attempts:
  assumes "att + left = SUBSCRIBE_DB_MAX_ATTEMPTS" and "0 < left"
  shows "rounds E left (l, \<lparr>pump = p, in_round = Some \<lparr>round_head = head, round_attempt = att, round_backoff = b\<rparr>\<rparr>) =
    (case load_attempts E (pump_quote p) (watermark p) head left att b err l of
       (r, l') \<Rightarrow> (l', \<lparr>pump = deliver head r p, in_round = None\<rparr>))"
  using assms
proof (induction left arbitrary: att b err l)
  case (Suc left)
  let ?l = "if 0 < att then sleep_ms b (count_metric ''quote_ledger_subscribe_db_retries_total'' '''' l) else l"
  let ?b = "if 0 < att then next_backoff b else b"
  obtain r l2 where db: "on_db (load_stored_events_between E (pump_quote p) (watermark p) head) ?l = (r, l2)"
    by (rule prod.exhaust)
  show ?case
  proof (cases r)
    case (Inr evs)
    with db show ?thesis by (simp add: attempt_round_def attempt_load_def Let_def split: if_splits)
  next
    case (Inl e)
    let ?l3 = "count_metric ''quote_ledger_subscribe_db_load_failures_total'' '''' l2"
    show ?thesis
    proof (cases "left = 0")
      case True
      with Suc.prems(1) Inl db show ?thesis by (simp add: attempt_round_def attempt_load_def Let_def split: if_splits)
    next
      case False
      with Suc.prems(1) Inl db Suc.IH [of "Suc att" ?l3 ?b "Some e"] show ?thesis
        by (simp add: attempt_round_def attempt_load_def Let_def split: if_splits)
    qed
  qed
qed simp

section \<open>The invariant\<close>

text \<open>A receiver belongs to the channel of its quote, and will be woken when the head is past \<open>n\<close>.\<close>

definition hears :: "('w, 'r) WatchOps \<Rightarrow> 'w Ledger \<Rightarrow> 'r Pump \<Rightarrow> nat \<Rightarrow> bool" where
  "hears W l p n \<longleftrightarrow>
     (\<exists>w. bus l (pump_quote p) = Some w \<and> receiver_of W w (rx_watch p) \<and>
        (unat (borrow W w) \<le> n \<or> has_changed W w (rx_watch p)))"

definition task_ok :: "External \<Rightarrow> ('w, 'r) WatchOps \<Rightarrow> 'w Ledger \<Rightarrow> 'r Task \<Rightarrow> bool" where
  "task_ok E W l t \<longleftrightarrow>
     (let p = pump t; es = history_of E (conn l) (pump_quote p) in
        feed_ok es p \<and>
        (case in_round t of
           None \<Rightarrow> waiting_ok W l p
         | Some rd \<Rightarrow> phase p \<noteq> Finished \<and> unat (watermark p) < unat (round_head rd) \<and>
             unat (round_head rd) \<le> length es \<and> hears W l p (unat (round_head rd))))"

definition heads_ok :: "External \<Rightarrow> Connection \<Rightarrow> (rstring \<times> u64 option) list \<Rightarrow> bool" where
  "heads_ok E c fs \<longleftrightarrow> (\<forall>q h. (q, Some h) \<in> set fs \<longrightarrow> unat h \<le> length (history_of E c q))"

definition conc_ok ::
  "External \<Rightarrow> ('w, 'r) WatchOps \<Rightarrow> 'w Ledger \<Rightarrow> nat \<Rightarrow> (rstring \<times> u64 option) list \<Rightarrow> Registration list \<Rightarrow>
   'r Task list \<Rightarrow> bool" where
  "conc_ok E W l n fs rs ts \<longleftrightarrow>
     ledger_inv E (conn l) \<and> in_flight_appends l = of_nat n \<and>
     heads_ok E (conn l) fs \<and> (\<forall>R \<in> set rs. reg_ok E (conn l) R) \<and> bus_ok E W l \<and> (\<forall>t \<in> set ts. task_ok E W l t)"

definition conc_inv :: "External \<Rightarrow> ('w, 'r) WatchOps \<Rightarrow> ('w, 'r) Concurrent \<Rightarrow> bool" where
  "conc_inv E W S \<longleftrightarrow>
     conc_ok E W (shared S) (length (running S) + length (finishing S) + malformed S)
       (finishing S) (subscribing S) (tasks S)"

lemma waiting_hears:
  "waiting_ok W l p \<longleftrightarrow>
     (if phase p = Waiting then hears W l p (unat (watermark p))
      else \<exists>w. bus l (pump_quote p) = Some w \<and> receiver_of W w (rx_watch p))"
  by (auto simp: waiting_ok_def hears_def)

lemma task_ok_mono:
  assumes "task_ok E W l t" and "p = pump t"
    and "prefix (history_of E (conn l) (pump_quote p)) (history_of E (conn l') (pump_quote p))"
    and "\<And>n. hears W l p n \<Longrightarrow> hears W l' p n" and "waiting_ok W l p \<Longrightarrow> waiting_ok W l' p"
  shows "task_ok E W l' t"
proof (cases "in_round t")
  case None
  with assms feed_ok_mono [OF _ assms(3)] show ?thesis by (auto simp: task_ok_def Let_def)
next
  case (Some rd)
  with assms feed_ok_mono [OF _ assms(3)] prefix_length_le [OF assms(3)] show ?thesis
    by (auto simp: task_ok_def Let_def)
qed

lemma conc_conn:
  assumes ok: "conc_ok E W l n fs rs ts" and inv: "ledger_inv E (conn l')" and le: "hist_le E (conn l) (conn l')"
    and same: "bus l' = bus l" "in_flight_appends l' = of_nat m"
  shows "conc_ok E W l' m fs rs ts"
proof -
  have len: "length (history_of E (conn l) q) \<le> length (history_of E (conn l') q)" for q
    by (rule hist_le_length [OF le])
  have "task_ok E W l' t" if "t \<in> set ts" for t
    using ok that le by (intro task_ok_mono [of E W l t _ l'])
      (simp_all add: conc_ok_def hist_le_def hears_def waiting_ok_def same)
  moreover have "bus_ok E W l'"
    using ok len unfolding conc_ok_def bus_ok_def same by (meson order_trans)
  moreover have "heads_ok E (conn l') fs"
    using ok len unfolding conc_ok_def heads_ok_def by (meson order_trans)
  moreover have "\<forall>R \<in> set rs. reg_ok E (conn l') R"
    using ok reg_ok_mono [OF _ le] unfolding conc_ok_def by blast
  ultimately show ?thesis using inv same(2) unfolding conc_ok_def by blast
qed

lemma conc_ledger:
  assumes "conc_ok E W l n fs rs ts" and "conn l' = conn l" and "bus l' = bus l" and "in_flight_appends l' = of_nat m"
  shows "conc_ok E W l' m fs rs ts"
  using assms(1) by (rule conc_conn) (use assms in \<open>simp_all add: conc_ok_def hist_le_def\<close>)

lemma conc_drop:
  assumes "conc_ok E W l (Suc n) fs rs ts"
  shows "conc_ok E W (InFlightGuard_drop l) n fs rs ts"
  using assms by (intro conc_ledger [OF assms]) (simp_all add: conc_ok_def)

lemma conc_subset:
  "conc_ok E W l n fs rs ts \<Longrightarrow> set fs' \<subseteq> set fs \<Longrightarrow> set rs' \<subseteq> set rs \<Longrightarrow> conc_ok E W l n fs' rs' ts"
  unfolding conc_ok_def heads_ok_def by blast

lemma conc_task:
  assumes "conc_ok E W l n fs rs ts" and "task_ok E W l t"
  shows "conc_ok E W l n fs rs (ts[i := t])"
proof -
  have "set (ts[i := t]) \<subseteq> insert t (set ts)" by (rule set_update_subset_insert)
  with assms show ?thesis unfolding conc_ok_def by blast
qed

text \<open>A head that is sent on the channel of a quote keeps the invariant.\<close>

lemma conc_sent:
  assumes W: "watch_ok W" and ok: "conc_ok E W l n fs rs ts"
    and bus: "bus l' = (bus l)(q \<mapsto> send_replace W tx head)" and same: "conn l' = conn l" "in_flight_appends l' = in_flight_appends l"
    and tx: "tx = (case bus l q of Some w \<Rightarrow> w | None \<Rightarrow> watch_channel W head)"
    and head: "unat head \<le> length (history_of E (conn l) q)"
  shows "conc_ok E W l' n fs rs ts"
proof -
  note sent = sent_head_ok [OF W bus same(1) tx]
  have "hears W l p m \<Longrightarrow> hears W l' p m" for p m
    using W bus tx by (auto simp: hears_def watch_ok_def)
  then have "task_ok E W l' t" if "t \<in> set ts" for t
    using ok that sent(2) by (intro task_ok_mono [of E W l t _ l']) (simp_all add: conc_ok_def same)
  with ok sent(1) [OF _ head] show ?thesis by (simp add: conc_ok_def same)
qed

text \<open>The steps of a round\<close>

lemma start_round_ok:
  assumes ok: "conc_ok E W l n fs rs ts" and t: "\<lparr>pump = p, in_round = None\<rparr> \<in> set ts"
    and w: "bus l (pump_quote p) = Some w" and ph: "phase p \<noteq> Finished"
  shows "task_ok E W l (start_round (borrow W w) p)"
proof -
  let ?es = "history_of E (conn l) (pump_quote p)"
  have p: "feed_ok ?es p" "waiting_ok W l p" using ok t by (auto simp: conc_ok_def task_ok_def Let_def)
  have len: "unat (borrow W w) \<le> length ?es" using ok w by (simp add: conc_ok_def bus_ok_def)
  have rcv: "receiver_of W w (rx_watch p)" using p(2) w by (auto simp: waiting_ok_def)
  show ?thesis
  proof (cases "unat (borrow W w) \<le> unat (watermark p)")
    case True
    then have "waiting_ok W l (p\<lparr>phase := Waiting\<rparr>)" using w rcv by (auto simp: waiting_ok_def)
    moreover have "feed_ok ?es (p\<lparr>phase := Waiting\<rparr>)" using p(1) ph by (rule feed_ok_waiting)
    ultimately show ?thesis using True by (simp add: start_round_def task_ok_def Let_def)
  next
    case False
    with p(1) ph len w rcv show ?thesis by (auto simp: start_round_def task_ok_def Let_def hears_def)
  qed
qed

text \<open>A task that was woken looks at the head next, whatever it is then.\<close>

lemma woken_ok:
  assumes W: "watch_ok W" and ok: "conc_ok E W l n fs rs ts" and t: "\<lparr>pump = p, in_round = None\<rparr> \<in> set ts"
    and w: "bus l (pump_quote p) = Some w" and ph: "phase p \<noteq> Finished"
  shows "task_ok E W l \<lparr>pump = p\<lparr>rx_watch := mark_seen W w (rx_watch p), phase := CatchingUp\<rparr>, in_round = None\<rparr>"
proof -
  let ?p = "p\<lparr>rx_watch := mark_seen W w (rx_watch p), phase := CatchingUp\<rparr>"
  have p: "feed_ok (history_of E (conn l) (pump_quote p)) p" "waiting_ok W l p"
    using ok t by (auto simp: conc_ok_def task_ok_def Let_def)
  then have "feed_ok (history_of E (conn l) (pump_quote p)) ?p" using ph by (intro feed_ok_waiting) simp_all
  moreover have "waiting_ok W l ?p" using W p(2) w by (auto simp: waiting_ok_def watch_ok_def)
  ultimately show ?thesis by (simp add: task_ok_def Let_def)
qed

lemma push_keeps:
  "push x p = (taken, p') \<Longrightarrow> pump_quote p' = pump_quote p \<and> pump_after p' = pump_after p \<and> rx_watch p' = rx_watch p"
  by (cases x p rule: push_cases) auto

lemma deliver_keeps:
  "pump_quote (deliver head r p) = pump_quote p" "rx_watch (deliver head r p) = rx_watch p"
  using push_keeps [OF prod.collapse [symmetric]]
  by (auto simp: deliver_def finish_def dest: push_keeps split: sum.splits prod.splits)

lemma deliver_phase:
  "phase (deliver head r p) = Finished \<or> phase (deliver head r p) = Waiting \<and> watermark (deliver head r p) = head"
  by (auto simp: deliver_def finish_def Let_def split: sum.splits prod.splits)

lemma deliver_ok:
  assumes "feed_ok es p" and "phase p \<noteq> Finished" and "unat (watermark p) < unat head"
    and "unat head \<le> length es" and "length es < 2 ^ 63"
    and "\<forall>chunk. r = Inr chunk \<longrightarrow> chunk = stored_events (pump_quote p) (Suc (unat (watermark p)))
      (drop (unat (watermark p)) (take (unat head) es))"
  shows "feed_ok es (deliver head r p)"
proof (cases r)
  case (Inl st)
  with feed_ok_error [OF assms(1,2)] show ?thesis by (simp add: deliver_def)
next
  case (Inr chunk)
  obtain taken p1 where push: "push (Inr (tail_update (watermark p) chunk)) p = (taken, p1)" by fastforce
  have "deliver head r p = (if chunk = [] then p\<lparr>watermark := head, phase := Waiting\<rparr>
      else if taken then p1\<lparr>watermark := head, phase := Waiting\<rparr> else finish p1)"
    by (simp add: deliver_def Inr push)
  with feed_ok_tail [OF assms(1-5) _ push, of Waiting] assms(6) Inr show ?thesis by auto
qed

lemma attempt_round_ok:
  assumes ok: "conc_ok E W l n fs rs ts" and t: "\<lparr>pump = p, in_round = Some rd\<rparr> \<in> set ts"
    and run: "attempt_round E rd l p = (l', t')"
  shows "conc_ok E W l' n fs rs ts \<and> task_ok E W l' t' \<and> history_of E (conn l') = history_of E (conn l)"
proof -
  let ?es = "history_of E (conn l) (pump_quote p)"
  have inv: "ledger_inv E (conn l)" and p: "feed_ok ?es p" "phase p \<noteq> Finished"
    "unat (watermark p) < unat (round_head rd)" "unat (round_head rd) \<le> length ?es" "hears W l p (unat (round_head rd))"
    using ok t by (auto simp: conc_ok_def task_ok_def Let_def)
  note bound = ledger_inv_length [OF inv, of "pump_quote p"]
  note load = load_between_history [OF inv p(3)]
  have c: "conn l' = advance (conn l)" "bus l' = bus l" "in_flight_appends l' = in_flight_appends l"
    using run load p(4) bound
    by (auto simp: attempt_round_def attempt_load_def on_db_def sleep_ms_def Let_def split: option.splits if_splits)
  consider (again) n b where "t' = \<lparr>pump = p, in_round = Some \<lparr>round_head = round_head rd, round_attempt = n, round_backoff = b\<rparr>\<rparr>"
    | (over) r where "t' = \<lparr>pump = deliver (round_head rd) r p, in_round = None\<rparr>"
        and "\<forall>chunk. r = Inr chunk \<longrightarrow> chunk = range_of E (conn l) (pump_quote p) (watermark p) (round_head rd)"
    using run load p(4) bound
    by (auto simp: attempt_round_def attempt_load_def on_db_def sleep_ms_def Let_def split: option.splits if_splits)
  then have "task_ok E W l' t'"
  proof cases
    case again
    with p show ?thesis by (simp add: task_ok_def c hears_def)
  next
    case over
    have "waiting_ok W l' (deliver (round_head rd) r p)"
      using p(5) deliver_phase [of "round_head rd" r p] by (auto simp: waiting_ok_def hears_def deliver_keeps c)
    moreover have "feed_ok ?es (deliver (round_head rd) r p)"
      using over(2) by (intro deliver_ok [OF p(1-4) bound]) (simp add: range_of_def)
    ultimately show ?thesis by (simp add: over(1) task_ok_def c deliver_keeps)
  qed
  moreover have "conc_ok E W l' n fs rs ts"
    using ok inv c by (intro conc_conn [OF ok]) (simp_all add: conc_ok_def hist_le_def)
  ultimately show ?thesis by (simp add: c)
qed

section \<open>Every step keeps the invariant\<close>

lemma run_job_grows:
  assumes "conc_ok E W l n fs rs ts" and "run_job E j (conn l) = (r, c)"
  shows "conc_ok E W (l\<lparr>conn := c\<rparr>) n fs rs ts \<and> hist_le E (conn l) c \<and>
    (\<forall>cs. r = Inr cs \<longrightarrow> cs \<noteq> [] \<longrightarrow> unat (seq (last cs)) \<le> length (history_of E c (job_quote j)))"
proof -
  have "ledger_inv E (conn l)" using assms(1) by (simp add: conc_ok_def)
  note grows = append_one_grows [OF this assms(2) [unfolded run_job_def]]
  moreover have "conc_ok E W (l\<lparr>conn := c\<rparr>) n fs rs ts"
    using assms(1) grows by (intro conc_conn [OF assms(1)]) (simp_all add: conc_ok_def)
  ultimately show ?thesis by blast
qed

lemma subscribe_db_grows:
  assumes "conc_ok E W l n fs rs ts" and "subscribe_db E q after (conn l) = (r, c)"
  shows "conc_ok E W (l\<lparr>conn := c\<rparr>) n fs rs ts \<and> hist_le E (conn l) c \<and>
    (\<forall>init bs. r = Inr init \<longrightarrow>
       reg_ok E c \<lparr>reg_quote = q, reg_after = after, reg_sends = bs, reg_init = init\<rparr>)"
proof -
  have "ledger_inv E (conn l)" using assms(1) by (simp add: conc_ok_def)
  note reads = subscribe_db_reads [OF this assms(2)]
  moreover have "conc_ok E W (l\<lparr>conn := c\<rparr>) n fs rs ts"
    using assms(1) reads by (intro conc_conn [OF assms(1)]) (simp_all add: conc_ok_def)
  ultimately show ?thesis by blast
qed

lemma register_grows:
  assumes W: "watch_ok W" and ok: "conc_ok E W l n fs rs ts" and R: "reg_ok E (conn l) R"
    and run: "register W (reg_quote R) (init_last_seq (reg_init R)) l = (rx, l')"
  shows "conc_ok E W l' n fs rs (ts @
    [\<lparr>pump = pump_start (reg_init R) (new_pump (reg_quote R) (reg_after R) rx (reg_sends R)), in_round = None\<rparr>])"
proof -
  let ?q = "reg_quote R" and ?head = "init_last_seq (reg_init R)"
  let ?tx = "case bus l ?q of Some w \<Rightarrow> w | None \<Rightarrow> watch_channel W ?head"
  let ?p = "pump_start (reg_init R) (new_pump ?q (reg_after R) rx (reg_sends R))"
  have l: "conn l' = conn l" "bus l' = (bus l)(?q \<mapsto> send_replace W ?tx ?head)"
    "rx = watch_subscribe W (send_replace W ?tx ?head)" "in_flight_appends l' = in_flight_appends l"
    using run by (simp_all only: register_def Let_def prod.inject) (auto simp del: fun_upd_apply)
  have inv: "ledger_inv E (conn l)" using ok by (simp add: conc_ok_def)
  have "unat ?head \<le> length (history_of E (conn l) ?q)" using R by (auto simp: reg_ok_def)
  note sent = conc_sent [OF W ok l(2,1,4) refl this]
  have p: "feed_ok (history_of E (conn l) ?q) ?p" "pump_quote ?p = ?q" "rx_watch ?p = rx" "phase ?p \<noteq> Waiting"
    using pump_start_ok [OF R inv refl, of rx "reg_sends R"] by (simp_all only: simp_thms)
  have "waiting_ok W l' ?p" using W l(2,3) p by (auto simp: waiting_ok_def watch_ok_def)
  with p(1,2) have "task_ok E W l' \<lparr>pump = ?p, in_round = None\<rparr>" by (simp add: task_ok_def l(1))
  with sent show ?thesis by (simp add: conc_ok_def)
qed

lemma conclude_conn [simp]: "conn (conclude W q head l) = conn l"
  by (simp add: conclude_def publish_head_def Let_def split: option.split)

lemma conclude_grows:
  assumes "watch_ok W" and "conc_ok E W l n fs rs ts" and "(q, head) \<in> set fs"
  shows "conc_ok E W (conclude W q head l) n fs rs ts"
proof -
  have sent: "conc_ok E W (case head of None \<Rightarrow> l | Some h \<Rightarrow> publish_head W q h l) n fs rs ts"
  proof (cases head)
    case (Some h)
    with assms(2,3) have "unat h \<le> length (history_of E (conn l) q)" by (auto simp: conc_ok_def heads_ok_def)
    with Some show ?thesis
      by (auto simp: publish_head_def Let_def intro!: conc_sent [OF assms(1,2) _ _ _ refl])
  qed (use assms in simp)
  then show ?thesis unfolding conclude_def by (rule conc_ledger) (use sent in \<open>simp_all add: conc_ok_def\<close>)
qed

lemma enter_inv:
  assumes "conc_inv E W S"
  shows "conc_inv E W (S\<lparr>shared := InFlightGuard_enter (shared S), running := running S @ [j]\<rparr>)"
    and "conc_inv E W (S\<lparr>shared := InFlightGuard_enter (shared S), malformed := Suc (malformed S)\<rparr>)"
proof -
  have "conc_ok E W (InFlightGuard_enter (shared S)) (Suc (length (running S) + length (finishing S) + malformed S))
      (finishing S) (subscribing S) (tasks S)"
    by (rule conc_ledger [OF assms [unfolded conc_inv_def]]) (use assms in \<open>simp_all add: conc_inv_def conc_ok_def\<close>)
  then show "conc_inv E W (S\<lparr>shared := InFlightGuard_enter (shared S), running := running S @ [j]\<rparr>)"
    "conc_inv E W (S\<lparr>shared := InFlightGuard_enter (shared S), malformed := Suc (malformed S)\<rparr>)"
    by (simp_all add: conc_inv_def)
qed

lemma refuse_malformed_inv:
  assumes "conc_inv E W S" and "malformed S = Suc n"
  shows "conc_inv E W (S\<lparr>shared := InFlightGuard_drop (shared S), malformed := n\<rparr>)"
proof -
  have "conc_ok E W (InFlightGuard_drop (shared S)) (length (running S) + length (finishing S) + n)
      (finishing S) (subscribing S) (tasks S)"
    using assms by (intro conc_drop) (simp add: conc_inv_def)
  then show ?thesis by (simp add: conc_inv_def)
qed

lemma commit_inv:
  assumes inv: "conc_inv E W S" and run: "running S = before @ j # behind" "run_job E j (conn (shared S)) = (Inr cs, c)"
  shows "conc_inv E W (S\<lparr>shared := (shared S)\<lparr>conn := c\<rparr>, running := before @ behind,
      finishing := finishing S @ [(job_quote j, if cs = [] then None else Some (seq (last cs)))]\<rparr>) \<and>
    hist_le E (conn (shared S)) c"
proof -
  note grows = run_job_grows [OF inv [unfolded conc_inv_def] run(2)]
  then have "heads_ok E c (finishing S @ [(job_quote j, if cs = [] then None else Some (seq (last cs)))])"
    by (auto simp: conc_ok_def heads_ok_def)
  with grows show ?thesis by (simp add: run(1) conc_inv_def conc_ok_def)
qed

lemma refuse_inv:
  assumes inv: "conc_inv E W S" and run: "running S = before @ j # behind" "run_job E j (conn (shared S)) = (Inl e, c)"
  shows "conc_inv E W (S\<lparr>shared := InFlightGuard_drop ((shared S)\<lparr>conn := c\<rparr>), running := before @ behind\<rparr>) \<and>
    hist_le E (conn (shared S)) c"
proof -
  have n: "length (running S) = Suc (length (before @ behind))" by (simp add: run(1))
  note grows = run_job_grows [OF inv [unfolded conc_inv_def] run(2)]
  with n have "conc_ok E W (InFlightGuard_drop ((shared S)\<lparr>conn := c\<rparr>)) (length (before @ behind) + length (finishing S) + malformed S)
      (finishing S) (subscribing S) (tasks S)"
    by (intro conc_drop) simp
  with grows show ?thesis by (simp add: conc_inv_def)
qed

text \<open>An append that ends, after its publication or without it, leaves the guard.\<close>

lemma leave_inv:
  assumes ok: "conc_ok E W l (length (running S) + length (finishing S) + malformed S) (finishing S) (subscribing S) (tasks S)"
    and fin: "finishing S = before @ x # behind"
  shows "conc_inv E W (S\<lparr>shared := InFlightGuard_drop l, finishing := before @ behind\<rparr>)"
proof -
  have n: "length (finishing S) = Suc (length (before @ behind))" by (simp add: fin)
  with ok have "conc_ok E W (InFlightGuard_drop l) (length (running S) + length (before @ behind) + malformed S)
      (finishing S) (subscribing S) (tasks S)"
    by (intro conc_drop) simp
  from conc_subset [OF this, of "before @ behind" "subscribing S"] show ?thesis
    by (auto simp: fin conc_inv_def)
qed

lemma cancel_running_inv:
  assumes "conc_inv E W S" and "running S = before @ j # behind"
  shows "conc_inv E W (S\<lparr>shared := InFlightGuard_drop (shared S), running := before @ behind,
    orphaned := orphaned S @ [j]\<rparr>)"
proof -
  have "conc_ok E W (InFlightGuard_drop (shared S)) (length (before @ behind) + length (finishing S) + malformed S)
      (finishing S) (subscribing S) (tasks S)"
    using assms by (intro conc_drop) (simp add: conc_inv_def)
  then show ?thesis by (simp add: conc_inv_def)
qed

lemma look_inv:
  assumes inv: "conc_inv E W S" and i: "i < length (tasks S)" "tasks S ! i = \<lparr>pump = p, in_round = None\<rparr>"
    and w: "bus (shared S) (pump_quote p) = Some w" and ph: "phase p \<noteq> Finished"
  shows "conc_inv E W (S\<lparr>tasks := (tasks S)[i := start_round (borrow W w) p]\<rparr>)"
    and "watch_ok W \<Longrightarrow> conc_inv E W (S\<lparr>tasks := (tasks S)[i :=
      \<lparr>pump = p\<lparr>rx_watch := mark_seen W w (rx_watch p), phase := CatchingUp\<rparr>, in_round = None\<rparr>]\<rparr>)"
proof -
  have t: "\<lparr>pump = p, in_round = None\<rparr> \<in> set (tasks S)" using i by (metis nth_mem)
  note ok = inv [unfolded conc_inv_def]
  from conc_task [OF ok start_round_ok [OF ok t w ph]]
  show "conc_inv E W (S\<lparr>tasks := (tasks S)[i := start_round (borrow W w) p]\<rparr>)" by (simp add: conc_inv_def)
  assume "watch_ok W"
  from conc_task [OF ok woken_ok [OF this ok t w ph]]
  show "conc_inv E W (S\<lparr>tasks := (tasks S)[i :=
      \<lparr>pump = p\<lparr>rx_watch := mark_seen W w (rx_watch p), phase := CatchingUp\<rparr>, in_round = None\<rparr>]\<rparr>)"
    by (simp add: conc_inv_def)
qed

lemma register_inv:
  assumes W: "watch_ok W" and inv: "conc_inv E W S" and sub: "subscribing S = before @ R # behind"
    and run: "register W (reg_quote R) (init_last_seq (reg_init R)) (shared S) = (rx, l)"
  shows "conc_inv E W (S\<lparr>shared := l, subscribing := before @ behind, tasks := tasks S @
      [\<lparr>pump = pump_start (reg_init R) (new_pump (reg_quote R) (reg_after R) rx (reg_sends R)), in_round = None\<rparr>]\<rparr>) \<and>
    conn l = conn (shared S)"
proof -
  have "reg_ok E (conn (shared S)) R" using inv sub by (auto simp: conc_inv_def conc_ok_def)
  from conc_subset [OF register_grows [OF W inv [unfolded conc_inv_def] this run], of _ "before @ behind"]
  show ?thesis using run by (auto simp: sub conc_inv_def register_def Let_def)
qed

lemma hist_le_refl [simp]: "hist_le E c c"
  by (simp add: hist_le_def)

lemma cstep_inv:
  assumes W: "watch_ok W" and step: "cstep E W S S'" and inv: "conc_inv E W S"
  shows "conc_inv E W S' \<and> hist_le E (conn (shared S)) (conn (shared S'))"
  using step
proof cases
  case (enter j)
  with enter_inv(1) [OF inv] show ?thesis by simp
next
  case enter_malformed
  with enter_inv(2) [OF inv] show ?thesis by simp
next
  case (refuse_malformed n)
  with refuse_malformed_inv [OF inv refuse_malformed(2)] show ?thesis by simp
next
  case (commit before j behind cs c)
  with commit_inv [OF inv commit(2,3)] show ?thesis by simp
next
  case (refuse before j behind e c)
  with refuse_inv [OF inv refuse(2,3)] show ?thesis by simp
next
  case (publish before q head behind)
  have "conc_ok E W (conclude W q head (shared S)) (length (running S) + length (finishing S) + malformed S)
      (finishing S) (subscribing S) (tasks S)"
    by (rule conclude_grows [OF W inv [unfolded conc_inv_def]]) (simp add: publish(2))
  from leave_inv [OF this publish(2)] show ?thesis by (simp add: publish(1))
next
  case (cancel_running before j behind)
  with cancel_running_inv [OF inv cancel_running(2)] show ?thesis by simp
next
  case (cancel_finishing before x behind)
  with leave_inv [OF inv [unfolded conc_inv_def] cancel_finishing(2)] show ?thesis by simp
next
  case (orphan_runs before j behind r c)
  with run_job_grows [OF inv [unfolded conc_inv_def] orphan_runs(3)] show ?thesis by (simp add: conc_inv_def)
next
  case (read q after init c bs)
  with subscribe_db_grows [OF inv [unfolded conc_inv_def] read(2)] show ?thesis
    by (auto simp: conc_inv_def conc_ok_def)
next
  case (read_fails q after e c)
  with subscribe_db_grows [OF inv [unfolded conc_inv_def] read_fails(2)] show ?thesis by (simp add: conc_inv_def)
next
  case (register before R behind rx l)
  with register_inv [OF W inv register(2,3)] show ?thesis by simp
next
  case (cancel_subscribing before R behind)
  with conc_subset [OF inv [unfolded conc_inv_def], of "finishing S" "before @ behind"] show ?thesis
    by (auto simp: conc_inv_def)
next
  case (wake i p w)
  with look_inv(2) [OF inv wake(2,3,5) _ W] show ?thesis by simp
next
  case (look i p w)
  with look_inv(1) [OF inv look(2,3,5)] show ?thesis by simp
next
  case (attempt i p rd l t)
  then have "\<lparr>pump = p, in_round = Some rd\<rparr> \<in> set (tasks S)" by (metis nth_mem)
  from attempt_round_ok [OF inv [unfolded conc_inv_def] this attempt(4)]
  show ?thesis using conc_task by (auto simp: attempt(1) conc_inv_def hist_le_def)
qed

interpretation awaits: evolving "cstep E W" "\<lambda>S. watch_ok W \<and> conc_inv E W S"
    "\<lambda>S S'. hist_le E (conn (shared S)) (conn (shared S'))" for E W
  by unfold_locales (auto simp: hist_le_def dest: cstep_inv [unfolded hist_le_def] intro: prefix_order.trans)

lemma creachable_run: "creachable E W c0 S \<Longrightarrow> (cstep E W)\<^sup>*\<^sup>* (start_concurrent c0) S"
  by (induction rule: creachable.induct) (auto intro: rtranclp.rtrancl_into_rtrancl)

lemma start_concurrent_conn [simp]: "conn (shared (start_concurrent c)) = c"
  by (simp add: start_concurrent_def new_ledger_def)

lemma creachable_inv:
  assumes "ledger_inv E c0" and "watch_ok W" and "creachable E W c0 S"
  shows "conc_inv E W S \<and> hist_le E c0 (conn (shared S))"
proof -
  have "conc_inv E W (start_concurrent c0)"
    using assms(1) by (simp add: conc_inv_def conc_ok_def start_concurrent_def new_ledger_def heads_ok_def bus_ok_def)
  with awaits.run_ok [OF creachable_run [OF assms(3)]] assms(2) show ?thesis by simp
qed

lemma csteps_reachable: "(cstep E W)\<^sup>*\<^sup>* S S' \<Longrightarrow> creachable E W c0 S \<Longrightarrow> creachable E W c0 S'"
  by (induction rule: rtranclp_induct) (auto intro: creachable.next_step)

section \<open>The whole-round model is a part of this one\<close>

text \<open>A load depends on the connection only.\<close>

lemma load_attempts_conn:
  "conn l = conn l' \<Longrightarrow> load_attempts E q a u n att b err l = (r, l1) \<Longrightarrow>
   load_attempts E q a u n att b err l' = (r', l1') \<Longrightarrow>
   r' = r \<and> conn l1' = conn l1 \<and> bus l1 = bus l \<and> bus l1' = bus l'"
proof (induction n arbitrary: att b err l l')
  case 0
  then show ?case by auto
next
  case (Suc n)
  let ?l = "\<lambda>l :: 'a Ledger. if 0 < att then sleep_ms b (count_metric ''quote_ledger_subscribe_db_retries_total'' '''' l) else l"
  have c: "conn (?l l) = conn l" "bus (?l l) = bus l" for l by (simp_all add: sleep_ms_def)
  obtain x c' where load: "load_stored_events_between E q a u (conn l) = (x, c')" by fastforce
  show ?case
  proof (cases x)
    case (Inl e)
    with Suc.prems load c show ?thesis
      by (auto simp: on_db_def sleep_ms_def Let_def split: if_splits dest: Suc.IH [rotated])
  next
    case (Inr evs)
    with Suc.prems load c show ?thesis by (auto simp: on_db_def sleep_ms_def Let_def split: if_splits)
  qed
qed

lemma attempts_positive [simp]: "0 < SUBSCRIBE_DB_MAX_ATTEMPTS"
  by (simp add: SUBSCRIBE_DB_MAX_ATTEMPTS_def)

lemma rounds_start:
  "rounds E SUBSCRIBE_DB_MAX_ATTEMPTS (l, start_round head p) =
    (case pump_catch_up E head l p of (l', p') \<Rightarrow> (l', \<lparr>pump = p', in_round = None\<rparr>))"
  using rounds_load_attempts [where att = 0 and left = SUBSCRIBE_DB_MAX_ATTEMPTS and E = E and l = l and p = p
      and head = head and b = SUBSCRIBE_DB_BACKOFF_START_MS and err = None]
  by (auto simp: start_round_def pump_catch_up_deliver subscribe_load_between_def split: prod.split)

lemma wake_is_catch_up: "phase p = Waiting \<Longrightarrow> pump_wake E head l p = pump_catch_up E head l p"
  by (simp add: pump_wake_deliver pump_catch_up_deliver)

lemma rounds_csteps:
  assumes "i < length (tasks F)"
  shows "(cstep E W)\<^sup>*\<^sup>* F (F\<lparr>shared := fst (rounds E n (shared F, tasks F ! i)),
      tasks := (tasks F)[i := snd (rounds E n (shared F, tasks F ! i))]\<rparr>)"
  using assms
proof (induction n arbitrary: F)
  case 0
  then show ?case by simp
next
  case (Suc n)
  show ?case
  proof (cases "in_round (tasks F ! i)")
    case None
    then show ?thesis by simp
  next
    case (Some rd)
    obtain l t where run: "attempt_round E rd (shared F) (pump (tasks F ! i)) = (l, t)" by fastforce
    let ?F = "F\<lparr>shared := l, tasks := (tasks F)[i := t]\<rparr>"
    have "cstep E W F ?F" using Suc.prems Some run by (intro cstep.attempt) (simp_all add: Task.equality)
    moreover have "(cstep E W)\<^sup>*\<^sup>* ?F (?F\<lparr>shared := fst (rounds E n (l, t)), tasks := (tasks F)[i := snd (rounds E n (l, t))]\<rparr>)"
      using Suc.IH [of ?F] Suc.prems by simp
    ultimately show ?thesis using Some run by (cases "tasks F ! i") (auto intro: converse_rtranclp_into_rtranclp)
  qed
qed

text \<open>A state of the whole-round model and the same state here\<close>

definition same_state :: "('w, 'r) System \<Rightarrow> ('w, 'r) Concurrent \<Rightarrow> bool" where
  "same_state S F \<longleftrightarrow>
     conn (shared F) = conn (ledger S) \<and> bus (shared F) = bus (ledger S) \<and> malformed F = 0 \<and> running F = [] \<and> orphaned F = [] \<and>
     finishing F = List.map (\<lambda>(q, head). (q, Some head)) (publishing S) \<and> subscribing F = registering S \<and>
     tasks F = List.map (\<lambda>p. \<lparr>pump = p, in_round = None\<rparr>) (pumps S)"

lemma pump_catch_up_conn:
  assumes "conn l = conn l'" and "pump_catch_up E head l p = (l1, p1)"
  obtains l1' where "pump_catch_up E head l' p = (l1', p1)" and "conn l1' = conn l1" and "bus l1' = bus l'" and "bus l1 = bus l"
proof (cases "unat head \<le> unat (watermark p)")
  case True
  with assms show ?thesis by (intro that [of l']) (auto simp: pump_catch_up_deliver)
next
  case False
  obtain r l2 where run: "subscribe_load_between E (pump_quote p) (watermark p) head l = (r, l2)" by (rule prod.exhaust)
  obtain r' l2' where run': "subscribe_load_between E (pump_quote p) (watermark p) head l' = (r', l2')" by (rule prod.exhaust)
  from load_attempts_conn [OF assms(1) run [unfolded subscribe_load_between_def] run' [unfolded subscribe_load_between_def]]
    assms(2) False run run'
  show ?thesis by (intro that [of l2']) (auto simp: pump_catch_up_deliver)
qed

text \<open>From the look at the head on a round is that of the whole-round model.\<close>

lemma look_csteps:
  assumes i: "i < length (tasks F)" "tasks F ! i = \<lparr>pump = p, in_round = None\<rparr>" and ph: "phase p = CatchingUp"
    and w: "bus (shared F) (pump_quote p) = Some w" and c: "conn (shared F) = conn l"
    and run: "pump_catch_up E (borrow W w) l p = (l1, p1)"
  obtains l' where "(cstep E W)\<^sup>*\<^sup>* F (F\<lparr>shared := l', tasks := (tasks F)[i := \<lparr>pump = p1, in_round = None\<rparr>]\<rparr>)"
    and "conn l' = conn l1" and "bus l' = bus (shared F)" and "bus l1 = bus l"
proof -
  let ?F1 = "F\<lparr>tasks := (tasks F)[i := start_round (borrow W w) p]\<rparr>"
  from pump_catch_up_conn [OF c [symmetric] run] obtain l' where
    run': "pump_catch_up E (borrow W w) (shared F) p = (l', p1)"
    and l': "conn l' = conn l1" "bus l' = bus (shared F)" "bus l1 = bus l" by blast
  have "cstep E W F ?F1" by (rule cstep.look [OF i ph w])
  moreover have "(cstep E W)\<^sup>*\<^sup>* ?F1 (F\<lparr>shared := l', tasks := (tasks F)[i := \<lparr>pump = p1, in_round = None\<rparr>]\<rparr>)"
    using rounds_csteps [of i ?F1 E W SUBSCRIBE_DB_MAX_ATTEMPTS] i(1) by (simp add: rounds_start run')
  ultimately have "(cstep E W)\<^sup>*\<^sup>* F (F\<lparr>shared := l', tasks := (tasks F)[i := \<lparr>pump = p1, in_round = None\<rparr>]\<rparr>)"
    by (rule converse_rtranclp_into_rtranclp)
  with l' that show thesis by blast
qed

lemma catch_up_phase: "pump_catch_up E head l (p\<lparr>phase := x\<rparr>) = pump_catch_up E head l p"
  by (simp add: pump_catch_up_wake)

lemma round_csteps:
  assumes same: "same_state S F" and i: "i < length (pumps S)" "p = pumps S ! i"
    and w: "bus (ledger S) (pump_quote p) = Some w"
    and rx: "phase p = CatchingUp \<and> rx = rx_watch p \<or>
      phase p = Waiting \<and> has_changed W w (rx_watch p) \<and> rx = mark_seen W w (rx_watch p)"
    and run: "pump_catch_up E (borrow W w) (ledger S) (p\<lparr>rx_watch := rx\<rparr>) = (l, p')"
  shows "\<exists>F'. (cstep E W)\<^sup>*\<^sup>* F F' \<and> same_state (S\<lparr>ledger := l, pumps := (pumps S)[i := p']\<rparr>) F'"
proof -
  let ?p = "p\<lparr>rx_watch := rx, phase := CatchingUp\<rparr>"
  let ?F1 = "F\<lparr>tasks := (tasks F)[i := \<lparr>pump = ?p, in_round = None\<rparr>]\<rparr>"
  have t: "i < length (tasks F)" "tasks F ! i = \<lparr>pump = p, in_round = None\<rparr>" "bus (shared F) (pump_quote p) = Some w"
    using same i w by (simp_all add: same_state_def)
  have first: "(cstep E W)\<^sup>*\<^sup>* F ?F1"
  proof (cases "phase p = CatchingUp")
    case True
    with rx have "?p = p" by auto
    with t(1,2) have "?F1 = F" by (simp add: list_update_same_conv)
    then show ?thesis by simp
  next
    case False
    with rx cstep.wake [OF t(1,2) _ t(3)] show ?thesis by auto
  qed
  have run1: "pump_catch_up E (borrow W w) (ledger S) ?p = (l, p')"
    using run by (simp add: catch_up_phase)
  have "bus (shared ?F1) (pump_quote ?p) = Some w" "conn (shared ?F1) = conn (ledger S)"
    using t(3) same by (simp_all add: same_state_def)
  from look_csteps [OF _ _ _ this run1, of i] t(1) obtain l' where
    rest: "(cstep E W)\<^sup>*\<^sup>* ?F1 (?F1\<lparr>shared := l', tasks := (tasks ?F1)[i := \<lparr>pump = p', in_round = None\<rparr>]\<rparr>)"
    and l': "conn l' = conn l" "bus l' = bus (shared F)" "bus l = bus (ledger S)" by auto
  from first rest have "(cstep E W)\<^sup>*\<^sup>* F (F\<lparr>shared := l', tasks := (tasks F)[i := \<lparr>pump = p', in_round = None\<rparr>]\<rparr>)" by simp
  moreover have "same_state (S\<lparr>ledger := l, pumps := (pumps S)[i := p']\<rparr>)
      (F\<lparr>shared := l', tasks := (tasks F)[i := \<lparr>pump = p', in_round = None\<rparr>]\<rparr>)"
    using same l' by (simp add: same_state_def map_update)
  ultimately show ?thesis by blast
qed

lemma commit_csteps:
  assumes same: "same_state S F" and run: "append_one_db E q k cmd (conn (ledger S)) = (Inr cs, c)"
  shows "\<exists>F'. (cstep E W)\<^sup>*\<^sup>* F F' \<and> same_state (S\<lparr>ledger := (ledger S)\<lparr>conn := c\<rparr>,
    publishing := publishing S @ (if cs = [] then [] else [(q, seq (last cs))])\<rparr>) F'"
proof -
  let ?j = "\<lparr>job_quote = q, job_key = k, job_command = cmd\<rparr>"
  let ?F1 = "F\<lparr>shared := InFlightGuard_enter (shared F), running := running F @ [?j]\<rparr>"
  let ?S' = "S\<lparr>ledger := (ledger S)\<lparr>conn := c\<rparr>,
    publishing := publishing S @ (if cs = [] then [] else [(q, seq (last cs))])\<rparr>"
  let ?x = "(q, if cs = [] then None else Some (seq (last cs)))"
  let ?F2 = "?F1\<lparr>shared := (shared ?F1)\<lparr>conn := c\<rparr>, running := running F @ [], finishing := finishing F @ [?x]\<rparr>"
  have "cstep E W F ?F1" by (rule cstep.enter)
  moreover have "run_job E ?j (conn (shared ?F1)) = (Inr cs, c)"
    using run same by (simp add: run_job_def same_state_def)
  then have "cstep E W ?F1 ?F2" using cstep.commit [of ?F1 "running F" ?j "[]" E cs c W] by simp
  ultimately have two: "(cstep E W)\<^sup>*\<^sup>* F ?F2" by (rule two_steps)
  show ?thesis
  proof (cases "cs = []")
    case False
    with same have "same_state ?S' ?F2" by (simp add: same_state_def)
    with two show ?thesis by blast
  next
    case True
    let ?F3 = "?F2\<lparr>shared := InFlightGuard_drop (conclude W q None (shared ?F2)), finishing := finishing F @ []\<rparr>"
    have "cstep E W ?F2 ?F3" by (rule cstep.publish) (simp add: True)
    with two have "(cstep E W)\<^sup>*\<^sup>* F ?F3" by (rule rtranclp.rtrancl_into_rtrancl)
    moreover have "same_state ?S' ?F3" using True same by (simp add: same_state_def conclude_def)
    ultimately show ?thesis by blast
  qed
qed

lemma commit_fails_csteps:
  assumes same: "same_state S F" and run: "append_one_db E q k cmd (conn (ledger S)) = (Inl e, c)"
  shows "\<exists>F'. (cstep E W)\<^sup>*\<^sup>* F F' \<and> same_state (S\<lparr>ledger := (ledger S)\<lparr>conn := c\<rparr>\<rparr>) F'"
proof -
  let ?j = "\<lparr>job_quote = q, job_key = k, job_command = cmd\<rparr>"
  let ?F1 = "F\<lparr>shared := InFlightGuard_enter (shared F), running := running F @ [?j]\<rparr>"
  let ?F2 = "?F1\<lparr>shared := InFlightGuard_drop ((shared ?F1)\<lparr>conn := c\<rparr>), running := running F @ []\<rparr>"
  have "cstep E W F ?F1" by (rule cstep.enter)
  moreover have "run_job E ?j (conn (shared ?F1)) = (Inl e, c)"
    using run same by (simp add: run_job_def same_state_def)
  then have "cstep E W ?F1 ?F2" using cstep.refuse [of ?F1 "running F" ?j "[]" E e c W] by simp
  ultimately have "(cstep E W)\<^sup>*\<^sup>* F ?F2" by (rule two_steps)
  moreover have "same_state (S\<lparr>ledger := (ledger S)\<lparr>conn := c\<rparr>\<rparr>) ?F2" using same by (simp add: same_state_def)
  ultimately show ?thesis by blast
qed

lemma publish_csteps:
  assumes "same_state S F" and "publishing S = before @ (q, head) # behind"
  shows "\<exists>F'. (cstep E W)\<^sup>*\<^sup>* F F' \<and>
    same_state (S\<lparr>ledger := publish_head W q head (ledger S), publishing := before @ behind\<rparr>) F'"
proof -
  let ?f = "List.map (\<lambda>(q, head). (q, Some head)) :: (rstring \<times> u64) list \<Rightarrow> _"
  let ?F = "F\<lparr>shared := InFlightGuard_drop (conclude W q (Some head) (shared F)), finishing := ?f before @ ?f behind\<rparr>"
  have "cstep E W F ?F" using assms by (intro cstep.publish) (simp add: same_state_def)
  moreover have "same_state (S\<lparr>ledger := publish_head W q head (ledger S), publishing := before @ behind\<rparr>) ?F"
    using assms by (simp add: same_state_def conclude_def publish_head_def Let_def)
  ultimately show ?thesis by blast
qed

lemma read_csteps:
  assumes "same_state S F" and "subscribe_db E q after (conn (ledger S)) = (Inr init, c)"
  shows "\<exists>F'. (cstep E W)\<^sup>*\<^sup>* F F' \<and> same_state (S\<lparr>ledger := (ledger S)\<lparr>conn := c\<rparr>,
    registering := registering S @ [\<lparr>reg_quote = q, reg_after = after, reg_sends = bs, reg_init = init\<rparr>]\<rparr>) F'"
proof -
  let ?R = "\<lparr>reg_quote = q, reg_after = after, reg_sends = bs, reg_init = init\<rparr>"
  let ?F = "F\<lparr>shared := (shared F)\<lparr>conn := c\<rparr>, subscribing := subscribing F @ [?R]\<rparr>"
  have "cstep E W F ?F" using assms by (intro cstep.read) (simp add: same_state_def)
  moreover have "same_state (S\<lparr>ledger := (ledger S)\<lparr>conn := c\<rparr>, registering := registering S @ [?R]\<rparr>) ?F"
    using assms(1) by (simp add: same_state_def)
  ultimately show ?thesis by blast
qed

lemma read_fails_csteps:
  assumes "same_state S F" and "subscribe_db E q after (conn (ledger S)) = (Inl e, c)"
  shows "\<exists>F'. (cstep E W)\<^sup>*\<^sup>* F F' \<and> same_state (S\<lparr>ledger := (ledger S)\<lparr>conn := c\<rparr>\<rparr>) F'"
proof -
  have "cstep E W F (F\<lparr>shared := (shared F)\<lparr>conn := c\<rparr>\<rparr>)"
    using assms by (intro cstep.read_fails) (simp add: same_state_def)
  moreover have "same_state (S\<lparr>ledger := (ledger S)\<lparr>conn := c\<rparr>\<rparr>) (F\<lparr>shared := (shared F)\<lparr>conn := c\<rparr>\<rparr>)"
    using assms(1) by (simp add: same_state_def)
  ultimately show ?thesis by blast
qed

lemma register_csteps:
  assumes same: "same_state S F" and R: "registering S = before @ R # behind"
    and run: "register W (reg_quote R) (init_last_seq (reg_init R)) (ledger S) = (rx, l)"
  shows "\<exists>F'. (cstep E W)\<^sup>*\<^sup>* F F' \<and> same_state (S\<lparr>ledger := l, registering := before @ behind,
    pumps := pumps S @ [pump_start (reg_init R) (new_pump (reg_quote R) (reg_after R) rx (reg_sends R))]\<rparr>) F'"
proof -
  let ?p = "pump_start (reg_init R) (new_pump (reg_quote R) (reg_after R) rx (reg_sends R))"
  obtain rx' l' where run': "register W (reg_quote R) (init_last_seq (reg_init R)) (shared F) = (rx', l')" by fastforce
  with run same have same': "rx' = rx" "conn l' = conn l" "bus l' = bus l"
    by (auto simp: register_def same_state_def Let_def)
  let ?F = "F\<lparr>shared := l', subscribing := before @ behind, tasks := tasks F @ [\<lparr>pump = ?p, in_round = None\<rparr>]\<rparr>"
  have "cstep E W F ?F" using R same run' same'(1) by (intro cstep.register) (simp_all add: same_state_def)
  moreover have "same_state (S\<lparr>ledger := l, registering := before @ behind, pumps := pumps S @ [?p]\<rparr>) ?F"
    using same same' by (simp add: same_state_def)
  ultimately show ?thesis by blast
qed

lemma step_csteps:
  assumes "step E W S S'" and same: "same_state S F"
  shows "\<exists>F'. (cstep E W)\<^sup>*\<^sup>* F F' \<and> same_state S' F'"
  using assms(1)
proof cases
  case (catch_up i p w l p')
  from round_csteps [OF same catch_up(2,3,5), where W = W and E = E and rx = "rx_watch p" and l = l and p' = p'] catch_up(4,6) show ?thesis
    by (simp add: catch_up(1))
next
  case (wake i p w l p')
  have "phase (p\<lparr>rx_watch := mark_seen W w (rx_watch p)\<rparr>) = Waiting" using wake(4) by simp
  with wake(7) have "pump_catch_up E (borrow W w) (ledger S) (p\<lparr>rx_watch := mark_seen W w (rx_watch p)\<rparr>) = (l, p')"
    by (simp only: wake_is_catch_up)
  from round_csteps [OF same wake(2,3,5) _ this] wake(4,6) show ?thesis by (simp add: wake(1))
next
  case (commit q k cmd cs c)
  show ?thesis unfolding commit(1) by (rule commit_csteps [OF same commit(2)])
next
  case (commit_fails q k cmd e c)
  show ?thesis unfolding commit_fails(1) by (rule commit_fails_csteps [OF same commit_fails(2)])
next
  case (publish before q head behind)
  show ?thesis unfolding publish(1) by (rule publish_csteps [OF same publish(2)])
next
  case (read q after init c bs)
  show ?thesis unfolding read(1) by (rule read_csteps [OF same read(2)])
next
  case (read_fails q after e c)
  show ?thesis unfolding read_fails(1) by (rule read_fails_csteps [OF same read_fails(2)])
next
  case (register before R behind rx l)
  show ?thesis unfolding register(1) by (rule register_csteps [OF same register(2,3)])
qed

interpretation whole_rounds: simulation "step E W" "cstep E W" same_state for E W
  by unfold_locales (rule step_csteps)

lemma reachable_run: "reachable E W c0 S \<Longrightarrow> (step E W)\<^sup>*\<^sup>* (start_system c0) S"
  by (induction rule: reachable.induct) (auto intro: rtranclp.rtrancl_into_rtrancl)

lemma whole_round_state:
  assumes "reachable E W c0 S"
  shows "\<exists>F. creachable E W c0 F \<and> same_state S F"
proof -
  have "same_state (start_system c0) (start_concurrent c0)"
    by (simp add: same_state_def start_system_def start_concurrent_def)
  from whole_rounds.run_matched [OF reachable_run [OF assms] this] show ?thesis
    using csteps_reachable [OF _ creachable.start] by blast
qed

section \<open>Schedules\<close>

text \<open>One action of a schedule, on the first entry of each list and on one task.\<close>

datatype CAction =
    Enter Job | RunJob | Conclude | CancelFinishing | ReadQuote rstring u64 | RegisterReader
  | Wake nat | Look nat | Attempt nat

fun cact :: "External \<Rightarrow> ('w, 'r) WatchOps \<Rightarrow> CAction \<Rightarrow> ('w, 'r) Concurrent \<Rightarrow> ('w, 'r) Concurrent option" where
  "cact E W (Enter j) S = Some (S\<lparr>shared := InFlightGuard_enter (shared S), running := running S @ [j]\<rparr>)"
| "cact E W RunJob S =
     (case running S of
        [] \<Rightarrow> None
      | j # behind \<Rightarrow>
          (case run_job E j (conn (shared S)) of
             (Inr cs, c) \<Rightarrow> Some (S\<lparr>shared := (shared S)\<lparr>conn := c\<rparr>, running := behind,
               finishing := finishing S @ [(job_quote j, if cs = [] then None else Some (seq (last cs)))]\<rparr>)
           | (Inl e, c) \<Rightarrow> Some (S\<lparr>shared := InFlightGuard_drop ((shared S)\<lparr>conn := c\<rparr>), running := behind\<rparr>)))"
| "cact E W Conclude S =
     (case finishing S of
        [] \<Rightarrow> None
      | (q, head) # behind \<Rightarrow>
          Some (S\<lparr>shared := InFlightGuard_drop (conclude W q head (shared S)), finishing := behind\<rparr>))"
| "cact E W CancelFinishing S =
     (case finishing S of
        [] \<Rightarrow> None
      | x # behind \<Rightarrow> Some (S\<lparr>shared := InFlightGuard_drop (shared S), finishing := behind\<rparr>))"
| "cact E W (ReadQuote q after) S =
     (case subscribe_db E q after (conn (shared S)) of
        (Inr init, c) \<Rightarrow> Some (S\<lparr>shared := (shared S)\<lparr>conn := c\<rparr>, subscribing := subscribing S @
          [\<lparr>reg_quote = q, reg_after = after, reg_sends = [], reg_init = init\<rparr>]\<rparr>)
      | (Inl e, c) \<Rightarrow> Some (S\<lparr>shared := (shared S)\<lparr>conn := c\<rparr>\<rparr>))"
| "cact E W RegisterReader S =
     (case subscribing S of
        [] \<Rightarrow> None
      | R # behind \<Rightarrow>
          (case register W (reg_quote R) (init_last_seq (reg_init R)) (shared S) of
             (rx, l) \<Rightarrow> Some (S\<lparr>shared := l, subscribing := behind, tasks := tasks S @
               [\<lparr>pump = pump_start (reg_init R) (new_pump (reg_quote R) (reg_after R) rx (reg_sends R)),
                 in_round = None\<rparr>]\<rparr>)))"
| "cact E W (Wake i) S =
     (if i < length (tasks S) \<and> in_round (tasks S ! i) = None then
        let p = pump (tasks S ! i) in
        case bus (shared S) (pump_quote p) of
          None \<Rightarrow> None
        | Some w \<Rightarrow>
            if phase p = Waiting \<and> has_changed W w (rx_watch p)
            then Some (S\<lparr>tasks := (tasks S)[i :=
              \<lparr>pump = p\<lparr>rx_watch := mark_seen W w (rx_watch p), phase := CatchingUp\<rparr>, in_round = None\<rparr>]\<rparr>)
            else None
      else None)"
| "cact E W (Look i) S =
     (if i < length (tasks S) \<and> in_round (tasks S ! i) = None then
        let p = pump (tasks S ! i) in
        case bus (shared S) (pump_quote p) of
          None \<Rightarrow> None
        | Some w \<Rightarrow>
            if phase p = CatchingUp then Some (S\<lparr>tasks := (tasks S)[i := start_round (borrow W w) p]\<rparr>) else None
      else None)"
| "cact E W (Attempt i) S =
     (if i < length (tasks S) then
        case in_round (tasks S ! i) of
          None \<Rightarrow> None
        | Some rd \<Rightarrow>
            (case attempt_round E rd (shared S) (pump (tasks S ! i)) of
               (l, t) \<Rightarrow> Some (S\<lparr>shared := l, tasks := (tasks S)[i := t]\<rparr>))
      else None)"

lemmas first_cstep =
  cstep.commit [where before = "[]", simplified] cstep.refuse [where before = "[]", simplified]
  cstep.publish [where before = "[]", simplified] cstep.cancel_finishing [where before = "[]", simplified]
  cstep.register [where before = "[]", simplified]

lemma cact_cstep: "cact E W a S = Some S' \<Longrightarrow> cstep E W S S'"
proof (cases a)
  case (Wake i)
  moreover assume "cact E W a S = Some S'"
  ultimately show ?thesis
    by (cases "tasks S ! i") (auto simp: Let_def split: if_splits option.splits intro: cstep.wake)
next
  case (Look i)
  moreover assume "cact E W a S = Some S'"
  ultimately show ?thesis
    by (cases "tasks S ! i") (auto simp: Let_def split: if_splits option.splits intro: cstep.look)
next
  case (Attempt i)
  moreover assume "cact E W a S = Some S'"
  ultimately show ?thesis
    by (cases "tasks S ! i") (auto split: if_splits option.splits prod.splits intro: cstep.attempt)
qed (auto split: list.splits prod.splits sum.splits
    intro: cstep.enter cstep.read cstep.read_fails first_cstep)

text \<open>A schedule runs when each of its actions is enabled.\<close>

fun crun :: "External \<Rightarrow> ('w, 'r) WatchOps \<Rightarrow> CAction list \<Rightarrow> ('w, 'r) Concurrent \<Rightarrow> ('w, 'r) Concurrent option" where
  "crun E W [] S = Some S"
| "crun E W (a # as) S = (case cact E W a S of None \<Rightarrow> None | Some S' \<Rightarrow> crun E W as S')"

lemma crun_csteps: "crun E W as S = Some S' \<Longrightarrow> (cstep E W)\<^sup>*\<^sup>* S S'"
  by (induction "as" arbitrary: S)
    (auto split: option.splits dest: cact_cstep intro: converse_rtranclp_into_rtranclp)

lemma crun_reachable: "crun E W as (start_concurrent c) = Some S \<Longrightarrow> creachable E W c S"
  by (rule csteps_reachable [OF crun_csteps creachable.start])

section \<open>Properties\<close>

text \<open>
  However appends, cancelled requests, publications, subscriptions and the single database
  attempts of subscriber tasks interleave, and whatever statements fail, a subscriber that asked
  for the events after number \<open>a\<close> was sent exactly the committed events \<open>a + 1\<close> to some \<open>m\<close> of its
  quote, each once and in order, in tails that start where the one before ended; a status can
  only be the last thing it is sent.
\<close>

theorem concurrent_subscribers_are_gapless:
  assumes "ledger_inv E c0" and "watch_ok W" and "creachable E W c0 S" and "t \<in> set (tasks S)"
    and "p = pump t" and "es = history_of E (conn (shared S)) (pump_quote p)" and "a = unat (pump_after p)"
  shows "\<exists>m. a \<le> m \<and> m \<le> length es \<and> chain_end a (sent p) = Some m \<and>
    received (sent p) = stored_events (pump_quote p) (Suc a) (drop a (take m es)) \<and>
    (phase p = Finished \<or> m = unat (watermark p))"
proof -
  have "task_ok E W (shared S) t"
    using creachable_inv [OF assms(1-3)] assms(4) by (simp add: conc_inv_def conc_ok_def)
  with assms(5-7) have "feed_ok es p" by (simp add: task_ok_def Let_def)
  with assms(7) show ?thesis by (auto simp: feed_ok_def)
qed

text \<open>A subscriber whose load is interrupted by a second append, that fails once and then succeeds\<close>

definition busy_schedule :: "CAction list" where
  "busy_schedule =
     [Enter \<lparr>job_quote = ''q'', job_key = ''k1'', job_command = CreateQuote ''USD'' ''US''\<rparr>,
      ReadQuote ''q'' 0, RegisterReader, RunJob, Conclude, Look 0, Attempt 0,
      Enter \<lparr>job_quote = ''q'', job_key = ''k2'', job_command = AddLineItem ''L1'' ''S'' ''D'' 1 1\<rparr>,
      RunJob, Attempt 0, Conclude, Wake 0, Look 0, Attempt 0]"

definition busy_start :: "(u64 \<times> nat, nat) Concurrent" where
  "busy_start = start_concurrent (fresh_db (replicate 9 None @ [Some ''busy'']))"

theorem concurrent_subscribers_are_gapless_witness:
  "\<exists>S t. crun sample_external sample_watch busy_schedule busy_start = Some S \<and> tasks S = [t] \<and>
     in_round t = None \<and> phase (pump t) = Waiting \<and> received (sent (pump t)) =
       stored_events ''q'' 1 [QuoteCreated ''USD'' ''US'', LineItemAdded ''L1'' ''S'' ''D'' 1 1]"
proof -
  let ?hist = "\<lambda>S :: (u64 \<times> nat, nat) Concurrent. history_of sample_external (conn (shared S)) ''q''"
  have "map_option (\<lambda>S. (List.map (\<lambda>t. (in_round t, phase (pump t), watermark (pump t), pump_quote (pump t), pump_after (pump t)))
        (tasks S), ?hist S)) (crun sample_external sample_watch busy_schedule busy_start) =
      Some ([(None, Waiting, 2, ''q'', 0)], [QuoteCreated ''USD'' ''US'', LineItemAdded ''L1'' ''S'' ''D'' 1 1])"
    by code_simp
  then obtain S where run: "crun sample_external sample_watch busy_schedule busy_start = Some S"
    and S: "List.map (\<lambda>t. (in_round t, phase (pump t), watermark (pump t), pump_quote (pump t), pump_after (pump t)))
        (tasks S) = [(None, Waiting, 2, ''q'', 0)]"
      "?hist S = [QuoteCreated ''USD'' ''US'', LineItemAdded ''L1'' ''S'' ''D'' 1 1]"
    by auto
  from S(1) obtain t where t: "tasks S = [t]" "in_round t = None" "phase (pump t) = Waiting"
    "watermark (pump t) = 2" "pump_quote (pump t) = ''q''" "pump_after (pump t) = 0"
    by (auto simp: map_eq_Cons_conv)
  have inv: "ledger_inv sample_external (fresh_db (replicate 9 None @ [Some ''busy'']))"
    by (rule ledger_inv_fresh [OF sample_codec_ok])
  have "t \<in> set (tasks S)" by (simp add: t)
  from concurrent_subscribers_are_gapless [OF inv sample_watch_ok
      crun_reachable [OF run [unfolded busy_start_def]] this refl S(2) [folded t(5), symmetric] refl]
  show ?thesis using run t by auto
qed

text \<open>
  A subscriber at rest has seen the published head: when its task waits and nothing will wake
  it, it was sent every event up to the head on the channel of its quote.  So it misses events
  only when that head is behind the log.
\<close>

theorem waiting_has_seen_head:
  assumes "ledger_inv E c0" and "watch_ok W" and "creachable E W c0 S" and "t \<in> set (tasks S)"
    and "in_round t = None" and "p = pump t" and "phase p = Waiting"
    and "bus (shared S) (pump_quote p) = Some w" and "\<not> has_changed W w (rx_watch p)"
    and "es = history_of E (conn (shared S)) (pump_quote p)" and "a = unat (pump_after p)"
  shows "unat (borrow W w) \<le> unat (watermark p) \<and> unat (watermark p) \<le> length es \<and>
    received (sent p) = stored_events (pump_quote p) (Suc a) (drop a (take (unat (watermark p)) es))"
proof -
  have "task_ok E W (shared S) t"
    using creachable_inv [OF assms(1-3)] assms(4) by (simp add: conc_inv_def conc_ok_def)
  with assms(5-6,10) have "feed_ok es p" "waiting_ok W (shared S) p" by (simp_all add: task_ok_def Let_def)
  with assms(7-9,11) show ?thesis by (auto simp: feed_ok_def waiting_ok_def)
qed

theorem waiting_has_seen_head_witness:
  "\<exists>S t w. crun sample_external sample_watch busy_schedule busy_start = Some S \<and> tasks S = [t] \<and>
     bus (shared S) ''q'' = Some w \<and> unat (borrow sample_watch w) \<le> unat (watermark (pump t))"
proof -
  have "map_option (\<lambda>S. (List.map (\<lambda>t. (in_round t, phase (pump t), pump_quote (pump t), rx_watch (pump t)))
        (tasks S), bus (shared S) ''q'')) (crun sample_external sample_watch busy_schedule busy_start) =
      Some ([(None, Waiting, ''q'', 3)], Some (2, 3))"
    by code_simp
  then obtain S where run: "crun sample_external sample_watch busy_schedule busy_start = Some S"
    and S: "List.map (\<lambda>t. (in_round t, phase (pump t), pump_quote (pump t), rx_watch (pump t))) (tasks S) =
        [(None, Waiting, ''q'', 3)]" "bus (shared S) ''q'' = Some (2, 3)"
    by auto
  from S(1) obtain t where t: "tasks S = [t]" "in_round t = None" "phase (pump t) = Waiting"
    "pump_quote (pump t) = ''q''" "rx_watch (pump t) = 3"
    by (auto simp: map_eq_Cons_conv)
  have "t \<in> set (tasks S)" "bus (shared S) (pump_quote (pump t)) = Some (2, 3)"
    "\<not> has_changed sample_watch (2, 3) (rx_watch (pump t))"
    by (simp_all add: t S(2) sample_watch_def)
  from waiting_has_seen_head [OF ledger_inv_fresh [OF sample_codec_ok] sample_watch_ok
      crun_reachable [OF run [unfolded busy_start_def]] this(1) t(2) refl t(3) this(2,3) refl refl]
  show ?thesis using run t(1) S(2) by blast
qed

text \<open>
  A round that nothing interrupts is the round of the task: at most eight attempts, one after
  the other, end it, with the ledger, the messages and the watermark that \<open>pump_wake\<close> (or, before
  the first wait, \<open>pump_catch_up\<close>) computes in one go.
\<close>

theorem attempts_make_the_round:
  "rounds E 8 (l, start_round head p) =
    (case (if phase p = Waiting then pump_wake else pump_catch_up) E head l p of
       (l', p') \<Rightarrow> (l', \<lparr>pump = p', in_round = None\<rparr>))"
  using rounds_start [of E l head p] by (simp add: SUBSCRIBE_DB_MAX_ATTEMPTS_def wake_is_catch_up)

text \<open>
  The interleavings at the grain of whole rounds and uncancelled appends are interleavings at
  the grain of single awaits: every state they reach is reached here too, with the same
  database, bus, pending publications, pending registrations and subscribers.
\<close>

theorem whole_rounds_are_concurrent:
  assumes "reachable E W c0 S"
  shows "\<exists>F. creachable E W c0 F \<and> same_state S F"
  using whole_round_state [OF assms] .

theorem whole_rounds_are_concurrent_witness:
  "\<exists>F. creachable sample_external sample_watch (fresh_db []) F \<and>
     List.map (\<lambda>t. pump_quote (pump t)) (tasks F) = [''q'']"
proof -
  let ?S = "start_system (fresh_db []) :: (u64 \<times> nat, nat) System"
  have "\<not> isl (fst (subscribe_db sample_external ''q'' 0 (fresh_db [])))" by code_simp
  then obtain init c where read: "subscribe_db sample_external ''q'' 0 (fresh_db []) = (Inr init, c)"
    by (metis prod.collapse sum.collapse(2))
  let ?S1 = "?S\<lparr>ledger := (ledger ?S)\<lparr>conn := c\<rparr>, registering := registering ?S @
    [\<lparr>reg_quote = ''q'', reg_after = 0, reg_sends = [], reg_init = init\<rparr>]\<rparr>"
  obtain rx l where reg: "register sample_watch ''q'' (init_last_seq init) (ledger ?S1) = (rx, l)" by fastforce
  let ?S2 = "?S1\<lparr>ledger := l, registering := [] @ [], pumps := pumps ?S1 @ [pump_start init (new_pump ''q'' 0 rx [])]\<rparr>"
  have "step sample_external sample_watch ?S ?S1"
    using read by (intro step.read) (simp add: start_system_def new_ledger_def)
  moreover have "step sample_external sample_watch ?S1 ?S2"
    using step.register [of ?S1 "[]" _ "[]" sample_watch rx l sample_external] reg by (simp add: start_system_def)
  ultimately have "reachable sample_external sample_watch (fresh_db []) ?S2"
    by (meson reachable.start reachable.next_step)
  from whole_rounds_are_concurrent [OF this] obtain F where
    "creachable sample_external sample_watch (fresh_db []) F" "same_state ?S2 F" by blast
  moreover have "pump_quote (pump_start init (new_pump ''q'' 0 rx [])) = ''q''"
    by (cases init) (simp add: pump_start_open)
  ultimately show ?thesis by (intro exI [of _ F]) (simp add: same_state_def start_system_def)
qed

end
