(* ===== verification/Calm_System.thy ===== *)
theory Calm_System
  imports Concurrent_System
begin

text \<open>
  Schedules in which no publication is out of date: every append commits under a new key and
  publishes before anything else happens, every subscription registers at the head it read.
  They are a subset of the schedules of the system, and no subscriber stalls in them.
\<close>

section \<open>Schedules without stalls\<close>

text \<open>
  The steps of a calm schedule: an append commits under a new key and publishes at once, a
  subscription reads and registers at once.
\<close>

inductive calm_step :: "External \<Rightarrow> ('w, 'r) WatchOps \<Rightarrow> ('w, 'r) System \<Rightarrow> ('w, 'r) System \<Rightarrow> bool"
  for E :: External and W :: "('w, 'r) WatchOps" where
  calm_append: "append_one_db E q k cmd (conn (ledger S)) = (Inr cs, c) \<Longrightarrow>
    key_of (conn (ledger S)) q k = None \<Longrightarrow>
    calm_step E W S (S\<lparr>ledger := publish_head W q (seq (last cs)) ((ledger S)\<lparr>conn := c\<rparr>)\<rparr>)"
| calm_append_fails: "append_one_db E q k cmd (conn (ledger S)) = (Inl e, c) \<Longrightarrow>
    calm_step E W S (S\<lparr>ledger := (ledger S)\<lparr>conn := c\<rparr>\<rparr>)"
| calm_subscribe: "subscribe_db E q after (conn (ledger S)) = (Inr init, c) \<Longrightarrow>
    register W q (init_last_seq init) ((ledger S)\<lparr>conn := c\<rparr>) = (rx, l) \<Longrightarrow>
    calm_step E W S (S\<lparr>ledger := l, pumps := pumps S @ [pump_start init (new_pump q after rx bs)]\<rparr>)"
| calm_subscribe_fails: "subscribe_db E q after (conn (ledger S)) = (Inl e, c) \<Longrightarrow>
    calm_step E W S (S\<lparr>ledger := (ledger S)\<lparr>conn := c\<rparr>\<rparr>)"
| calm_catch_up: "i < length (pumps S) \<Longrightarrow> p = pumps S ! i \<Longrightarrow> phase p = CatchingUp \<Longrightarrow>
    bus (ledger S) (pump_quote p) = Some w \<Longrightarrow>
    pump_catch_up E (borrow W w) (ledger S) p = (l, p') \<Longrightarrow>
    calm_step E W S (S\<lparr>ledger := l, pumps := (pumps S)[i := p']\<rparr>)"
| calm_wake: "i < length (pumps S) \<Longrightarrow> p = pumps S ! i \<Longrightarrow> phase p = Waiting \<Longrightarrow>
    bus (ledger S) (pump_quote p) = Some w \<Longrightarrow> has_changed W w (rx_watch p) \<Longrightarrow>
    pump_wake E (borrow W w) (ledger S) (p\<lparr>rx_watch := mark_seen W w (rx_watch p)\<rparr>) = (l, p') \<Longrightarrow>
    calm_step E W S (S\<lparr>ledger := l, pumps := (pumps S)[i := p']\<rparr>)"

inductive calm_reachable ::
  "External \<Rightarrow> ('w, 'r) WatchOps \<Rightarrow> Connection \<Rightarrow> ('w, 'r) System \<Rightarrow> bool"
  for E :: External and W :: "('w, 'r) WatchOps" and c0 where
  calm_start: "calm_reachable E W c0 (start_system c0)"
| calm_next: "calm_reachable E W c0 S \<Longrightarrow> calm_step E W S S' \<Longrightarrow> calm_reachable E W c0 S'"

text \<open>What the states of the whole-round model inherit from the states of the finer one\<close>

definition sys_inv :: "External \<Rightarrow> ('w, 'r) WatchOps \<Rightarrow> ('w, 'r) System \<Rightarrow> bool" where
  "sys_inv E W S \<longleftrightarrow>
     ledger_inv E (conn (ledger S)) \<and> bus_ok E W (ledger S) \<and>
     (\<forall>p \<in> set (pumps S). feed_ok (history_of E (conn (ledger S)) (pump_quote p)) p \<and> waiting_ok W (ledger S) p)"

lemma reachable_inv:
  assumes "ledger_inv E c0" and "watch_ok W" and "reachable E W c0 S"
  shows "sys_inv E W S"
proof -
  from whole_round_state [OF assms(3)] obtain F where "creachable E W c0 F" and same: "same_state S F" by blast
  with creachable_inv [OF assms(1,2)] have inv: "conc_inv E W F" by blast
  have same: "conn (shared F) = conn (ledger S)" "bus (shared F) = bus (ledger S)"
    "tasks F = List.map (\<lambda>p. \<lparr>pump = p, in_round = None\<rparr>) (pumps S)"
    using same by (simp_all add: same_state_def)
  have "waiting_ok W (shared F) = waiting_ok W (ledger S)" by (simp add: waiting_ok_def same fun_eq_iff)
  with inv show ?thesis
    by (auto simp: sys_inv_def conc_inv_def conc_ok_def task_ok_def bus_ok_def same)
qed

lemma pump_catch_up_untouched:
  assumes "ledger_inv E (conn l)" and "unat head \<le> length (history_of E (conn l) (pump_quote p))"
    and "pump_catch_up E head l p = (l', p')"
  shows "untouched E l l'"
proof (cases "unat head \<le> unat (watermark p)")
  case True
  with assms show ?thesis by (auto simp: pump_catch_up_deliver untouched_def)
next
  case False
  obtain r l1 where run: "subscribe_load_between E (pump_quote p) (watermark p) head l = (r, l1)" by (rule prod.exhaust)
  have "unat (watermark p) < unat head" "unat head < 2 ^ 63"
    using False assms(2) ledger_inv_length [OF assms(1), of "pump_quote p"] by simp_all
  from subscribe_load_between_run [OF this assms(1) run] assms(3) False run show ?thesis
    by (auto simp: pump_catch_up_deliver)
qed

lemma round_untouched:
  assumes inv: "sys_inv E W S" and w: "bus (ledger S) (pump_quote p) = Some w"
    and run: "pump_catch_up E (borrow W w) (ledger S) (p\<lparr>rx_watch := rx\<rparr>) = (l, p')"
  shows "history_of E (conn l) = history_of E (conn (ledger S)) \<and> bus l = bus (ledger S)"
proof -
  have "untouched E (ledger S) l"
    using inv w by (intro pump_catch_up_untouched [OF _ _ run]) (auto simp: sys_inv_def bus_ok_def)
  then show ?thesis by (simp add: untouched_def abs_ledger_def)
qed

definition heads_exact :: "External \<Rightarrow> ('w, 'r) WatchOps \<Rightarrow> ('w, 'r) System \<Rightarrow> bool" where
  "heads_exact E W S \<longleftrightarrow>
     (\<forall>q w. bus (ledger S) q = Some w \<longrightarrow> unat (borrow W w) = length (history_of E (conn (ledger S)) q))"

lemma append_nonempty:
  assumes "ledger_inv E c" and "append_one_db E q k cmd c = (Inr cs, c')" and "key_of c q k = None"
  shows "cs \<noteq> [] \<and> unat (seq (last cs)) = length (history_of E c' q) \<and>
    (\<forall>q'. q' \<noteq> q \<longrightarrow> history_of E c' q' = history_of E c q')"
proof -
  from append_one_db_run [OF assms(1,2)] assms(3) obtain n new where
    new: "append_spec (history_of E c q) None q k cmd = Inr (n, new)" "cs = stored_events q n new"
      "grown_history E q k new c c'"
    by (auto split: sum.splits)
  have inv: "ledger_inv E c'" using append_one_db_run [OF assms(1,2)] by blast
  have n: "n = Suc (length (history_of E c q))" using new(1) by (rule append_spec_fresh)
  have "new \<noteq> []"
    using new(1) decide_on_single [OF ledger_inv_history(2) [OF assms(1)]]
    by (fastforce simp: append_spec_def result_simps)
  with new n last_stored_events [of new n q] ledger_inv_length [OF inv, of q] show ?thesis
    by (auto simp: grown_history_def)
qed

text \<open>A calm step is one or two steps of the system.\<close>

lemma calm_append_steps:
  assumes "publishing S = []" and "append_one_db E q k cmd (conn (ledger S)) = (Inr cs, c)" and "cs \<noteq> []"
  shows "(step E W)\<^sup>*\<^sup>* S (S\<lparr>ledger := publish_head W q (seq (last cs)) ((ledger S)\<lparr>conn := c\<rparr>)\<rparr>)"
proof -
  let ?S = "S\<lparr>ledger := (ledger S)\<lparr>conn := c\<rparr>, publishing := [(q, seq (last cs))]\<rparr>"
  let ?S2 = "?S\<lparr>ledger := publish_head W q (seq (last cs)) (ledger ?S), publishing := [] @ []\<rparr>"
  have "step E W S ?S" using step.commit [OF assms(2), of W] assms(1,3) by simp
  moreover have "step E W ?S ?S2" by (rule step.publish) simp
  ultimately have "(step E W)\<^sup>*\<^sup>* S ?S2" by (rule two_steps)
  moreover have "?S2 = S\<lparr>ledger := publish_head W q (seq (last cs)) ((ledger S)\<lparr>conn := c\<rparr>)\<rparr>"
    using assms(1) by (cases S) simp
  ultimately show ?thesis by simp
qed

lemma calm_subscribe_steps:
  assumes "registering S = []" and "subscribe_db E q after (conn (ledger S)) = (Inr init, c)"
    and "register W q (init_last_seq init) ((ledger S)\<lparr>conn := c\<rparr>) = (rx, l)"
  shows "(step E W)\<^sup>*\<^sup>* S (S\<lparr>ledger := l, pumps := pumps S @ [pump_start init (new_pump q after rx bs)]\<rparr>)"
proof -
  let ?R = "\<lparr>reg_quote = q, reg_after = after, reg_sends = bs, reg_init = init\<rparr>"
  let ?S = "S\<lparr>ledger := (ledger S)\<lparr>conn := c\<rparr>, registering := [?R]\<rparr>"
  let ?S2 = "?S\<lparr>ledger := l, registering := [] @ [], pumps := pumps ?S @
      [pump_start (reg_init ?R) (new_pump (reg_quote ?R) (reg_after ?R) rx (reg_sends ?R))]\<rparr>"
  have "step E W S ?S" using step.read [OF assms(2), of W bs] assms(1) by simp
  moreover have "step E W ?S ?S2" by (rule step.register) (use assms(3) in simp_all)
  ultimately have "(step E W)\<^sup>*\<^sup>* S ?S2" by (rule two_steps)
  moreover have "?S2 = S\<lparr>ledger := l, pumps := pumps S @ [pump_start init (new_pump q after rx bs)]\<rparr>"
    using assms(1) by (cases S) simp
  ultimately show ?thesis by simp
qed

lemma calm_step_steps:
  assumes "ledger_inv E (conn (ledger S))" and "publishing S = []" and "registering S = []"
    and "calm_step E W S S'"
  shows "(step E W)\<^sup>*\<^sup>* S S' \<and> publishing S' = [] \<and> registering S' = []"
  using assms(4)
proof cases
  case (calm_append q k cmd cs c)
  with append_nonempty [OF assms(1) calm_append(2,3)] calm_append_steps [OF assms(2) calm_append(2)] assms(2,3)
  show ?thesis by simp
next
  case (calm_append_fails q k cmd e c)
  then show ?thesis using assms(2,3) step.commit_fails [OF calm_append_fails(2), of W] by auto
next
  case (calm_subscribe q after init c rx l bs)
  with calm_subscribe_steps [OF assms(3) calm_subscribe(2,3)] assms(2,3) show ?thesis by simp
next
  case (calm_subscribe_fails q after e c)
  then show ?thesis using assms(2,3) step.read_fails [OF calm_subscribe_fails(2), of W] by auto
next
  case (calm_catch_up i p w l p')
  then show ?thesis using assms(2,3) step.catch_up [OF calm_catch_up(2-6)] by auto
next
  case (calm_wake i p w l p')
  then show ?thesis using assms(2,3) step.wake [OF calm_wake(2-7)] by auto
qed

lemma steps_reachable: "(step E W)\<^sup>*\<^sup>* S S' \<Longrightarrow> reachable E W c0 S \<Longrightarrow> reachable E W c0 S'"
  by (induction rule: rtranclp_induct) (auto intro: reachable.next_step)

lemma heads_exact_same:
  "heads_exact E W S \<Longrightarrow> history_of E (conn (ledger S')) = history_of E (conn (ledger S)) \<Longrightarrow>
   bus (ledger S') = bus (ledger S) \<Longrightarrow> heads_exact E W S'"
  by (simp add: heads_exact_def)

lemma heads_exact_sent:
  assumes "watch_ok W" and "heads_exact E W S"
    and "bus (ledger S') = (bus (ledger S))(q \<mapsto> send_replace W tx head)"
    and "unat head = length (history_of E (conn (ledger S')) q)"
    and "\<forall>q'. q' \<noteq> q \<longrightarrow> history_of E (conn (ledger S')) q' = history_of E (conn (ledger S)) q'"
  shows "heads_exact E W S'"
  using assms by (auto simp: heads_exact_def watch_ok_def)

lemma failed_append_history:
  "ledger_inv E c \<Longrightarrow> append_one_db E q k cmd c = (Inl e, c') \<Longrightarrow> history_of E c' = history_of E c"
  using append_one_db_run [of E c q k cmd "Inl e" c']
  by (auto simp: same_history_def split: sum.splits)

lemma subscribe_db_history:
  assumes "ledger_inv E c" and "subscribe_db E q after c = (r, c')"
  shows "history_of E c' = history_of E c \<and>
    (\<forall>init. r = Inr init \<longrightarrow> unat (init_last_seq init) = length (history_of E c q))"
proof -
  have "holds_history (log_of E c q) (history_of E c q)" "db_inv E c"
    using assms(1) by (simp_all add: ledger_inv_def)
  note run = store.subscribe_ok [OF this(2,1) assms(2) [unfolded subscribe_db_def]]
  with same_view_history [OF assms(1), of c'] ledger_inv_length [OF assms(1), of q] show ?thesis
    by (auto simp: same_history_def unat_of_nat_u64 split: if_splits)
qed

lemma heads_exact_step:
  assumes W: "watch_ok W" and inv: "sys_inv E W S" and exact: "heads_exact E W S" and "calm_step E W S S'"
  shows "heads_exact E W S'"
  using assms(4)
proof cases
  case (calm_append q k cmd cs c)
  have "ledger_inv E (conn (ledger S))" using inv by (simp add: sys_inv_def)
  from append_nonempty [OF this calm_append(2,3)] show ?thesis
    by (intro heads_exact_sent [OF W exact, of S' q]) (auto simp: calm_append(1) publish_head_def Let_def)
next
  case (calm_append_fails q k cmd e c)
  have "ledger_inv E (conn (ledger S))" using inv by (simp add: sys_inv_def)
  from failed_append_history [OF this calm_append_fails(2)] show ?thesis
    by (intro heads_exact_same [OF exact]) (simp_all add: calm_append_fails(1))
next
  case (calm_subscribe q after init c rx l bs)
  have "ledger_inv E (conn (ledger S))" using inv by (simp add: sys_inv_def)
  from subscribe_db_history [OF this calm_subscribe(2)] calm_subscribe(3) show ?thesis
    by (intro heads_exact_sent [OF W exact, of S' q]) (auto simp: calm_subscribe(1) register_def Let_def)
next
  case (calm_subscribe_fails q after e c)
  have "ledger_inv E (conn (ledger S))" using inv by (simp add: sys_inv_def)
  from subscribe_db_history [OF this calm_subscribe_fails(2)] show ?thesis
    by (intro heads_exact_same [OF exact]) (simp_all add: calm_subscribe_fails(1))
next
  case (calm_catch_up i p w l p')
  from round_untouched [OF inv calm_catch_up(5), of "rx_watch p" l p'] calm_catch_up(6) show ?thesis
    by (intro heads_exact_same [OF exact]) (simp_all add: calm_catch_up(1))
next
  case (calm_wake i p w l p')
  have "phase (p\<lparr>rx_watch := mark_seen W w (rx_watch p)\<rparr>) = Waiting" using calm_wake(4) by simp
  from round_untouched [OF inv calm_wake(5) calm_wake(7) [unfolded wake_is_catch_up [OF this]]] show ?thesis
    by (intro heads_exact_same [OF exact]) (simp_all add: calm_wake(1))
qed

lemma calm_is_reachable:
  assumes "ledger_inv E c0" and "watch_ok W" and "calm_reachable E W c0 S"
  shows "reachable E W c0 S \<and> publishing S = [] \<and> registering S = [] \<and> heads_exact E W S"
  using assms(3)
proof induction
  case calm_start
  show ?case
    using reachable.start [of E W c0] by (simp add: heads_exact_def start_system_def new_ledger_def)
next
  case (calm_next S S')
  then have inv: "sys_inv E W S" using reachable_inv [OF assms(1,2)] by blast
  then have "ledger_inv E (conn (ledger S))" by (simp add: sys_inv_def)
  with calm_next calm_step_steps [of E S W S'] have "(step E W)\<^sup>*\<^sup>* S S'" "publishing S' = []" "registering S' = []"
    by simp_all
  moreover have "heads_exact E W S'"
    using heads_exact_step [OF assms(2) inv _ calm_next(2)] calm_next.IH by blast
  ultimately show ?case using steps_reachable calm_next.IH by blast
qed

section \<open>Properties\<close>

text \<open>
  C17: In schedules where every append has a new key and publishes as it commits, and every
  subscription registers as it reads, nothing is missed: a waiting subscriber that nothing will
  wake has been sent every committed event of its quote after the number it asked for.
\<close>

theorem calm_delivery:
  assumes "ledger_inv E c0" and "watch_ok W" and "calm_reachable E W c0 S" and "p \<in> set (pumps S)"
    and "phase p = Waiting" and "bus (ledger S) (pump_quote p) = Some w" and "\<not> has_changed W w (rx_watch p)"
    and "es = history_of E (conn (ledger S)) (pump_quote p)" and "a = unat (pump_after p)"
  shows "unat (watermark p) = length es \<and>
    received (sent p) = stored_events (pump_quote p) (Suc a) (drop a es)"
proof -
  note calm = calm_is_reachable [OF assms(1-3)]
  then have "sys_inv E W S" using reachable_inv [OF assms(1,2)] by blast
  then have "waiting_ok W (ledger S) p" and ok: "feed_ok es p"
    using assms(4,8) by (auto simp: sys_inv_def)
  then have "length es \<le> unat (watermark p)"
    using calm assms(5-8) by (auto simp: waiting_ok_def heads_exact_def)
  with ok assms(5,9) show ?thesis by (auto simp: feed_ok_def)
qed

text \<open>Calm schedules as functions, for appends that commit, subscriptions and rounds that are due\<close>

datatype CalmAction = CalmAppend rstring rstring DomainCommand | CalmSubscribe rstring u64 | CalmRound nat

fun calm_act :: "External \<Rightarrow> ('w, 'r) WatchOps \<Rightarrow> CalmAction \<Rightarrow> ('w, 'r) System \<Rightarrow> ('w, 'r) System option" where
  "calm_act E W (CalmAppend q k cmd) S =
     (case append_one_db E q k cmd (conn (ledger S)) of
        (Inr cs, c) \<Rightarrow>
          if key_of (conn (ledger S)) q k = None
          then Some (S\<lparr>ledger := publish_head W q (seq (last cs)) ((ledger S)\<lparr>conn := c\<rparr>)\<rparr>)
          else None
      | (Inl e, c) \<Rightarrow> None)"
| "calm_act E W (CalmSubscribe q after) S =
     (case subscribe_db E q after (conn (ledger S)) of
        (Inr init, c) \<Rightarrow>
          (case register W q (init_last_seq init) ((ledger S)\<lparr>conn := c\<rparr>) of
             (rx, l) \<Rightarrow> Some (S\<lparr>ledger := l, pumps := pumps S @ [pump_start init (new_pump q after rx [])]\<rparr>))
      | (Inl e, c) \<Rightarrow> None)"
| "calm_act E W (CalmRound i) S =
     (if i < length (pumps S) then
        let p = pumps S ! i in
        case bus (ledger S) (pump_quote p) of
          None \<Rightarrow> None
        | Some w \<Rightarrow>
            if phase p = CatchingUp then
              (case pump_catch_up E (borrow W w) (ledger S) p of
                 (l, p') \<Rightarrow> Some (S\<lparr>ledger := l, pumps := (pumps S)[i := p']\<rparr>))
            else if phase p = Waiting \<and> has_changed W w (rx_watch p) then
              (case pump_wake E (borrow W w) (ledger S) (p\<lparr>rx_watch := mark_seen W w (rx_watch p)\<rparr>) of
                 (l, p') \<Rightarrow> Some (S\<lparr>ledger := l, pumps := (pumps S)[i := p']\<rparr>))
            else None
      else None)"

lemma calm_act_step: "calm_act E W a S = Some S' \<Longrightarrow> calm_step E W S S'"
  by (cases a) (auto simp: Let_def split: prod.splits sum.splits if_splits option.splits
      intro: calm_append calm_subscribe calm_catch_up calm_wake)

fun calm_run :: "External \<Rightarrow> ('w, 'r) WatchOps \<Rightarrow> CalmAction list \<Rightarrow> ('w, 'r) System \<Rightarrow> ('w, 'r) System option" where
  "calm_run E W [] S = Some S"
| "calm_run E W (a # as) S = (case calm_act E W a S of None \<Rightarrow> None | Some S' \<Rightarrow> calm_run E W as S')"

lemma calm_run_reachable:
  "calm_reachable E W c0 S \<Longrightarrow> calm_run E W as S = Some S' \<Longrightarrow> calm_reachable E W c0 S'"
  by (induction "as" arbitrary: S) (auto split: option.splits dest: calm_act_step intro: calm_next)

definition calm_schedule :: "CalmAction list" where
  "calm_schedule =
     [CalmAppend ''q'' ''k1'' (CreateQuote ''USD'' ''US''), CalmSubscribe ''q'' 0, CalmRound 0,
      CalmAppend ''q'' ''k2'' (AddLineItem ''L1'' ''S'' ''D'' 1 1), CalmRound 0]"

theorem calm_delivery_witness:
  "\<exists>S p. calm_run sample_external sample_watch calm_schedule (start_system (fresh_db [])) = Some S \<and>
     pumps S = [p] \<and> received (sent p) =
       stored_events ''q'' 1 [QuoteCreated ''USD'' ''US'', LineItemAdded ''L1'' ''S'' ''D'' 1 1]"
proof -
  have "map_option (\<lambda>S. (List.map (\<lambda>p. (phase p, pump_quote p, rx_watch p, pump_after p)) (pumps S),
        bus (ledger S) ''q'', history_of sample_external (conn (ledger S)) ''q''))
      (calm_run sample_external sample_watch calm_schedule (start_system (fresh_db []))) =
      Some ([(Waiting, ''q'', 3, 0)], Some (2, 3), [QuoteCreated ''USD'' ''US'', LineItemAdded ''L1'' ''S'' ''D'' 1 1])"
    by code_simp
  then obtain S where run: "calm_run sample_external sample_watch calm_schedule (start_system (fresh_db [])) = Some S"
    and S: "List.map (\<lambda>p. (phase p, pump_quote p, rx_watch p, pump_after p)) (pumps S) = [(Waiting, ''q'', 3, 0)]"
      "bus (ledger S) ''q'' = Some (2, 3)"
      "history_of sample_external (conn (ledger S)) ''q'' = [QuoteCreated ''USD'' ''US'', LineItemAdded ''L1'' ''S'' ''D'' 1 1]"
    by auto
  from S(1) obtain p where p: "pumps S = [p]" "phase p = Waiting" "pump_quote p = ''q''" "rx_watch p = 3" "pump_after p = 0"
    by (auto simp: map_eq_Cons_conv)
  have "p \<in> set (pumps S)" "bus (ledger S) (pump_quote p) = Some (2, 3)" "\<not> has_changed sample_watch (2, 3) (rx_watch p)"
    by (simp_all add: p S(2) sample_watch_def)
  from calm_delivery [OF ledger_inv_fresh [OF sample_codec_ok] sample_watch_ok calm_run_reachable [OF calm_start run]
      this(1) p(2) this(2,3) S(3) [folded p(3), symmetric] refl]
  show ?thesis using run p by auto
qed

end
