(* ===== verification/Order_Independence.thy ===== *)
theory Order_Independence
  imports Domain "HOL-Library.Multiset"
begin

text \<open>
  Writers that add lines to one quote at the same time: their commands are decided one after the
  other in some order.  Here is shown that the order does not matter for lines that are all
  accepted; \<open>tests/concurrency_faults.rs\<close> expects it of 24 concurrent writers.
\<close>

section \<open>Adding lines\<close>

definition add_command :: "LineItemState \<Rightarrow> DomainCommand" where
  "add_command l = AddLineItem (line_id l) (sku l) (description l) (quantity l) (unit_minor l)"

definition added_event :: "LineItemState \<Rightarrow> DomainEvent" where
  "added_event l = LineItemAdded (line_id l) (sku l) (description l) (quantity l) (unit_minor l)"

abbreviation add_lines :: "QuoteState \<Rightarrow> LineItemState list \<Rightarrow> QuoteState" where
  "add_lines s ls \<equiv> s\<lparr>lines := lines s @ ls\<rparr>"

lemma line_fields: "\<lparr>line_id = line_id l, sku = sku l, description = description l, quantity = quantity l,
    unit_minor = unit_minor l\<rparr> = (l :: LineItemState)"
  by simp

lemma add_command_accepted:
  "command_to_events s (add_command l) = Inr es \<longleftrightarrow>
     is_created s \<and> \<not> finalized s \<and> line_ok l \<and> line_id l \<notin> set (List.map line_id (lines s)) \<and>
     money_ok (add_lines s [l]) \<and> es = [added_event l]"
  unfolding add_command_def added_event_def add_line_accepted by (simp add: Let_def line_fields)

lemma added_event_applies:
  "is_created s \<Longrightarrow> \<not> finalized s \<Longrightarrow> line_id l \<notin> set (List.map line_id (lines s)) \<Longrightarrow>
   reduce s (added_event l) = Inr (add_lines s [l])"
  by (simp add: added_event_def has_line_iff)

text \<open>The amounts of a quote grow with its lines.\<close>

lemma exact_subtotal_add: "exact_subtotal (add_lines s ls) = exact_subtotal s + (\<Sum>l \<leftarrow> ls. line_exact l)"
  by (simp add: exact_subtotal_def)

lemma line_exact_nonneg: "list_all line_ok ls \<Longrightarrow> 0 \<le> (\<Sum>l \<leftarrow> ls. line_exact l)"
  by (induction ls) (auto simp: line_ok_def line_exact_def)

lemma tax_rate_add [simp]: "tax_rate_bps (add_lines s ls) = tax_rate_bps s"
  by (simp add: tax_rate_bps_def jurisdiction_id_str_def)

lemma exact_tax_mono:
  assumes "0 \<le> exact_subtotal s" and "exact_subtotal s \<le> exact_subtotal t" and "tax_rate_bps t = tax_rate_bps s"
  shows "exact_tax s \<le> exact_tax t"
proof -
  have "exact_subtotal s * sint (tax_rate_bps s) \<le> exact_subtotal t * sint (tax_rate_bps s)"
    using assms(2) tax_rate_range(1) by (rule mult_right_mono)
  moreover have "0 \<le> exact_subtotal s * sint (tax_rate_bps s)" using assms(1) tax_rate_range(1) by simp
  ultimately show ?thesis unfolding exact_tax_def assms(3) by (simp add: sdiv_nonneg zdiv_mono1)
qed

lemma money_ok_prefix:
  assumes "list_all line_ok (lines s)" and "list_all line_ok (ls @ ms)" and "money_ok (add_lines s (ls @ ms))"
  shows "money_ok (add_lines s ls)"
proof -
  let ?s = "add_lines s ls" and ?t = "add_lines s (ls @ ms)"
  have "0 \<le> exact_subtotal ?s" using line_exact_nonneg [of "lines ?s"] assms(1,2) by (simp add: exact_subtotal_def)
  moreover have "exact_subtotal ?s \<le> exact_subtotal ?t"
    using line_exact_nonneg [of ms] assms(2) by (simp add: exact_subtotal_add)
  moreover from calculation have "exact_tax ?s \<le> exact_tax ?t" by (rule exact_tax_mono) simp
  moreover from calculation(1) have "0 \<le> exact_tax ?s" using exact_tax_nonneg by blast
  ultimately show ?thesis
    using assms(3) by (auto simp: money_ok_def lines_fit_def fits_i64_def exact_total_def)
qed

text \<open>A run of line commands that are all accepted, as a condition on the set of the lines\<close>

definition all_addable :: "QuoteState \<Rightarrow> LineItemState list \<Rightarrow> bool" where
  "all_addable s ls \<longleftrightarrow>
     (ls \<noteq> [] \<longrightarrow> is_created s \<and> \<not> finalized s) \<and> list_all line_ok ls \<and>
     distinct (List.map line_id (lines s @ ls)) \<and> money_ok (add_lines s ls)"

lemma addable_runs:
  assumes "list_all line_ok (lines s)" and "all_addable s ls"
  shows "run_commands reduce command_to_events s (List.map add_command ls) = Inr (add_lines s ls, List.map added_event ls)"
  using assms
proof (induction ls arbitrary: s)
  case (Cons l ls)
  have l: "is_created s" "\<not> finalized s" "line_ok l" "line_id l \<notin> set (List.map line_id (lines s))"
    using Cons.prems(2) by (auto simp: all_addable_def)
  have "money_ok (add_lines s [l])"
    using money_ok_prefix [of s "[l]" ls] Cons.prems by (simp add: all_addable_def)
  then have accepted: "command_to_events s (add_command l) = Inr [added_event l]"
    using l by (simp add: add_command_accepted)
  have "all_addable (add_lines s [l]) ls" "list_all line_ok (lines (add_lines s [l]))"
    using Cons.prems l by (simp_all add: all_addable_def)
  with Cons.IH have "run_commands reduce command_to_events (add_lines s [l]) (List.map add_command ls) =
      Inr (add_lines s (l # ls), List.map added_event ls)" by simp
  with accepted added_event_applies [OF l(1,2,4)] show ?case by simp
qed simp

lemma run_commands_length:
  "run_commands reduce command_to_events s cs = Inr (t, es) \<Longrightarrow> length es \<le> length cs"
proof (induction cs arbitrary: s t es)
  case (Cons c cs)
  show ?case
  proof (cases "command_to_events s c")
    case (Inl x)
    with Cons show ?thesis by (fastforce intro: le_SucI)
  next
    case (Inr new)
    then have "\<exists>ev. new = [ev]"
      by (cases c) (auto simp del: command_to_events.simps simp: command_accepted Let_def)
    with Cons Inr show ?thesis
      by (auto split: sum.splits prod.splits simp: result_simps intro: le_SucI)
  qed
qed simp

lemma accepted_addable:
  assumes "quote_inv s" and "run_commands reduce command_to_events s (List.map add_command ls) = Inr (t, es)"
    and "length es = length ls"
  shows "all_addable s ls"
  using assms
proof (induction ls arbitrary: s es)
  case Nil
  then show ?case by (auto simp: all_addable_def quote_inv_def)
next
  case (Cons l ls)
  show ?case
  proof (cases "command_to_events s (add_command l)")
    case (Inl x)
    with Cons.prems(2,3) run_commands_length [of s "List.map add_command ls" t es] show ?thesis by simp
  next
    case (Inr new)
    then have l: "is_created s" "\<not> finalized s" "line_ok l" "line_id l \<notin> set (List.map line_id (lines s))"
      "money_ok (add_lines s [l])" "new = [added_event l]"
      by (simp_all add: add_command_accepted)
    note applies = added_event_applies [OF l(1,2,4)]
    obtain es' where run: "run_commands reduce command_to_events (add_lines s [l]) (List.map add_command ls) = Inr (t, es')"
      "es = added_event l # es'"
      using Cons.prems(2) Inr l(6) applies by (auto simp: result_simps split: prod.splits)
    have "quote_inv (add_lines s [l])" using Cons.prems(1) l by (auto simp: quote_inv_def is_created_def split: option.splits)
    from Cons.IH [OF this run(1)] run(2) Cons.prems(3) l show ?thesis by (auto simp: all_addable_def)
  qed
qed

text \<open>All of it depends on the collection of the lines only.\<close>

lemma sum_lines_perm: "mset ls = mset ls' \<Longrightarrow> (\<Sum>l \<leftarrow> ls. line_exact l) = (\<Sum>l \<leftarrow> ls'. line_exact l)"
  by (metis mset_map sum_mset_sum_list)

lemma money_perm:
  assumes "mset ls = mset ls'"
  shows "lines_fit (add_lines s ls) = lines_fit (add_lines s ls')" "exact_subtotal (add_lines s ls) = exact_subtotal (add_lines s ls')"
    "exact_tax (add_lines s ls) = exact_tax (add_lines s ls')"
  using sum_lines_perm [OF assms] mset_eq_setD [OF assms]
  by (simp_all add: lines_fit_def exact_subtotal_add exact_tax_def list_all_iff)

lemma addable_perm: "mset ls = mset ls' \<Longrightarrow> all_addable s ls \<Longrightarrow> all_addable s ls'"
proof -
  assume perm: "mset ls = mset ls'" and ls: "all_addable s ls"
  have "mset (List.map line_id (lines s @ ls)) = mset (List.map line_id (lines s @ ls'))" using perm by simp
  then have "distinct (List.map line_id (lines s @ ls'))" using ls mset_eq_imp_distinct_iff unfolding all_addable_def by blast
  with ls mset_eq_setD [OF perm] money_perm [OF perm, of s] perm show ?thesis
    by (auto simp: all_addable_def list_all_iff money_ok_def exact_total_def)
qed

section \<open>Properties\<close>

text \<open>
  Lines that several writers add at the same time give one quote: when all the commands are
  accepted in one order, they are all accepted in every other, with the same events up to their
  order and the same subtotal, tax and total.
\<close>

theorem concurrent_lines_agree:
  assumes "quote_inv s" and "run_commands reduce command_to_events s (List.map add_command ls) = Inr (t, es)"
    and "length es = length ls" and "mset ls' = mset ls"
  shows "\<exists>t' es'. run_commands reduce command_to_events s (List.map add_command ls') = Inr (t', es') \<and>
    mset es' = mset es \<and> mset (lines t') = mset (lines t) \<and> finalized t' = finalized t \<and>
    subtotal_minor t' = subtotal_minor t \<and> tax_minor t' = tax_minor t \<and> total_minor t' = total_minor t"
proof -
  have ok: "list_all line_ok (lines s)" using assms(1) by (simp add: quote_inv_def)
  have ls: "all_addable s ls" by (rule accepted_addable [OF assms(1-3)])
  have t: "t = add_lines s ls" "es = List.map added_event ls" using addable_runs [OF ok ls] assms(2) by simp_all
  have "all_addable s ls'" by (rule addable_perm [OF assms(4) [symmetric] ls])
  note run = addable_runs [OF ok this]
  note same = money_perm [OF assms(4), of s]
  have "subtotal_minor (add_lines s ls') = subtotal_minor (add_lines s ls) \<and>
      tax_minor (add_lines s ls') = tax_minor (add_lines s ls) \<and> total_minor (add_lines s ls') = total_minor (add_lines s ls)"
    by (simp add: subtotal_cases tax_cases total_cases exact_total_def same)
  with run assms(4) show ?thesis by (auto simp: t)
qed

definition two_lines :: "LineItemState list" where
  "two_lines =
     [\<lparr>line_id = ''L1'', sku = ''SKU'', description = ''Widget'', quantity = 2, unit_minor = 5000\<rparr>,
      \<lparr>line_id = ''L2'', sku = ''SKU'', description = ''Widget'', quantity = 1, unit_minor = 100\<rparr>]"

theorem concurrent_lines_agree_witness:
  "\<exists>t' es'. run_commands reduce command_to_events
      \<lparr>currency_code = Some ''USD'', jurisdiction_id = Some ''US'', finalized = False, lines = []\<rparr>
      (List.map add_command (rev two_lines)) = Inr (t', es') \<and> total_minor t' = Inr 10908"
proof -
  let ?s = "\<lparr>currency_code = Some ''USD'', jurisdiction_id = Some ''US'', finalized = False, lines = []\<rparr> :: QuoteState"
  have inv: "quote_inv ?s" by code_simp
  from quote.run_commands_replays [OF this] obtain t es where
    run: "run_commands reduce command_to_events ?s (List.map add_command two_lines) = Inr (t, es)" by blast
  have "map_sum id (map_prod total_minor length) (run_commands reduce command_to_events ?s (List.map add_command two_lines)) =
      Inr (Inr 10908, 2)" by code_simp
  with run have "length es = length two_lines" "total_minor t = Inr 10908" by (simp_all add: two_lines_def)
  with concurrent_lines_agree [OF inv run, of "rev two_lines"] show ?thesis by auto
qed

end
