(* ===== verification/Concurrent_Appends.thy ===== *)
theory Concurrent_Appends
  imports Order_Independence Ledger_History
begin

text \<open>
  The writers of theory \<open>Order_Independence\<close> on the database: a series of \<open>append_one_db\<close> calls under
  new keys is the run of their commands on the aggregate, so the quote that concurrent writers
  build does not depend on the order in which the connection was free for them.
\<close>

section \<open>Appends are the aggregate's commands\<close>

definition requests :: "rstring \<Rightarrow> (rstring \<times> DomainCommand) list \<Rightarrow> (rstring \<times> rstring \<times> DomainCommand) list" where
  "requests q kcs = List.map (\<lambda>(k, cmd). (q, k, cmd)) kcs"

text \<open>The database works, the quote is in state \<open>s\<close>, and the keys are new and its log has room.\<close>

definition ready ::
  "External \<Rightarrow> rstring \<Rightarrow> (rstring \<times> 'x) list \<Rightarrow> Connection \<Rightarrow> QuoteState \<Rightarrow> bool" where
  "ready E q kxs c s \<longleftrightarrow>
     ledger_inv E c \<and> healthy c \<and> replay (history_of E c q) = Inr s \<and>
     length (history_of E c q) + length kxs < 2 ^ 63 \<and>
     distinct (List.map fst kxs) \<and> (\<forall>k \<in> fst ` set kxs. key_of c q k = None)"

lemma ready_inv: "ready E q kxs c s \<Longrightarrow> quote_inv s"
  using ledger_inv_history(2) [of E c q] by (auto simp: ready_def good_history_def)

lemma refused_append:
  assumes "ready E q ((k, cmd) # kcs) c s" and "command_to_events s cmd = Inl x"
    and "append_one_db E q k cmd c = (r, c')"
  shows "ready E q kcs c' s \<and> history_of E c' q = history_of E c q"
proof -
  have "append_spec (history_of E c q) None q k cmd = Inl (DomainErr x)"
    using assms(1,2) by (simp add: append_spec_def decide_on_def ready_def)
  with append_one_db_run [OF _ assms(3)] assms(1) show ?thesis
    by (auto simp: ready_def same_history_def)
qed

lemma accepted_append:
  assumes ready: "ready E q ((k, cmd) # kcs) c s" and accepts: "command_to_events s cmd = Inr [ev]" "reduce s ev = Inr s'"
    and run: "append_one_db E q k cmd c = (r, c')"
  shows "ready E q kcs c' s' \<and> history_of E c' q = history_of E c q @ [ev]"
proof -
  have "append_spec (history_of E c q) None q k cmd = Inr (Suc (length (history_of E c q)), [ev])"
    using ready accepts(1) by (simp add: append_spec_def decide_on_def ready_def)
  with append_one_db_run [OF _ run] ready have c': "ledger_inv E c'" "healthy c'" "grown_history E q k [ev] c c'"
    by (auto simp: ready_def)
  have "replay (history_of E c q @ [ev]) = Inr s'" using ready accepts(2) by (simp add: ready_def replay_snoc)
  with c' ready show ?thesis by (auto simp: ready_def grown_history_def)
qed

text \<open>
  A series of appends under new keys, whatever is refused among them, is \<open>run_commands\<close> of the
  aggregate: the history grows by its events and replays to its state.
\<close>

lemma appends_run_commands:
  assumes "ready E q kcs c s" and "run_commands reduce command_to_events s (List.map snd kcs) = Inr (t, es)"
  shows "ready E q ([] :: (rstring \<times> DomainCommand) list) (run_appends E (requests q kcs) c) t \<and>
    history_of E (run_appends E (requests q kcs) c) q = history_of E c q @ es"
  using assms
proof (induction kcs arbitrary: c s es)
  case (Cons kc kcs)
  obtain k cmd where kc: "kc = (k, cmd)" by (cases kc)
  obtain r c' where run: "append_one_db E q k cmd c = (r, c')" by fastforce
  then have step: "run_appends E (requests q ((k, cmd) # kcs)) c = run_appends E (requests q kcs) c'"
    by (simp add: requests_def)
  note ready = Cons.prems(1) [unfolded kc]
  show ?case
  proof (cases "command_to_events s cmd")
    case (Inl x)
    with Cons.IH [of c' s es] refused_append [OF ready Inl run] Cons.prems(2) show ?thesis by (simp add: kc step)
  next
    case (Inr new)
    with command_event_applies [OF ready_inv [OF ready]] obtain ev s' where
      ev: "new = [ev]" "reduce s ev = Inr s'" by blast
    obtain es' where es': "run_commands reduce command_to_events s' (List.map snd kcs) = Inr (t, es')" "es = ev # es'"
      using Cons.prems(2) Inr ev by (auto simp: kc result_simps split: prod.splits)
    from accepted_append [OF ready _ ev(2) run] Inr ev(1) have "ready E q kcs c' s'" "history_of E c' q = history_of E c q @ [ev]"
      by simp_all
    with Cons.IH [OF _ es'(1)] es'(2) show ?thesis by (simp add: kc step)
  qed
qed (auto simp: requests_def ready_def)

section \<open>Properties\<close>

text \<open>
  C33: Concurrent writers agree: when lines added under new keys are all accepted in one order of the
  appends, they are all accepted in every other order, and the quote then has the same lines and
  events up to their order and the same subtotal, tax and total.
\<close>

theorem concurrent_appends_agree:
  assumes "ready E q kls c s" and "mset kls' = mset kls"
    and "c1 = run_appends E (requests q (List.map (map_prod id add_command) kls)) c"
    and "length (history_of E c1 q) = length (history_of E c q) + length kls"
    and "c2 = run_appends E (requests q (List.map (map_prod id add_command) kls')) c"
  shows "\<exists>t1 t2. replay (history_of E c1 q) = Inr t1 \<and> replay (history_of E c2 q) = Inr t2 \<and>
    mset (history_of E c2 q) = mset (history_of E c1 q) \<and> mset (lines t2) = mset (lines t1) \<and>
    subtotal_minor t2 = subtotal_minor t1 \<and> tax_minor t2 = tax_minor t1 \<and> total_minor t2 = total_minor t1"
proof -
  have cmds: "List.map snd (List.map (map_prod id add_command) xs) = List.map add_command (List.map snd xs)"
    and keys: "List.map fst (List.map (map_prod id add_command) xs) = List.map fst xs" for xs :: "(rstring \<times> LineItemState) list"
    by simp_all
  have ready: "ready E q (List.map (map_prod id add_command) xs) c s" if "mset xs = mset kls" for xs
    using assms(1) mset_eq_setD [OF that] mset_eq_length [OF that] mset_eq_imp_distinct_iff [of "List.map fst xs" "List.map fst kls"] that
    by (simp add: ready_def keys image_image)
  obtain t1 es1 where run1: "run_commands reduce command_to_events s (List.map add_command (List.map snd kls)) = Inr (t1, es1)"
    using quote.run_commands_replays [OF ready_inv [OF assms(1)]] by blast
  from appends_run_commands [OF ready [OF refl], unfolded cmds, OF run1] assms(3)
  have c1: "replay (history_of E c1 q) = Inr t1" "history_of E c1 q = history_of E c q @ es1" unfolding ready_def by blast+
  then have "length es1 = length (List.map snd kls)" using assms(4) by simp
  moreover have "mset (List.map snd kls') = mset (List.map snd kls)" using assms(2) by simp
  ultimately obtain t2 es2 where run2: "run_commands reduce command_to_events s (List.map add_command (List.map snd kls')) = Inr (t2, es2)"
    and same: "mset es2 = mset es1" "mset (lines t2) = mset (lines t1)"
      "subtotal_minor t2 = subtotal_minor t1" "tax_minor t2 = tax_minor t1" "total_minor t2 = total_minor t1"
    using concurrent_lines_agree [OF ready_inv [OF assms(1)] run1] by blast
  from appends_run_commands [OF ready [OF assms(2)], unfolded cmds, OF run2] assms(5)
  have "replay (history_of E c2 q) = Inr t2" "history_of E c2 q = history_of E c q @ es2" unfolding ready_def by blast+
  with c1 same show ?thesis by simp
qed

text \<open>Two writers on a created quote, and the same two in the other order\<close>

definition writers :: "(rstring \<times> LineItemState) list" where
  "writers = zip [''k1'', ''k2''] two_lines"

theorem concurrent_appends_agree_witness:
  "\<exists>t. replay (history_of sample_external (run_appends sample_external
      (requests ''q'' (List.map (map_prod id add_command) (rev writers)))
      (run_appends sample_external [(''q'', ''k0'', CreateQuote ''USD'' ''US'')] (fresh_db []))) ''q'') = Inr t \<and>
     total_minor t = Inr 10908"
proof -
  let ?E = sample_external and ?cs = "List.map (map_prod id add_command)"
  define c where "c = run_appends ?E [(''q'', ''k0'', CreateQuote ''USD'' ''US'')] (fresh_db [])"
  have "(healthy c, history_of ?E c ''q'', List.map (key_of c ''q'') (List.map fst writers)) =
      (True, [QuoteCreated ''USD'' ''US''], [None, None])"
    unfolding c_def by code_simp
  moreover have inv: "ledger_inv ?E c" unfolding c_def by (intro run_appends_inv ledger_inv_fresh sample_codec_ok)
  moreover have "\<exists>s. replay (history_of ?E c ''q'') = Inr s"
    using ledger_inv_history(2) [OF inv] unfolding good_history_def by blast
  ultimately obtain s where ready: "ready ?E ''q'' writers c s" by (auto simp: ready_def writers_def two_lines_def)
  have "(length (history_of ?E (run_appends ?E (requests ''q'' (?cs writers)) c) ''q''), length (history_of ?E c ''q''), length writers) = (3, 1, 2)"
    unfolding c_def by code_simp
  then have len: "length (history_of ?E (run_appends ?E (requests ''q'' (?cs writers)) c) ''q'') =
      length (history_of ?E c ''q'') + length writers" by simp
  from concurrent_appends_agree [OF ready _ refl len refl, of "rev writers"] obtain t1 t2 where
    t: "replay (history_of ?E (run_appends ?E (requests ''q'' (?cs writers)) c) ''q'') = Inr t1"
      "replay (history_of ?E (run_appends ?E (requests ''q'' (?cs (rev writers))) c) ''q'') = Inr t2"
      "total_minor t2 = total_minor t1" by auto
  have "map_err (\<lambda>_. ()) (and_then (replay (history_of ?E (run_appends ?E (requests ''q'' (?cs writers)) c) ''q'')) total_minor) = Inr 10908"
    unfolding c_def by code_simp
  with t show ?thesis unfolding c_def by (cases "total_minor t1") auto
qed

end
