(* ===== verification/Handlers.thy ===== *)
theory Handlers
  imports Ledger_System
begin

text \<open>
  The sequential handlers are schedules of the interleaving system: what \<open>append_commands\<close> and
  \<open>subscribe_quote\<close> do to the database and the bus is a sequence of its steps.  So what is proved
  of every reachable state holds after every call of the handlers.
\<close>

section \<open>Lemmas\<close>

definition agrees :: "('w, 'r) System \<Rightarrow> 'w Ledger \<Rightarrow> bool" where
  "agrees S l \<longleftrightarrow> conn (ledger S) = conn l \<and> bus (ledger S) = bus l"

definition runs_to ::
  "External \<Rightarrow> ('w, 'r) WatchOps \<Rightarrow> ('w, 'r) System \<Rightarrow> ('w, 'r) System \<Rightarrow> bool" where
  "runs_to E W S S' \<longleftrightarrow>
     (step E W)\<^sup>*\<^sup>* S S' \<and> publishing S' = publishing S \<and> registering S' = registering S"

lemma runs_to_refl: "runs_to E W S S"
  by (simp add: runs_to_def)

lemma runs_to_trans: "runs_to E W S S' \<Longrightarrow> runs_to E W S' S'' \<Longrightarrow> runs_to E W S S''"
  by (auto simp: runs_to_def)

lemma publish_head_agrees:
  "bus l = bus l' \<Longrightarrow> bus (publish_head W q h l) = bus (publish_head W q h l')"
  by (simp add: publish_head_def Let_def)

lemma runs_to_step:
  "step E W S S' \<Longrightarrow> publishing S' = publishing S \<Longrightarrow> registering S' = registering S \<Longrightarrow> runs_to E W S S'"
  by (auto simp: runs_to_def)

text \<open>An append that stored events, as a commit and the publication of its head\<close>

lemma append_runs:
  assumes "append_one_db E q k dc (conn (ledger S)) = (Inr cs, c)"
  shows "\<exists>S'. runs_to E W S S' \<and> pumps S' = pumps S \<and> conn (ledger S') = c \<and>
    bus (ledger S') = (if cs = [] then bus (ledger S) else bus (publish_head W q (seq (last cs)) (ledger S)))"
proof (cases "cs = []")
  case True
  let ?S = "S\<lparr>ledger := (ledger S)\<lparr>conn := c\<rparr>, publishing := publishing S @ []\<rparr>"
  from step.commit [OF assms] True have "runs_to E W S ?S" by (intro runs_to_step) simp_all
  with True show ?thesis by (intro exI [of _ ?S]) simp
next
  case False
  let ?S = "S\<lparr>ledger := (ledger S)\<lparr>conn := c\<rparr>, publishing := publishing S @ [(q, seq (last cs))]\<rparr>"
  let ?S2 = "?S\<lparr>ledger := publish_head W q (seq (last cs)) (ledger ?S), publishing := publishing S @ []\<rparr>"
  from step.commit [OF assms] False have "step E W S ?S" by simp
  moreover have "step E W ?S ?S2" by (rule step.publish) simp
  ultimately have "runs_to E W S ?S2" by (simp add: runs_to_def two_steps)
  with False show ?thesis by (intro exI [of _ ?S2]) (simp add: publish_head_def Let_def)
qed

lemma append_one_runs:
  assumes agrees: "agrees S l" and one: "append_one E W q k cmd l = (r, l')"
  shows "\<exists>S'. runs_to E W S S' \<and> agrees S' l' \<and> pumps S' = pumps S"
proof (cases "proto_command_to_domain cmd")
  case (Inl st)
  with assms show ?thesis
    by (intro exI [of _ S]) (auto simp: append_one_run agrees_def runs_to_refl)
next
  case dc: (Inr dc)
  obtain r1 c where run: "append_one_db E q k dc (conn (ledger S)) = (r1, c)" by fastforce
  note run' = run [unfolded agrees [unfolded agrees_def, THEN conjunct1]]
  show ?thesis
  proof (cases r1)
    case (Inl e)
    let ?S = "S\<lparr>ledger := (ledger S)\<lparr>conn := c\<rparr>\<rparr>"
    have "runs_to E W S ?S" using run Inl by (intro runs_to_step [OF step.commit_fails]) simp_all
    moreover have "agrees ?S l'" using assms dc Inl run' by (auto simp: append_one_run agrees_def)
    ultimately show ?thesis by (intro exI [of _ ?S]) simp
  next
    case (Inr cs)
    from append_runs [OF run [unfolded Inr], of W] obtain S' where S': "runs_to E W S S'" "pumps S' = pumps S" "conn (ledger S') = c"
      "bus (ledger S') = (if cs = [] then bus (ledger S) else bus (publish_head W q (seq (last cs)) (ledger S)))" by blast
    moreover have "agrees S' l'"
      using assms dc Inr run' S'(3,4) by (auto simp: append_one_run agrees_def publish_head_def Let_def)
    ultimately show ?thesis by blast
  qed
qed

lemma append_commands_frame_runs:
  assumes "agrees S l" and "append_commands_frame E W lim st msg l = (r, l')"
  shows "\<exists>S'. runs_to E W S S' \<and> agrees S' l' \<and> pumps S' = pumps S"
proof (cases "unat (append_max_commands lim) < unat (command_count st + 1)")
  case True
  with assms have "agrees S l'"
    by (auto simp: append_commands_frame_def Let_def count_stream_def st_bind_def st_lift_run agrees_def)
  then show ?thesis using runs_to_refl by blast
next
  case room: False
  show ?thesis
  proof (cases "frame_checks st msg")
    case (Inl e)
    with assms room have "agrees S l'" by (auto simp: append_commands_frame_def Let_def st_bind_lift)
    then show ?thesis using runs_to_refl by blast
  next
    case (Inr qc)
    obtain q cmd where qc: "qc = (q, cmd)" by (cases qc)
    obtain r1 l1 where run: "append_one E W q (req_client_command_id msg) cmd l = (r1, l1)" by fastforce
    have "l1 = l'"
      using assms(2) room Inr qc run
      by (cases r1) (auto simp: append_commands_frame_def Let_def st_lift_run st_bind_def st_return_run)
    with append_one_runs [OF assms(1) run] show ?thesis by simp
  qed
qed

lemma append_commands_loop_runs_to:
  "agrees S l \<Longrightarrow> append_commands_loop E W lim st items l = (r, l') \<Longrightarrow>
   \<exists>S'. runs_to E W S S' \<and> agrees S' l' \<and> pumps S' = pumps S"
proof (induction items arbitrary: S st l)
  case Nil
  then show ?case using runs_to_refl by (fastforce simp: st_return_run)
next
  case (Cons item items)
  show ?case
  proof (cases item)
    case (Frame msg)
    obtain r1 l1 where run: "append_commands_frame E W lim st msg l = (r1, l1)" by fastforce
    from append_commands_frame_runs [OF Cons.prems(1) run] obtain S1 where
      S1: "runs_to E W S S1" "agrees S1 l1" "pumps S1 = pumps S" by blast
    show ?thesis
    proof (cases r1)
      case (Inl e)
      with Cons.prems(2) Frame run have "l' = l1" by (simp add: st_bind_def)
      with S1 show ?thesis by blast
    next
      case (Inr st1)
      with Cons.prems(2) Frame run have "append_commands_loop E W lim st1 items l1 = (r, l')"
        by (simp add: st_bind_def)
      from Cons.IH [OF S1(2) this] S1 runs_to_trans show ?thesis by metis
    qed
  qed (use Cons.prems runs_to_refl in
    \<open>fastforce simp: count_stream_def st_bind_def st_lift_run agrees_def\<close>)+
qed

section \<open>Properties\<close>

text \<open>
  A call of AppendCommands is a schedule of the system: from any state, with any stream, it
  changes the database and the bus exactly as some sequence of commits and publications does.
\<close>

theorem append_commands_is_schedule:
  "\<exists>S'. (step E W)\<^sup>*\<^sup>* S S' \<and>
     conn (ledger S') = conn (snd (append_commands E W lim items (ledger S))) \<and>
     bus (ledger S') = bus (snd (append_commands E W lim items (ledger S))) \<and>
     publishing S' = publishing S \<and> registering S' = registering S \<and> pumps S' = pumps S"
proof -
  obtain r l where run: "append_commands_loop E W lim AppendStream_start items (ledger S) = (r, l)" by fastforce
  have "agrees S (ledger S)" by (simp add: agrees_def)
  from append_commands_loop_runs_to [OF this run] obtain S' where
    S': "runs_to E W S S'" "agrees S' l" "pumps S' = pumps S" by blast
  moreover have "conn (snd (append_commands E W lim items (ledger S))) = conn l \<and>
      bus (snd (append_commands E W lim items (ledger S))) = bus l"
    using run by (auto simp: append_commands_def st_bind_def count_stream_def st_return_run st_lift_run
        split: sum.split option.split)
  ultimately show ?thesis by (auto simp: runs_to_def agrees_def)
qed

text \<open>
  A call of SubscribeQuote that succeeds is a schedule of the system too: its reads and its
  registration, after which the new subscriber is the one the handler returned.
\<close>

theorem subscribe_quote_is_schedule:
  assumes "subscribe_quote E W req bs (ledger S) = (Inr p, l)"
  shows "\<exists>S'. (step E W)\<^sup>*\<^sup>* S S' \<and> conn (ledger S') = conn l \<and> bus (ledger S') = bus l \<and>
    publishing S' = publishing S \<and> registering S' = registering S \<and> pumps S' = pumps S @ [p]"
proof -
  let ?q = "sub_quote_id req"
  obtain r1 c where run: "subscribe_db E ?q (after_seq req) (conn (ledger S)) = (r1, c)" by fastforce
  with assms obtain init where init: "r1 = Inr init"
    by (cases r1) (auto simp: subscribe_quote_def st_bind_def on_db_def st_lift_run split: sum.splits)
  let ?R = "\<lparr>reg_quote = ?q, reg_after = after_seq req, reg_sends = bs, reg_init = init\<rparr>"
  let ?S = "S\<lparr>ledger := (ledger S)\<lparr>conn := c\<rparr>, registering := registering S @ [?R]\<rparr>"
  obtain rx l2 where reg: "register W ?q (init_last_seq init) ((ledger S)\<lparr>conn := c\<rparr>) = (rx, l2)" by fastforce
  let ?p = "pump_start init (new_pump ?q (after_seq req) rx bs)"
  let ?S2 = "?S\<lparr>ledger := l2, registering := registering S @ [], pumps := pumps ?S @
      [pump_start (reg_init ?R) (new_pump (reg_quote ?R) (reg_after ?R) rx (reg_sends ?R))]\<rparr>"
  have "step E W S ?S" using run init by (intro step.read) simp
  moreover have "step E W ?S ?S2" by (rule step.register) (use reg in simp_all)
  ultimately have "(step E W)\<^sup>*\<^sup>* S ?S2" by (rule two_steps)
  moreover have "conn l2 = conn l \<and> bus l2 = bus l \<and> p = ?p"
    using assms run init reg
    by (auto simp: subscribe_quote_def st_bind_def on_db_def st_lift_run register_def Let_def
        split: sum.splits)
  ultimately show ?thesis by (intro exI [of _ ?S2]) auto
qed

theorem subscribe_quote_is_schedule_witness:
  "\<exists>S' p. (step sample_external sample_watch)\<^sup>*\<^sup>* (start_system (fresh_db []) :: (u64 \<times> nat, nat) System) S' \<and>
    pumps S' = [p] \<and> pump_quote p = ''q''"
proof -
  let ?req = "\<lparr>sub_quote_id = ''q'', after_seq = 0\<rparr>" and ?S = "start_system (fresh_db []) :: (u64 \<times> nat, nat) System"
  have "(case fst (subscribe_quote sample_external sample_watch ?req [] (ledger ?S)) of
      Inl _ \<Rightarrow> False | Inr p \<Rightarrow> pump_quote p = ''q'')" by code_simp
  then obtain p l where p: "subscribe_quote sample_external sample_watch ?req [] (ledger ?S) = (Inr p, l)" "pump_quote p = ''q''"
    by (cases "subscribe_quote sample_external sample_watch ?req [] (ledger ?S)") (auto split: sum.splits)
  from subscribe_quote_is_schedule [OF p(1)] p(2) show ?thesis by (auto simp: start_system_def)
qed

end
