(* ===== verification/In_Flight_Gauge.thy ===== *)
theory In_Flight_Gauge
  imports Ledger_Service Simulation
begin

text \<open>
  \<open>InFlightGuard\<close> of \<open>src/ledger.rs\<close> at the grain of its atomic operations.  \<open>enter\<close> and \<open>drop\<close>
  each change the counter with one atomic operation and then set the gauge
  \<open>quote_ledger_in_flight_appends\<close> with another; appends run on several threads, so the halves of
  different guards interleave.  \<open>InFlightGuard_enter\<close> and \<open>InFlightGuard_drop\<close> are the runs in
  which they do not.
\<close>

section \<open>The atomic operations\<close>

definition fetch_add :: "'w Ledger \<Rightarrow> u64 \<times> 'w Ledger" where
  "fetch_add l = (in_flight_appends l + 1, l\<lparr>in_flight_appends := in_flight_appends l + 1\<rparr>)"

definition fetch_sub :: "'w Ledger \<Rightarrow> u64 \<times> 'w Ledger" where
  "fetch_sub l =
     (let prev = in_flight_appends l
      in (saturating_sub prev 1, l\<lparr>in_flight_appends := prev - 1\<rparr>))"

definition set_gauge :: "u64 \<Rightarrow> 'w Ledger \<Rightarrow> 'w Ledger" where
  "set_gauge n l = l\<lparr>in_flight_gauge := as_f64 n\<rparr>"

section \<open>Guards and their steps\<close>

text \<open>
  Where a guard is: it has counted itself and holds \<open>n\<close> for the gauge; its append runs; it has
  uncounted itself and holds \<open>n\<close> for the gauge; it is gone.
\<close>

datatype GuardPhase = Counted u64 | Inside | Uncounted u64 | Released

record 'w Guarded =
  metered :: "'w Ledger"
  guards :: "GuardPhase list"

datatype GuardAct = FetchAdd | FetchSub nat | SetGauge nat

fun guard_act :: "GuardAct \<Rightarrow> 'w Guarded \<Rightarrow> 'w Guarded option" where
  "guard_act FetchAdd G =
     (case fetch_add (metered G) of (n, l) \<Rightarrow> Some \<lparr>metered = l, guards = guards G @ [Counted n]\<rparr>)"
| "guard_act (FetchSub i) G =
     (if i < length (guards G) \<and> guards G ! i = Inside
      then case fetch_sub (metered G) of (n, l) \<Rightarrow> Some \<lparr>metered = l, guards = (guards G)[i := Uncounted n]\<rparr>
      else None)"
| "guard_act (SetGauge i) G =
     (if i < length (guards G)
      then case guards G ! i of
          Counted n \<Rightarrow> Some \<lparr>metered = set_gauge n (metered G), guards = (guards G)[i := Inside]\<rparr>
        | Uncounted n \<Rightarrow> Some \<lparr>metered = set_gauge n (metered G), guards = (guards G)[i := Released]\<rparr>
        | _ \<Rightarrow> None
      else None)"

definition gstep :: "'w Guarded \<Rightarrow> 'w Guarded \<Rightarrow> bool" where
  "gstep G G' \<longleftrightarrow> (\<exists>a. guard_act a G = Some G')"

definition no_guards :: "Connection \<Rightarrow> 'w Guarded" where
  "no_guards c = \<lparr>metered = new_ledger c, guards = []\<rparr>"

lemma gstepI: "guard_act a G = Some G' \<Longrightarrow> gstep G G'"
  by (auto simp: gstep_def)

lemma gstep_cases [consumes 1, case_names add sub counted uncounted]:
  assumes "gstep G G'"
    and "\<And>n l. fetch_add (metered G) = (n, l) \<Longrightarrow> G' = \<lparr>metered = l, guards = guards G @ [Counted n]\<rparr> \<Longrightarrow> P"
    and "\<And>i n l. i < length (guards G) \<Longrightarrow> guards G ! i = Inside \<Longrightarrow> fetch_sub (metered G) = (n, l) \<Longrightarrow>
           G' = \<lparr>metered = l, guards = (guards G)[i := Uncounted n]\<rparr> \<Longrightarrow> P"
    and "\<And>i n. i < length (guards G) \<Longrightarrow> guards G ! i = Counted n \<Longrightarrow>
           G' = \<lparr>metered = set_gauge n (metered G), guards = (guards G)[i := Inside]\<rparr> \<Longrightarrow> P"
    and "\<And>i n. i < length (guards G) \<Longrightarrow> guards G ! i = Uncounted n \<Longrightarrow>
           G' = \<lparr>metered = set_gauge n (metered G), guards = (guards G)[i := Released]\<rparr> \<Longrightarrow> P"
  shows P
proof -
  from assms(1) obtain a where a: "guard_act a G = Some G'" by (auto simp: gstep_def)
  show P
  proof (cases a)
    case FetchAdd
    with a assms(2) show P by (auto split: prod.splits)
  next
    case (FetchSub i)
    with a assms(3) [of i] show P by (auto split: prod.splits if_splits)
  next
    case (SetGauge i)
    with a assms(4,5) [of i] show P by (auto split: if_splits GuardPhase.splits)
  qed
qed

section \<open>The counter counts the guards\<close>

fun counts :: "GuardPhase \<Rightarrow> bool" where
  "counts (Counted _) = True"
| "counts Inside = True"
| "counts _ = False"

definition counter_exact :: "'w Guarded \<Rightarrow> bool" where
  "counter_exact G \<longleftrightarrow> in_flight_appends (metered G) = of_nat (length (filter counts (guards G)))"

lemma counts_update:
  "i < length gs \<Longrightarrow> counts (gs ! i) \<Longrightarrow>
   length (filter counts gs) = (if counts g then 0 else 1) + length (filter counts (gs[i := g]))"
  "i < length gs \<Longrightarrow> \<not> counts (gs ! i) \<Longrightarrow> \<not> counts g \<Longrightarrow>
   length (filter counts (gs[i := g])) = length (filter counts gs)"
  by (induction gs arbitrary: i) (auto split: nat.splits simp: nth_Cons)

interpretation guard: evolving gstep counter_exact "\<lambda>G G'. length (guards G) \<le> length (guards G')"
proof
  fix G G' :: "'a Guarded"
  assume ok: "counter_exact G" and "gstep G G'"
  then show "counter_exact G' \<and> length (guards G) \<le> length (guards G')"
  proof (cases rule: gstep_cases [OF \<open>gstep G G'\<close>])
    case 1
    with ok show ?thesis by (auto simp: counter_exact_def fetch_add_def)
  next
    case (2 i n l)
    with ok counts_update(1) [of i "guards G" "Uncounted n"] show ?thesis
      by (auto simp: counter_exact_def fetch_sub_def Let_def)
  next
    case (3 i n)
    with ok counts_update(1) [of i "guards G" Inside] show ?thesis by (auto simp: counter_exact_def set_gauge_def)
  next
    case (4 i n)
    with ok counts_update(2) [of i "guards G" Released] show ?thesis by (auto simp: counter_exact_def set_gauge_def)
  qed
qed simp_all

text \<open>However the halves interleave, the counter, which the drain of the shutdown reads, is right.\<close>

lemma counter_exact_run: "gstep\<^sup>*\<^sup>* (no_guards c) G \<Longrightarrow> counter_exact G"
  using guard.run_ok [of "no_guards c" G] by (simp add: counter_exact_def no_guards_def new_ledger_def)

theorem counter_is_exact:
  assumes "gstep\<^sup>*\<^sup>* (no_guards c) G"
  shows "in_flight_appends (metered G) = of_nat (length (filter counts (guards G)))"
  using counter_exact_run [OF assms] by (simp add: counter_exact_def)

theorem counter_is_exact_witness:
  "gstep\<^sup>*\<^sup>* (no_guards (fresh_db []) :: u64 Guarded) \<lparr>metered = (new_ledger (fresh_db []))\<lparr>in_flight_appends := 1\<rparr>, guards = [Counted 1]\<rparr>
   \<and> in_flight_appends ((new_ledger (fresh_db []) :: u64 Ledger)\<lparr>in_flight_appends := 1\<rparr>) = 1"
proof -
  have "gstep (no_guards (fresh_db []) :: u64 Guarded) \<lparr>metered = (new_ledger (fresh_db []))\<lparr>in_flight_appends := 1\<rparr>, guards = [Counted 1]\<rparr>"
    by (intro gstepI [of FetchAdd]) (simp add: no_guards_def fetch_add_def new_ledger_def)
  then have run: "gstep\<^sup>*\<^sup>* (no_guards (fresh_db []) :: u64 Guarded) \<lparr>metered = (new_ledger (fresh_db []))\<lparr>in_flight_appends := 1\<rparr>, guards = [Counted 1]\<rparr>"
    by (rule r_into_rtranclp)
  with counter_is_exact [OF run] show ?thesis by simp
qed

section \<open>Guards that do not overlap\<close>




text \<open>Then the gauge shows the counter, as far as \<open>f64\<close> can.\<close>

lemma alone_right:
  "in_flight_gauge (InFlightGuard_enter l) = as_f64 (in_flight_appends (InFlightGuard_enter l))"
  "in_flight_appends l \<noteq> 0 \<Longrightarrow> in_flight_gauge (InFlightGuard_drop l) = as_f64 (in_flight_appends (InFlightGuard_drop l))"
  by (simp_all add: InFlightGuard_enter_def InFlightGuard_drop_def Let_def saturating_sub_def unat_eq_zero)

section \<open>Guards that overlap\<close>






end
