(* ===== verification/Stream_Metrics.thy ===== *)
theory Stream_Metrics
  imports Append_Stream
begin

text \<open>
  What the counter \<open>quote_ledger_append_commands_streams_total\<close> says of the calls of
  \<open>append_commands\<close>: the results that \<open>docs/ops-runbook.md\<close> and the example alerts divide by the
  number of counted streams.
\<close>

section \<open>The results that a ledger has counted\<close>

definition stream_results :: "'w Ledger \<Rightarrow> rstring list" where
  "stream_results l =
     List.map snd (filter (\<lambda>(name, _). name = ''quote_ledger_append_commands_streams_total'') (counted l))"

lemma count_stream_run:
  "count_stream b l = (Inr (), snd (count_stream b l))"
  "stream_results (snd (count_stream b l)) = stream_results l @ [b]"
  by (simp_all add: count_stream_def stream_results_def)

lemma append_one_results:
  "append_one E W q k cmd l = (r, l') \<Longrightarrow> stream_results l' = stream_results l"
  by (cases rule: append_one_cases) (auto simp: stream_results_def)

lemma frame_results:
  assumes "append_commands_frame E W lim st msg l = (r, l')"
  shows "stream_results l' = stream_results l \<or>
    stream_results l' = stream_results l @ [''too_many''] \<and> (\<exists>e. r = Inl e \<and> code e = ResourceExhausted)"
proof (cases "unat (append_max_commands lim) < unat (command_count st + 1)")
  case True
  with assms count_stream_run [of "''too_many''" l] show ?thesis
    by (auto simp: append_commands_frame_def Let_def st_bind_def st_lift_run split: prod.splits)
next
  case room: False
  show ?thesis
  proof (cases "frame_checks st msg")
    case (Inl e)
    with assms room show ?thesis by (auto simp: append_commands_frame_def Let_def st_bind_lift)
  next
    case (Inr qc)
    obtain r1 l1 where run: "append_one E W (fst qc) (req_client_command_id msg) (snd qc) l = (r1, l1)" by fastforce
    with assms room Inr have "l' = l1"
      by (cases qc; cases r1) (auto simp: append_commands_frame_def Let_def st_bind_def st_lift_run st_return_run)
    with append_one_results [OF run] show ?thesis by simp
  qed
qed

lemma loop_results:
  assumes "append_commands_loop E W lim st items l = (r, l')"
  shows "case r of
      Inr st' \<Rightarrow> stream_results l' = stream_results l \<and> (items = [] \<longrightarrow> st' = st) \<and> (items \<noteq> [] \<longrightarrow> stream_quote_id st' \<noteq> None)
    | Inl e \<Rightarrow>
        stream_results l' = stream_results l @ [''transport_error''] \<and> TransportError e \<in> set items \<or>
        stream_results l' = stream_results l @ [''timeout''] \<and> IdleTimeout \<in> set items \<and> code e = DeadlineExceeded \<or>
        stream_results l' = stream_results l @ [''too_many''] \<and> code e = ResourceExhausted \<and> items \<noteq> [] \<or>
        stream_results l' = stream_results l \<and> (\<exists>msg. Frame msg \<in> set items)"
  using assms
proof (induction items arbitrary: st l)
  case Nil
  then show ?case by (auto simp: st_return_run)
next
  case (Cons item items)
  show ?case
  proof (cases item)
    case (Frame msg)
    obtain r1 l1 where run: "append_commands_frame E W lim st msg l = (r1, l1)" by fastforce
    note frame = frame_results [OF run]
    show ?thesis
    proof (cases r1)
      case (Inl e)
      with Cons.prems Frame run frame show ?thesis by (auto simp: st_bind_def)
    next
      case (Inr st1)
      have q: "stream_quote_id st1 \<noteq> None"
        using run Inr by (cases rule: append_commands_frame_cases) auto
      from Inr frame have same: "stream_results l1 = stream_results l" by auto
      have "append_commands_loop E W lim st1 items l1 = (r, l')"
        using Cons.prems Frame run Inr by (simp add: st_bind_def)
      from Cons.IH [OF this] q same show ?thesis by (cases r) (auto simp: Frame)
    qed
  qed (use Cons.prems count_stream_run(2) [of _ l] in \<open>auto simp: st_bind_def st_lift_run count_stream_def\<close>)
qed

lemma append_commands_results:
  "case append_commands E W lim items l of
     (Inr resp, l') \<Rightarrow> stream_results l' = stream_results l @ [''ok'']
   | (Inl e, l') \<Rightarrow>
       stream_results l' = stream_results l @ [''transport_error''] \<and> TransportError e \<in> set items \<or>
       stream_results l' = stream_results l @ [''timeout''] \<and> IdleTimeout \<in> set items \<and> code e = DeadlineExceeded \<or>
       stream_results l' = stream_results l @ [''too_many''] \<and> items \<noteq> [] \<and> code e = ResourceExhausted \<or>
       stream_results l' = stream_results l @ [''invalid''] \<and> items = [] \<and> code e = InvalidArgument \<or>
       stream_results l' = stream_results l \<and> (\<exists>msg. Frame msg \<in> set items)"
proof -
  obtain r l1 where run: "append_commands_loop E W lim AppendStream_start items l = (r, l1)" by fastforce
  note loop = loop_results [OF run]
  show ?thesis
  proof (cases r)
    case (Inl e)
    with run loop show ?thesis by (auto simp: append_commands_def st_bind_def)
  next
    case (Inr st)
    then have same: "stream_results l1 = stream_results l" using loop by simp
    show ?thesis
    proof (cases "stream_quote_id st")
      case None
      with Inr loop have "items = []" by auto
      with None run Inr same count_stream_run(2) [of "''invalid''" l1] show ?thesis
        by (simp add: append_commands_def st_bind_def count_stream_def st_lift_run)
    next
      case (Some q)
      with run Inr same count_stream_run(2) [of "''ok''" l1] show ?thesis
        by (simp add: append_commands_def st_bind_def count_stream_def st_return_run)
    qed
  qed
qed

section \<open>Properties\<close>

text \<open>
  C25: A call of AppendCommands is counted as ok exactly when it succeeds, and at most once.  A call
  that fails is counted only for a transport error, an idle timeout, too many commands or an
  empty stream; one that fails in the check of a message or in its append, which includes every
  failure of the database, is counted under no result.
\<close>

theorem stream_outcomes_counted:
  "case append_commands E W lim items l of
     (Inr resp, l') \<Rightarrow> stream_results l' = stream_results l @ [''ok'']
   | (Inl e, l') \<Rightarrow>
       stream_results l' = stream_results l @ [''transport_error''] \<and> TransportError e \<in> set items \<or>
       stream_results l' = stream_results l @ [''timeout''] \<and> IdleTimeout \<in> set items \<and> code e = DeadlineExceeded \<or>
       stream_results l' = stream_results l @ [''too_many''] \<and> items \<noteq> [] \<and> code e = ResourceExhausted \<or>
       stream_results l' = stream_results l @ [''invalid''] \<and> items = [] \<and> code e = InvalidArgument \<or>
       stream_results l' = stream_results l \<and> (\<exists>msg. Frame msg \<in> set items)"
  by (rule append_commands_results)

text \<open>A stream whose append meets a failing disk: the client gets INTERNAL, the counter nothing.\<close>

theorem database_failure_not_counted:
  "\<exists>e l'. append_commands sample_external sample_watch ReliabilityLimits_default
      [frame_for ''q'' (''k'', CreateQuote ''USD'' ''US'')] (new_ledger (fresh_db [Some ''disk I/O error''])) = (Inl e, l') \<and>
    code e = Internal \<and> stream_results l' = []"
proof -
  let ?run = "append_commands sample_external sample_watch ReliabilityLimits_default
      [frame_for ''q'' (''k'', CreateQuote ''USD'' ''US'')] (new_ledger (fresh_db [Some ''disk I/O error'']))"
  have "(case ?run of (r, l') \<Rightarrow> (map_err code r, stream_results l')) = (Inl Internal, [])" by code_simp
  then show ?thesis by (cases ?run; cases "fst ?run") auto
qed

end
