(* ===== verification/Latency_Histograms.thy ===== *)
theory Latency_Histograms
  imports Stream_Metrics
begin

text \<open>
  The two latency histograms of \<open>src/ledger.rs\<close>: \<open>quote_ledger_append_one_duration_seconds\<close>, which
  the guard \<open>AppendOneLatency\<close> records when it is dropped, and
  \<open>quote_ledger_append_commands_stream_duration_seconds\<close>, which \<open>append_commands\<close> records before it
  answers.  The monotonic clock is a parameter: \<open>clock i\<close> is its i-th reading in nanoseconds.  Each
  histogram is modelled around the untimed operation, so the readings of one do not shift the other.
\<close>

section \<open>State and operations\<close>

record 'w Timed =
  untimed :: "'w Ledger"
  readings :: nat
  samples :: "nat list"

definition instant_now :: "(nat \<Rightarrow> nat) \<Rightarrow> 'w Timed \<Rightarrow> nat \<times> 'w Timed" where
  "instant_now clock T = (clock (readings T), T\<lparr>readings := readings T + 1\<rparr>)"

text \<open>\<open>started.elapsed()\<close>, recorded; an instant after now gives zero, as subtraction on naturals does.\<close>

definition record_elapsed :: "(nat \<Rightarrow> nat) \<Rightarrow> nat \<Rightarrow> 'w Timed \<Rightarrow> 'w Timed" where
  "record_elapsed clock started T =
     (case instant_now clock T of (now, T') \<Rightarrow> T'\<lparr>samples := samples T' @ [now - started]\<rparr>)"

definition AppendOneLatency_start :: "(nat \<Rightarrow> nat) \<Rightarrow> 'w Timed \<Rightarrow> nat \<times> 'w Timed" where
  "AppendOneLatency_start clock T = instant_now clock T"

definition AppendOneLatency_drop :: "(nat \<Rightarrow> nat) \<Rightarrow> nat \<Rightarrow> 'w Timed \<Rightarrow> 'w Timed" where
  "AppendOneLatency_drop clock started T = record_elapsed clock started T"

text \<open>The guard lives for the whole of \<open>append_one\<close>, so it is dropped on every return.\<close>

definition timed_append_one ::
  "(nat \<Rightarrow> nat) \<Rightarrow> External \<Rightarrow> ('w, 'r) WatchOps \<Rightarrow> rstring \<Rightarrow> rstring \<Rightarrow> QuoteCommand \<Rightarrow>
   'w Timed \<Rightarrow> (Status + StoredEvent list) \<times> 'w Timed" where
  "timed_append_one clock E W q k cmd T =
     (case AppendOneLatency_start clock T of (started, T') \<Rightarrow>
      case append_one E W q k cmd (untimed T') of (r, l) \<Rightarrow>
        (r, AppendOneLatency_drop clock started (T'\<lparr>untimed := l\<rparr>)))"

text \<open>A stream is timed from its call, and recorded only on the path that answers.\<close>

definition timed_append_commands ::
  "(nat \<Rightarrow> nat) \<Rightarrow> External \<Rightarrow> ('w, 'r) WatchOps \<Rightarrow> ReliabilityLimits \<Rightarrow> StreamItem list \<Rightarrow>
   'w Timed \<Rightarrow> (Status + AppendCommandsResponse) \<times> 'w Timed" where
  "timed_append_commands clock E W lim items T =
     (case instant_now clock T of (stream_started, T') \<Rightarrow>
      case append_commands E W lim items (untimed T') of
        (Inl e, l) \<Rightarrow> (Inl e, T'\<lparr>untimed := l\<rparr>)
      | (Inr resp, l) \<Rightarrow> (Inr resp, record_elapsed clock stream_started (T'\<lparr>untimed := l\<rparr>)))"

section \<open>What the histograms hold\<close>

text \<open>Every append is recorded once, failed ones included, and is otherwise the untimed one.\<close>

theorem every_append_is_timed:
  "timed_append_one clock E W q k cmd T =
     (fst (append_one E W q k cmd (untimed T)),
      \<lparr>untimed = snd (append_one E W q k cmd (untimed T)), readings = readings T + 2,
       samples = samples T @ [clock (readings T + 1) - clock (readings T)]\<rparr>)"
  by (simp add: timed_append_one_def AppendOneLatency_start_def AppendOneLatency_drop_def record_elapsed_def
      instant_now_def split: prod.splits)

text \<open>
  The streams of a service, one after the other: the duration histogram has as many new samples
  as the stream counter has new successes, so the time that failed and timed out streams took is
  in no histogram.
\<close>

definition oks :: "rstring list \<Rightarrow> nat" where
  "oks rs = length (filter (\<lambda>r. r = ''ok'') rs)"

definition timed_streams where
  "timed_streams clock E W lim = fold (\<lambda>items T. snd (timed_append_commands clock E W lim items T))"

lemma stream_sample:
  fixes T :: "'w Timed"
  assumes "T' = snd (timed_append_commands clock E W lim items T)"
  shows "length (samples T') + oks (stream_results (untimed T)) = length (samples T) + oks (stream_results (untimed T'))"
proof -
  obtain r l' where run: "append_commands E W lim items (untimed T) = (r, l')" by fastforce
  with append_commands_results [where E = E and W = W and lim = lim and items = items and l = "untimed T"] assms show ?thesis
    by (cases r) (auto simp: timed_append_commands_def record_elapsed_def instant_now_def oks_def)
qed

theorem durations_are_successes:
  "length (samples (timed_streams clock E W lim calls T)) + oks (stream_results (untimed T)) =
   length (samples T) + oks (stream_results (untimed (timed_streams clock E W lim calls T)))"
proof (induction calls arbitrary: T)
  case Nil
  then show ?case by (simp add: timed_streams_def)
next
  case (Cons items calls)
  from Cons.IH [of "snd (timed_append_commands clock E W lim items T)"] stream_sample [OF refl, of clock E W lim items T]
  show ?case by (simp add: timed_streams_def)
qed

end
