(* ===== verification/Money_Width.thy ===== *)
theory Money_Width
  imports Domain
begin

text \<open>
  The money functions of \<open>src/domain/model.rs\<close> at the width of the code.  In theory \<open>Domain\<close> a value
  of type \<open>i128\<close> is an integer; here it is a 128-bit word, whose arithmetic wraps around, and the
  functions are written out again on it.  The result is the same: no value they compute
  leaves the range of the type.
\<close>

section \<open>Arithmetic of \<open>i128\<close>\<close>

type_synonym i128_word = "128 word"

text \<open>\<open>i128::from\<close> of an \<open>i64\<close>, \<open>i64::try_from\<close> of an \<open>i128\<close>, and the division, which truncates\<close>

definition i128_from :: "i64 \<Rightarrow> i128_word" where
  "i128_from x = scast x"

definition i64_try_from_i128 :: "i128_word \<Rightarrow> i64 option" where
  "i64_try_from_i128 p = (if fits_i64 (sint p) then Some (scast p) else None)"

definition i128_div :: "i128_word \<Rightarrow> i128_word \<Rightarrow> i128_word" where
  "i128_div a b = word_of_int (sint a sdiv sint b)"

section \<open>The money functions\<close>

definition line_total_minor_i128 :: "LineItemState \<Rightarrow> DomainError + i64" where
  "line_total_minor_i128 l =
     (let p = i128_from (quantity l) * i128_from (unit_minor l)
      in ok_or (i64_try_from_i128 p) IntegerOverflow)"

definition add_line_total_i128 :: "i128_word \<Rightarrow> LineItemState \<Rightarrow> DomainError + i128_word" where
  "add_line_total_i128 acc l = and_then (line_total_minor_i128 l) (\<lambda>t. Inr (acc + i128_from t))"

definition subtotal_minor_i128 :: "QuoteState \<Rightarrow> DomainError + i64" where
  "subtotal_minor_i128 s =
     and_then (try_fold add_line_total_i128 0 (lines s))
       (\<lambda>acc. ok_or (i64_try_from_i128 acc) IntegerOverflow)"

definition tax_minor_i128 :: "QuoteState \<Rightarrow> DomainError + i64" where
  "tax_minor_i128 s =
     and_then (subtotal_minor_i128 s) (\<lambda>sub.
       let bps = tax_rate_bps s;
           num = i128_div (i128_from sub * i128_from bps) 10000
       in ok_or (i64_try_from_i128 num) IntegerOverflow)"

definition total_minor_i128 :: "QuoteState \<Rightarrow> DomainError + i64" where
  "total_minor_i128 s =
     and_then (subtotal_minor_i128 s) (\<lambda>sub.
     and_then (tax_minor_i128 s) (\<lambda>tax.
       let t = i128_from sub + i128_from tax
       in ok_or (i64_try_from_i128 t) IntegerOverflow))"

section \<open>Values within the range\<close>

text \<open>Integers below the bound are their words, and so are the results of the operations.\<close>

definition represents :: "i128_word \<Rightarrow> int \<Rightarrow> bool" where
  "represents w v \<longleftrightarrow> sint w = v"

lemma represents_fits: "fits_i128 v \<Longrightarrow> represents (word_of_int v) v"
  unfolding fits_i128_def represents_def
  by (simp add: sint_sbintrunc' signed_take_bit_int_eq_self)

lemma represents_word: "represents w v \<Longrightarrow> w = word_of_int v"
  by (auto simp: represents_def)

lemma represents_try: "represents w v \<Longrightarrow> i64_try_from_i128 w = i64_try_from v"
  by (auto simp: represents_def i64_try_from_i128_def i64_try_from_def scast_eq)

lemma abs_fits: "\<bar>v\<bar> \<le> 2 ^ 126 \<Longrightarrow> fits_i128 v"
  by (simp add: fits_i128_def abs_le_iff)

lemma sint_i64_abs: "\<bar>sint (w :: i64)\<bar> \<le> 2 ^ 63"
  using sint_fits_i64 [of w] unfolding fits_i64_def by linarith

lemma represents_from: "represents (i128_from x) (sint x)"
proof -
  have "fits_i128 (sint x)" using sint_i64_abs [of x] by (intro abs_fits) simp
  from represents_fits [OF this] show ?thesis unfolding i128_from_def scast_eq .
qed

lemma represents_mult:
  assumes "represents a v" and "represents b w" and "\<bar>v\<bar> \<le> 2 ^ 63" and "\<bar>w\<bar> \<le> 2 ^ 63"
  shows "represents (a * b) (v * w)"
proof -
  have "\<bar>v * w\<bar> \<le> 2 ^ 63 * 2 ^ 63"
    unfolding abs_mult by (intro mult_mono assms(3,4)) simp_all
  then have "fits_i128 (v * w)" by (intro abs_fits) simp
  from represents_fits [OF this] show ?thesis
    unfolding represents_word [OF assms(1)] represents_word [OF assms(2)] wi_hom_mult .
qed

lemma represents_add:
  assumes "represents a v" and "represents b w" and "\<bar>v + w\<bar> \<le> 2 ^ 126"
  shows "represents (a + b) (v + w)"
  using represents_fits [OF abs_fits [OF assms(3)]]
  unfolding represents_word [OF assms(1)] represents_word [OF assms(2)] wi_hom_add .

lemma represents_div:
  assumes "represents a v"
  shows "represents (i128_div a 10000) (v sdiv 10000)"
proof -
  have "fits_i128 v" using assms sint_greater_eq [of a] sint_less [of a] by (simp add: represents_def fits_i128_def)
  then have "fits_i128 (v sdiv 10000)" by (auto simp: fits_i128_def signed_divide_int_def sgn_if)
  with represents_fits assms show ?thesis by (simp add: i128_div_def represents_def)
qed

section \<open>Agreement\<close>

lemma line_total_width: "line_total_minor_i128 l = line_total_minor l"
  using represents_try [OF represents_mult [OF represents_from represents_from sint_i64_abs sint_i64_abs]]
  by (simp add: line_total_minor_i128_def line_total_minor_def Let_def)

lemma subtotal_loop_width:
  assumes "represents acc v" and "\<bar>v\<bar> + int (length ls) * 2 ^ 63 \<le> 2 ^ 126"
  shows "rel_sum (=) represents (try_fold add_line_total_i128 acc ls) (try_fold add_line_total v ls)"
  using assms
proof (induction ls arbitrary: acc v)
  case (Cons l ls)
  show ?case
  proof (cases "line_total_minor l")
    case (Inl e)
    then show ?thesis by (simp add: add_line_total_i128_def add_line_total_def line_total_width)
  next
    case (Inr t)
    have "\<bar>v + sint t\<bar> + int (length ls) * 2 ^ 63 \<le> 2 ^ 126"
      using Cons.prems(2) sint_i64_abs [of t] by (simp add: algebra_simps)
    moreover from this have "represents (acc + i128_from t) (v + sint t)"
      by (intro represents_add Cons.prems(1) represents_from) (smt (verit) zero_le_mult_iff of_nat_0_le_iff zero_le_power)
    ultimately show ?thesis
      using Cons.IH Inr by (simp add: add_line_total_i128_def add_line_total_def line_total_width)
  qed
qed simp

lemma subtotal_width:
  assumes "length (lines s) < 2 ^ 63"
  shows "subtotal_minor_i128 s = subtotal_minor s"
proof -
  have "int (length (lines s)) * 2 ^ 63 \<le> 2 ^ 63 * 2 ^ 63" using assms by (intro mult_right_mono) auto
  then have "rel_sum (=) represents (try_fold add_line_total_i128 0 (lines s)) (try_fold add_line_total 0 (lines s))"
    by (intro subtotal_loop_width) (simp_all add: represents_def)
  then show ?thesis
    by (cases rule: rel_sum.cases) (simp_all add: subtotal_minor_i128_def subtotal_minor_def represents_try)
qed

lemma tax_width:
  assumes "length (lines s) < 2 ^ 63"
  shows "tax_minor_i128 s = tax_minor s"
  using represents_try [OF represents_div [OF represents_mult [OF represents_from represents_from sint_i64_abs sint_i64_abs]]]
  by (simp add: tax_minor_i128_def tax_minor_def subtotal_width [OF assms] Let_def)

lemma represents_sum: "represents (i128_from a + i128_from b) (sint a + sint b)"
  using sint_i64_abs [of a] sint_i64_abs [of b] by (intro represents_add represents_from) simp

section \<open>Properties\<close>

text \<open>
  C34: Computed in 128-bit arithmetic that wraps around, as the code computes them, the line total,
  the subtotal, the tax and the total are the values of the integer arithmetic that the rest of
  the development uses, errors included; a \<open>Vec\<close> holds fewer than \<open>2 ^ 63\<close> elements.
\<close>

theorem i128_arithmetic_is_exact:
  assumes "length (lines s) < 2 ^ 63"
  shows "line_total_minor_i128 l = line_total_minor l \<and> subtotal_minor_i128 s = subtotal_minor s \<and>
    tax_minor_i128 s = tax_minor s \<and> total_minor_i128 s = total_minor s"
  using represents_try [OF represents_sum]
  by (simp add: line_total_width subtotal_width [OF assms] tax_width [OF assms] total_minor_i128_def total_minor_def Let_def)

text \<open>At the upper end of \<open>i64\<close>, where the product needs more than 64 bits\<close>

theorem i128_arithmetic_is_exact_witness:
  "let s = sample_quote\<lparr>lines := [\<lparr>line_id = ''L1'', sku = ''S'', description = ''D'', quantity = 2 ^ 62, unit_minor = 2 ^ 62\<rparr>]\<rparr>
   in total_minor_i128 s = total_minor s \<and> total_minor s = Inl IntegerOverflow"
proof -
  let ?s = "sample_quote\<lparr>lines := [\<lparr>line_id = ''L1'', sku = ''S'', description = ''D'', quantity = 2 ^ 62, unit_minor = 2 ^ 62\<rparr>]\<rparr>"
  have "total_minor ?s = Inl IntegerOverflow" by code_simp
  with i128_arithmetic_is_exact [of ?s] show ?thesis by simp
qed

end
