(* ===== verification/Auth.thy ===== *)
theory Auth
  imports Wire
begin

text \<open>
  The gRPC interceptors: bearer-token authentication (\<open>src/auth.rs\<close>) and the composite of it
  with the process-wide rate limit (\<open>src/grpc_interceptor.rs\<close>).
  \<^item> Of a request the interceptors read one metadata entry, \<open>authorization\<close>; \<open>NotAscii\<close> is a
    value whose \<open>to_str\<close> fails.
  \<^item> The environment is the list of its entries, whose names and values are Unicode or not.
  \<^item> \<open>constant_time_eq\<close> is a function of the crate of that name, the limiter one of \<open>governor\<close>:
    both are parameters, the limiter as a state with a \<open>check\<close>.
\<close>

section \<open>The process environment\<close>

datatype OsString = Unicode rstring | NotUnicodeBytes rstring

type_synonym Env = "(OsString \<times> OsString) list"

datatype VarResult = Present rstring | NotPresent | NotUnicode

definition env_var :: "Env \<Rightarrow> rstring \<Rightarrow> VarResult" where
  "env_var env name =
     (case map_of env (Unicode name) of
        None \<Rightarrow> NotPresent
      | Some (Unicode v) \<Rightarrow> Present v
      | Some (NotUnicodeBytes _) \<Rightarrow> NotUnicode)"

section \<open>Authentication\<close>

datatype MetadataValue = Ascii rstring | NotAscii

record Request =
  authorization :: "MetadataValue option"

record AuthInterceptor =
  expected_token :: "rstring option"

definition auth_from_env_var :: "Env \<Rightarrow> rstring \<Rightarrow> rstring + AuthInterceptor" where
  "auth_from_env_var env var =
     (case env_var env var of
        Present token \<Rightarrow>
          (let trimmed = trim token in
           if trimmed = [] then Inl (var @ '' must not be empty when set'')
           else Inr \<lparr>expected_token = Some trimmed\<rparr>)
      | NotPresent \<Rightarrow> Inr \<lparr>expected_token = None\<rparr>
      | NotUnicode \<Rightarrow> Inl (var @ '' must be valid UTF-8''))"

definition auth_required :: "rstring \<Rightarrow> AuthInterceptor" where
  "auth_required token = \<lparr>expected_token = Some token\<rparr>"

definition to_str :: "MetadataValue \<Rightarrow> rstring option" where
  "to_str v = (case v of Ascii s \<Rightarrow> Some s | NotAscii \<Rightarrow> None)"

definition check_request ::
  "(rstring \<Rightarrow> rstring \<Rightarrow> bool) \<Rightarrow> AuthInterceptor \<Rightarrow> Request \<Rightarrow> Status + Request" where
  "check_request constant_time_eq a request =
     (case expected_token a of
        None \<Rightarrow> Inr request
      | Some expected \<Rightarrow>
          and_then (ok_or (authorization request)
                      (status Unauthenticated ''missing authorization metadata'')) (\<lambda>raw_header.
          and_then (ok_or (to_str raw_header)
                      (status Unauthenticated ''authorization metadata is not valid ASCII'')) (\<lambda>raw.
          and_then (ok_or (split_once CHR '' '' raw)
                      (status Unauthenticated ''invalid authorization metadata format'')) (\<lambda>(scheme, token).
          fail_if (\<not> eq_ignore_ascii_case scheme ''bearer'')
            (status Unauthenticated ''authorization scheme must be Bearer'')
          (fail_if (length expected \<noteq> length token \<or> \<not> constant_time_eq expected token)
            (status Unauthenticated ''invalid bearer token'')
          (Inr request))))))"

definition auth_intercept ::
  "(rstring \<Rightarrow> rstring \<Rightarrow> bool) \<Rightarrow> AuthInterceptor \<Rightarrow> Request \<Rightarrow> Status + Request" where
  "auth_intercept constant_time_eq a request = check_request constant_time_eq a request"

text \<open>\<open>impl Interceptor for AuthInterceptor\<close>\<close>

definition auth_call ::
  "(rstring \<Rightarrow> rstring \<Rightarrow> bool) \<Rightarrow> AuthInterceptor \<Rightarrow> Request \<Rightarrow> Status + Request" where
  "auth_call constant_time_eq a request = auth_intercept constant_time_eq a request"

section \<open>The composite interceptor\<close>

record 'g LedgerGrpcInterceptor =
  ix_auth :: AuthInterceptor
  ix_limiter :: "'g option"
  ix_rate_limited :: nat

definition interceptor_new ::
  "(nat \<Rightarrow> 'g) \<Rightarrow> AuthInterceptor \<Rightarrow> nat option \<Rightarrow> 'g LedgerGrpcInterceptor" where
  "interceptor_new direct a requests_per_second =
     \<lparr>ix_auth = a, ix_limiter = map_option direct requests_per_second, ix_rate_limited = 0\<rparr>"

text \<open>\<open>ix_rate_limited\<close> is the counter \<open>quote_ledger_grpc_rate_limited_total\<close>.\<close>

definition interceptor_call ::
  "(rstring \<Rightarrow> rstring \<Rightarrow> bool) \<Rightarrow> ('g \<Rightarrow> bool \<times> 'g) \<Rightarrow> Request \<Rightarrow>
   ('g LedgerGrpcInterceptor, Status, Request) comp" where
  "interceptor_call constant_time_eq check request =
     (\<lambda>ix. st_bind (st_lift (auth_intercept constant_time_eq (ix_auth ix) request)) (\<lambda>request ix.
        case ix_limiter ix of
          None \<Rightarrow> (Inr request, ix)
        | Some lim \<Rightarrow>
            (case check lim of (admitted, lim') \<Rightarrow>
               let ix = ix\<lparr>ix_limiter := Some lim'\<rparr> in
               if \<not> admitted
               then (Inl (status ResourceExhausted
                       ''global gRPC request rate limit exceeded (set GRPC_RATE_LIMIT_RPS)''),
                     ix\<lparr>ix_rate_limited := ix_rate_limited ix + 1\<rparr>)
               else (Inr request, ix))) ix)"

section \<open>Lemmas\<close>

text \<open>What the crate documents: the comparison decides equality, in constant time.\<close>

definition compares_equal :: "(rstring \<Rightarrow> rstring \<Rightarrow> bool) \<Rightarrow> bool" where
  "compares_equal cte \<longleftrightarrow> (\<forall>a b. length a = length b \<longrightarrow> cte a b = (a = b))"

definition authorized :: "AuthInterceptor \<Rightarrow> Request \<Rightarrow> bool" where
  "authorized a request \<longleftrightarrow>
     (case expected_token a of
        None \<Rightarrow> True
      | Some token \<Rightarrow>
          (\<exists>scheme. authorization request = Some (Ascii (scheme @ CHR '' '' # token)) \<and>
             CHR '' '' \<notin> set scheme \<and> to_ascii_lowercase scheme = ''bearer''))"

lemma bearer_lower: "to_ascii_lowercase ''bearer'' = ''bearer''"
  by code_simp

lemma to_str_Some [simp]: "to_str v = Some s \<longleftrightarrow> v = Ascii s"
  by (cases v) (simp_all add: to_str_def)

lemma check_request_Inr:
  assumes "compares_equal cte"
  shows "check_request cte a request = Inr r \<longleftrightarrow> r = request \<and> authorized a request"
  using assms
  by (cases "expected_token a")
    (auto simp: check_request_def authorized_def result_simps split_once_Some_iff
      eq_ignore_ascii_case_def bearer_lower compares_equal_def)

lemma check_request_refused: "compares_equal cte \<Longrightarrow> check_request cte a request = Inl st \<Longrightarrow> \<not> authorized a request"
  using check_request_Inr [of cte a request request] by simp

lemma check_request_Inl: "check_request cte a request = Inl st \<Longrightarrow> code st = Unauthenticated"
  by (auto simp: check_request_def result_simps split: option.splits)

lemma interceptor_call_cases:
  assumes "compares_equal cte" and "interceptor_call cte check request ix = (r, ix')"
  obtains (refused) st where "\<not> authorized (ix_auth ix) request" and "r = Inl st" and "code st = Unauthenticated"
      and "ix' = ix"
    | (unlimited) "authorized (ix_auth ix) request" and "ix_limiter ix = None" and "r = Inr request" and "ix' = ix"
    | (admitted) lim lim' where "authorized (ix_auth ix) request" and "ix_limiter ix = Some lim"
      and "check lim = (True, lim')" and "r = Inr request" and "ix' = ix\<lparr>ix_limiter := Some lim'\<rparr>"
    | (limited) lim lim' st where "authorized (ix_auth ix) request" and "ix_limiter ix = Some lim"
      and "check lim = (False, lim')" and "r = Inl st" and "code st = ResourceExhausted"
      and "ix' = ix\<lparr>ix_limiter := Some lim', ix_rate_limited := ix_rate_limited ix + 1\<rparr>"
proof (cases "check_request cte (ix_auth ix) request")
  case (Inl st)
  have "interceptor_call cte check request ix = (Inl st, ix)"
    by (simp add: interceptor_call_def auth_intercept_def st_bind_def st_lift_run Inl)
  with assms(2) check_request_Inl [OF Inl] check_request_refused [OF assms(1) Inl] show ?thesis
    by (intro refused) simp_all
next
  case (Inr req)
  then have "req = request" "authorized (ix_auth ix) request" using check_request_Inr [OF assms(1)] by auto
  with Inr assms(2) show ?thesis
    by (cases "ix_limiter ix")
      (auto simp: interceptor_call_def auth_intercept_def st_bind_def st_lift_run Let_def
        split: prod.splits if_splits intro: unlimited admitted limited)
qed

section \<open>Properties\<close>

text \<open>
  C39: A request passes authentication, unchanged, exactly when no token is configured or its
  authorization metadata is the word bearer in any case, one space and the configured token; any
  other request is refused as UNAUTHENTICATED.
\<close>

theorem authentication_decides:
  assumes "compares_equal cte"
  shows "(authorized a request \<longrightarrow> auth_intercept cte a request = Inr request) \<and>
    (\<not> authorized a request \<longrightarrow> (\<exists>st. auth_intercept cte a request = Inl st \<and> code st = Unauthenticated))"
  using check_request_Inr [OF assms, of a request] check_request_Inl [of cte a request]
  by (cases "check_request cte a request") (auto simp: auth_intercept_def)

theorem authentication_decides_witness:
  "auth_intercept (=) (auth_required ''t0k'') \<lparr>authorization = Some (Ascii ''BeArEr t0k'')\<rparr> =
     Inr \<lparr>authorization = Some (Ascii ''BeArEr t0k'')\<rparr> \<and>
   (\<exists>st. auth_intercept (=) (auth_required ''t0k'') \<lparr>authorization = Some (Ascii ''Bearer t0K'')\<rparr> = Inl st \<and>
     code st = Unauthenticated)"
proof -
  have eq: "compares_equal (=)" by (simp add: compares_equal_def)
  have "check_request (=) (auth_required ''t0k'') \<lparr>authorization = Some (Ascii ''BeArEr t0k'')\<rparr> =
      Inr \<lparr>authorization = Some (Ascii ''BeArEr t0k'')\<rparr>" by code_simp
  then have "authorized (auth_required ''t0k'') \<lparr>authorization = Some (Ascii ''BeArEr t0k'')\<rparr>"
    by (simp only: check_request_Inr [OF eq])
  moreover have "isl (check_request (=) (auth_required ''t0k'') \<lparr>authorization = Some (Ascii ''Bearer t0K'')\<rparr>)"
    by code_simp
  then have "\<not> authorized (auth_required ''t0k'') \<lparr>authorization = Some (Ascii ''Bearer t0K'')\<rparr>"
    by (auto simp: isl_def dest: check_request_refused [OF eq])
  ultimately show ?thesis
    using authentication_decides [OF eq, of "auth_required ''t0k''" "\<lparr>authorization = Some (Ascii ''BeArEr t0k'')\<rparr>"]
      authentication_decides [OF eq, of "auth_required ''t0k''" "\<lparr>authorization = Some (Ascii ''Bearer t0K'')\<rparr>"]
    by blast
qed

text \<open>
  The rate limit sees only authenticated requests: one that fails authentication is answered
  UNAUTHENTICATED and takes nothing from the limiter; an authenticated one passes exactly when
  there is no limiter or the limiter admits it, and a refusal is RESOURCE_EXHAUSTED and counted.
\<close>

theorem interceptor_order:
  assumes "compares_equal cte" and "interceptor_call cte check request ix = (r, ix')"
  shows "ix_auth ix' = ix_auth ix \<and>
    (if \<not> authorized (ix_auth ix) request then ix' = ix \<and> (\<exists>st. r = Inl st \<and> code st = Unauthenticated)
     else case ix_limiter ix of
       None \<Rightarrow> ix' = ix \<and> r = Inr request
     | Some lim \<Rightarrow> ix_limiter ix' = Some (snd (check lim)) \<and>
         (if fst (check lim) then r = Inr request \<and> ix_rate_limited ix' = ix_rate_limited ix
          else ix_rate_limited ix' = ix_rate_limited ix + 1 \<and> (\<exists>st. r = Inl st \<and> code st = ResourceExhausted)))"
  using assms by (cases rule: interceptor_call_cases) simp_all

theorem interceptor_order_witness:
  "\<exists>st. interceptor_call (=) (\<lambda>n :: nat. (0 < n, n - 1)) \<lparr>authorization = None\<rparr>
      (interceptor_new id (auth_required ''t0k'') (Some 5)) =
    (Inl st, interceptor_new id (auth_required ''t0k'') (Some 5)) \<and> code st = Unauthenticated"
proof -
  let ?ix = "interceptor_new id (auth_required ''t0k'') (Some (5 :: nat))"
  obtain r ix' where run: "interceptor_call (=) (\<lambda>n :: nat. (0 < n, n - 1)) \<lparr>authorization = None\<rparr> ?ix = (r, ix')"
    by fastforce
  have "compares_equal (=)" by (simp add: compares_equal_def)
  moreover have "\<not> authorized (ix_auth ?ix) \<lparr>authorization = None\<rparr>"
    by (simp add: interceptor_new_def auth_required_def authorized_def)
  ultimately show ?thesis using interceptor_order [OF _ run] run by auto
qed

end
