(* ===== verification/Config.thy ===== *)
theory Config
  imports Auth Append_Stream
begin

text \<open>
  The start-up configuration of \<open>src/config.rs\<close>: the readers of one environment variable, the
  strict check of unknown names, and \<open>ServiceConfig::from_env_and_args\<close>.
  \<^item> The environment is the one of theory \<open>Auth\<close>; \<open>std::env::vars()\<close> walks it in order and
    panics at an entry whose name or value is not Unicode, which is the error \<open>Panicked\<close>.
  \<^item> The text forms of a socket address and of a quoted string (\<open>SocketAddr::from_str\<close> and
    \<open>Debug\<close> of \<open>str\<close>, which depend on address grammar and Unicode tables) are the parameters in
    \<open>Platform\<close>; nothing is assumed of them.
\<close>

section \<open>Definitions\<close>

record 'addr Platform =
  parse_socket_addr :: "rstring \<Rightarrow> rstring + 'addr"
  debug_str :: "rstring \<Rightarrow> rstring"

datatype StartupError = ConfigError rstring | Panicked

definition KNOWN_ENV_KEYS :: "rstring list" where
  "KNOWN_ENV_KEYS =
     [''APPEND_IDLE_TIMEOUT_MS'', ''APPEND_MAX_COMMANDS'', ''GRPC_CONCURRENCY_LIMIT'',
      ''GRPC_KEEPALIVE_INTERVAL_MS'', ''GRPC_KEEPALIVE_TIMEOUT_MS'', ''GRPC_LISTEN_ADDR'',
      ''GRPC_RATE_LIMIT_RPS'', ''GRPC_TLS_CERT'', ''GRPC_TLS_KEY'', ''METRICS_ADDR'',
      ''QUOTE_LEDGER_AUTH_TOKEN'', ''QUOTE_LEDGER_DB'', ''QUOTE_LEDGER_REFLECTION'', ''STRICT_CONFIG'']"

definition env_u64 :: "Env \<Rightarrow> rstring \<Rightarrow> u64 \<Rightarrow> rstring + u64" where
  "env_u64 env name dflt =
     (case env_var env name of
        Present v \<Rightarrow>
          and_then (map_err (\<lambda>e. name @ '': '' @ display_parse_int_error e) (parse_unsigned (2 ^ 64 - 1) v))
            (\<lambda>n. Inr (of_nat n))
      | NotPresent \<Rightarrow> Inr dflt
      | NotUnicode \<Rightarrow> Inl (name @ '': must be valid UTF-8''))"

text \<open>\<open>usize\<close> has 64 bits.\<close>

definition env_usize :: "Env \<Rightarrow> rstring \<Rightarrow> u64 \<Rightarrow> rstring + u64" where
  "env_usize env name dflt =
     (case env_var env name of
        Present v \<Rightarrow>
          and_then (map_err (\<lambda>e. name @ '': '' @ display_parse_int_error e) (parse_unsigned (2 ^ 64 - 1) v))
            (\<lambda>n. Inr (of_nat n))
      | NotPresent \<Rightarrow> Inr dflt
      | NotUnicode \<Rightarrow> Inl (name @ '': must be valid UTF-8''))"

definition env_bool :: "'addr Platform \<Rightarrow> Env \<Rightarrow> rstring \<Rightarrow> bool \<Rightarrow> rstring + bool" where
  "env_bool P env name dflt =
     (case env_var env name of
        Present v \<Rightarrow>
          (let t = to_ascii_lowercase (trim v) in
           if t = ''1'' \<or> t = ''true'' \<or> t = ''yes'' \<or> t = ''on'' then Inr True
           else if t = ''0'' \<or> t = ''false'' \<or> t = ''no'' \<or> t = ''off'' then Inr False
           else Inl (name @ '': expected true/false, got '' @ debug_str P t))
      | NotPresent \<Rightarrow> Inr dflt
      | NotUnicode \<Rightarrow> Inl (name @ '': must be valid UTF-8''))"

definition env_opt_nonzero_u32 :: "Env \<Rightarrow> rstring \<Rightarrow> rstring + nat option" where
  "env_opt_nonzero_u32 env name =
     (case env_var env name of
        Present v \<Rightarrow>
          (let t = trim v in
           fail_if (t = []) (name @ '' must not be empty when set'')
             (and_then (map_err (\<lambda>e. name @ '': invalid integer: '' @ display_parse_int_error e)
                          (parse_unsigned (2 ^ 32 - 1) t))
                (\<lambda>n. fail_if (n = 0) (name @ '' must be >= 1'') (Inr (Some n)))))
      | NotPresent \<Rightarrow> Inr None
      | NotUnicode \<Rightarrow> Inl (name @ '': must be valid UTF-8''))"

definition env_opt_path :: "Env \<Rightarrow> rstring \<Rightarrow> rstring + rstring option" where
  "env_opt_path env name =
     (case env_var env name of
        Present v \<Rightarrow>
          (let t = trim v in
           fail_if (t = []) (name @ '' must not be empty when set'') (Inr (Some t)))
      | NotPresent \<Rightarrow> Inr None
      | NotUnicode \<Rightarrow> Inl (name @ '': must be valid UTF-8''))"

text \<open>The loop over \<open>std::env::vars()\<close>.\<close>

fun strict_scan :: "'addr Platform \<Rightarrow> Env \<Rightarrow> StartupError + unit" where
  "strict_scan P [] = Inr ()"
| "strict_scan P ((Unicode k, Unicode v) # env) =
     (if \<not> (starts_with k ''QUOTE_LEDGER_'' \<or> starts_with k ''APPEND_'' \<or> starts_with k ''GRPC_'')
      then strict_scan P env
      else if k \<in> set KNOWN_ENV_KEYS then strict_scan P env
      else Inl (ConfigError
        (''STRICT_CONFIG: unknown environment variable '' @ debug_str P k @ '' (typo?)'')))"
| "strict_scan P (_ # env) = Inl Panicked"

definition validate_strict_unknown :: "'addr Platform \<Rightarrow> Env \<Rightarrow> StartupError + unit" where
  "validate_strict_unknown P env =
     and_then (map_err ConfigError (env_bool P env ''STRICT_CONFIG'' False)) (\<lambda>strict.
       if \<not> strict then Inr () else strict_scan P env)"

record 'addr ServiceConfig =
  grpc_listen :: 'addr
  metrics_listen :: 'addr
  db_path :: rstring
  reliability :: ReliabilityLimits
  grpc_concurrency_limit :: u64
  grpc_keepalive_interval :: nat
  grpc_keepalive_timeout :: nat
  reflection_enabled :: bool
  grpc_tls_cert :: "rstring option"
  grpc_tls_key :: "rstring option"
  grpc_rate_limit_rps :: "nat option"

text \<open>\<open>std::env::var(name).unwrap_or_else(|_| dflt)\<close>\<close>

definition env_or :: "Env \<Rightarrow> rstring \<Rightarrow> rstring \<Rightarrow> rstring" where
  "env_or env name dflt = (case env_var env name of Present v \<Rightarrow> v | _ \<Rightarrow> dflt)"

definition listen_address :: "'addr Platform \<Rightarrow> Env \<Rightarrow> rstring list \<Rightarrow> rstring + 'addr" where
  "listen_address P env args =
     (case env_var env ''GRPC_LISTEN_ADDR'' of
        Present v \<Rightarrow> map_err (\<lambda>e. ''GRPC_LISTEN_ADDR: '' @ e) (parse_socket_addr P v)
      | NotPresent \<Rightarrow>
          map_err (\<lambda>e. ''grpc listen address (argv[1] or default): '' @ e)
            (parse_socket_addr P (if 1 < length args then args ! 1 else ''127.0.0.1:50051''))
      | NotUnicode \<Rightarrow> Inl ''GRPC_LISTEN_ADDR: must be valid UTF-8'')"

definition tls_pair :: "rstring option \<Rightarrow> rstring option \<Rightarrow> rstring + rstring option \<times> rstring option" where
  "tls_pair cert key =
     (case (cert, key) of
        (Some c, Some k) \<Rightarrow> Inr (Some c, Some k)
      | (None, None) \<Rightarrow> Inr (None, None)
      | _ \<Rightarrow> Inl ''GRPC_TLS_CERT and GRPC_TLS_KEY must both be set or both unset'')"

text \<open>The part of \<open>from_env_and_args\<close> after the strict check, with its errors as texts.\<close>

definition read_config :: "'addr Platform \<Rightarrow> Env \<Rightarrow> rstring list \<Rightarrow> rstring + 'addr ServiceConfig" where
  "read_config P env args =
     and_then (listen_address P env args) (\<lambda>grpc.
     and_then (map_err (\<lambda>e. ''METRICS_ADDR: '' @ e)
       (parse_socket_addr P (env_or env ''METRICS_ADDR'' ''127.0.0.1:9090''))) (\<lambda>metrics.
     let db = env_or env ''QUOTE_LEDGER_DB'' ''quote_ledger.db'' in
     and_then (env_u64 env ''APPEND_IDLE_TIMEOUT_MS'' 10000) (\<lambda>idle.
     and_then (env_usize env ''APPEND_MAX_COMMANDS'' 512) (\<lambda>max_commands.
     fail_if (unat max_commands < 1) ''APPEND_MAX_COMMANDS must be >= 1''
     (fail_if (\<not> (1 \<le> unat idle \<and> unat idle \<le> 3600000))
        ''APPEND_IDLE_TIMEOUT_MS must be between 1 and 3600000''
     (and_then (env_usize env ''GRPC_CONCURRENCY_LIMIT'' 128) (\<lambda>concurrency.
     fail_if (unat concurrency < 1) ''GRPC_CONCURRENCY_LIMIT must be >= 1''
     (and_then (env_u64 env ''GRPC_KEEPALIVE_INTERVAL_MS'' 30000) (\<lambda>interval.
     and_then (env_u64 env ''GRPC_KEEPALIVE_TIMEOUT_MS'' 10000) (\<lambda>timeout.
     fail_if (unat interval < 1) ''GRPC_KEEPALIVE_INTERVAL_MS must be >= 1''
     (fail_if (unat timeout < 1) ''GRPC_KEEPALIVE_TIMEOUT_MS must be >= 1''
     (fail_if (unat interval \<le> unat timeout)
        ''GRPC_KEEPALIVE_TIMEOUT_MS must be less than GRPC_KEEPALIVE_INTERVAL_MS''
     (and_then (env_bool P env ''QUOTE_LEDGER_REFLECTION'' True) (\<lambda>reflection.
     and_then (env_opt_path env ''GRPC_TLS_CERT'') (\<lambda>cert.
     and_then (env_opt_path env ''GRPC_TLS_KEY'') (\<lambda>key.
     and_then (tls_pair cert key) (\<lambda>(tls_cert, tls_key).
     and_then (env_opt_nonzero_u32 env ''GRPC_RATE_LIMIT_RPS'') (\<lambda>rps.
       Inr \<lparr>grpc_listen = grpc, metrics_listen = metrics, db_path = db,
            reliability = \<lparr>append_idle_timeout = unat idle, append_max_commands = max_commands\<rparr>,
            grpc_concurrency_limit = concurrency, grpc_keepalive_interval = unat interval,
            grpc_keepalive_timeout = unat timeout, reflection_enabled = reflection,
            grpc_tls_cert = tls_cert, grpc_tls_key = tls_key, grpc_rate_limit_rps = rps\<rparr>))))))))))))))))))"

definition from_env_and_args ::
  "'addr Platform \<Rightarrow> Env \<Rightarrow> rstring list \<Rightarrow> StartupError + 'addr ServiceConfig" where
  "from_env_and_args P env args =
     and_then (validate_strict_unknown P env) (\<lambda>_. map_err ConfigError (read_config P env args))"

section \<open>Lemmas\<close>

lemma tls_pair_Inr: "tls_pair c k = Inr (c', k') \<Longrightarrow> c' = c \<and> k' = k \<and> (c = None \<longleftrightarrow> k = None)"
  by (auto simp: tls_pair_def split: option.splits)

lemma env_opt_nonzero_u32_Inr:
  "env_opt_nonzero_u32 env name = Inr (Some n) \<Longrightarrow> 1 \<le> n \<and> n < 2 ^ 32"
  using parse_unsigned_bound [of "2 ^ 32 - 1" _ n]
  by (fastforce simp: env_opt_nonzero_u32_def Let_def result_simps split: VarResult.splits)

lemma env_number:
  assumes "env_var env name = Present (show_nat n)" and "n < 2 ^ 64"
  shows "env_u64 env name dflt = Inr (of_nat n)" and "env_usize env name dflt = Inr (of_nat n)"
  using parse_show_nat [of n "2 ^ 64 - 1"] assms by (simp_all add: env_u64_def env_usize_def)

definition strict_prefix_key :: "rstring \<Rightarrow> bool" where
  "strict_prefix_key k \<longleftrightarrow>
     starts_with k ''QUOTE_LEDGER_'' \<or> starts_with k ''APPEND_'' \<or> starts_with k ''GRPC_''"

lemma strict_scan_Inr:
  "strict_scan P env = Inr u \<Longrightarrow> (k, v) \<in> set env \<Longrightarrow>
   \<exists>k' v'. k = Unicode k' \<and> v = Unicode v' \<and> (strict_prefix_key k' \<longrightarrow> k' \<in> set KNOWN_ENV_KEYS)"
proof (induction P env rule: strict_scan.induct)
  case (2 P k' v' env)
  then show ?case by (auto simp: strict_prefix_key_def split: if_splits)
qed simp_all

lemma strict_scan_panics:
  assumes "strict_scan P before = Inr ()" and "\<not> (\<exists>k' v'. k = Unicode k' \<and> v = Unicode v')"
  shows "strict_scan P (before @ (k, v) # behind) = Inl Panicked"
  using assms
proof (induction P before rule: strict_scan.induct)
  case (1 P)
  then show ?case by (cases k; cases v) simp_all
qed (auto split: if_splits)

text \<open>What a configuration that was accepted satisfies.\<close>

definition config_ok :: "'addr ServiceConfig \<Rightarrow> bool" where
  "config_ok cfg \<longleftrightarrow>
     1 \<le> unat (append_max_commands (reliability cfg)) \<and>
     1 \<le> append_idle_timeout (reliability cfg) \<and> append_idle_timeout (reliability cfg) \<le> 3600000 \<and>
     1 \<le> unat (grpc_concurrency_limit cfg) \<and>
     1 \<le> grpc_keepalive_timeout cfg \<and> grpc_keepalive_timeout cfg < grpc_keepalive_interval cfg \<and>
     (grpc_tls_cert cfg = None \<longleftrightarrow> grpc_tls_key cfg = None) \<and>
     (case grpc_rate_limit_rps cfg of None \<Rightarrow> True | Some n \<Rightarrow> 1 \<le> n \<and> n < 2 ^ 32)"

lemma read_config_ok: "read_config P env args = Inr cfg \<Longrightarrow> config_ok cfg"
  unfolding read_config_def Let_def
  by (auto simp: result_simps config_ok_def not_less Suc_le_eq dest!: tls_pair_Inr
      env_opt_nonzero_u32_Inr split: option.split)

lemma read_config_limits:
  "read_config P env args = Inr cfg \<Longrightarrow>
   \<exists>idle mx. env_u64 env ''APPEND_IDLE_TIMEOUT_MS'' 10000 = Inr idle \<and>
     env_usize env ''APPEND_MAX_COMMANDS'' 512 = Inr mx \<and>
     reliability cfg = \<lparr>append_idle_timeout = unat idle, append_max_commands = mx\<rparr>"
  unfolding read_config_def Let_def by (auto simp: result_simps)

lemma from_env_and_args_Inr:
  "from_env_and_args P env args = Inr cfg \<longleftrightarrow>
     (\<exists>u. validate_strict_unknown P env = Inr u) \<and> read_config P env args = Inr cfg"
  by (auto simp: from_env_and_args_def result_simps)

section \<open>Properties\<close>

text \<open>
  A configuration that start-up accepts is usable: at least one command per stream and one
  request per connection, an idle timeout from one millisecond to one hour, a keep-alive timeout
  of at least a millisecond and below its interval, TLS certificate and key both or neither, and
  a rate limit that is not zero.
\<close>

theorem accepted_config_ok:
  assumes "from_env_and_args P env args = Inr cfg"
  shows "config_ok cfg"
  using assms by (auto simp: from_env_and_args_Inr intro: read_config_ok)

definition sample_platform :: "rstring Platform" where
  "sample_platform = \<lparr>parse_socket_addr = Inr, debug_str = (\<lambda>s. s)\<rparr>"

definition sample_env :: Env where
  "sample_env =
     [(Unicode ''STRICT_CONFIG'', Unicode '' Yes ''), (Unicode ''APPEND_MAX_COMMANDS'', Unicode ''7''),
      (Unicode ''APPEND_IDLE_TIMEOUT_MS'', Unicode ''250''), (Unicode ''HOME'', Unicode ''/root'')]"

lemma sample_env_vars:
  "env_var sample_env ''GRPC_LISTEN_ADDR'' = NotPresent" "env_var sample_env ''METRICS_ADDR'' = NotPresent"
  "env_var sample_env ''QUOTE_LEDGER_DB'' = NotPresent" "env_var sample_env ''GRPC_CONCURRENCY_LIMIT'' = NotPresent"
  "env_var sample_env ''GRPC_KEEPALIVE_INTERVAL_MS'' = NotPresent"
  "env_var sample_env ''GRPC_KEEPALIVE_TIMEOUT_MS'' = NotPresent"
  "env_var sample_env ''QUOTE_LEDGER_REFLECTION'' = NotPresent" "env_var sample_env ''GRPC_TLS_CERT'' = NotPresent"
  "env_var sample_env ''GRPC_TLS_KEY'' = NotPresent" "env_var sample_env ''GRPC_RATE_LIMIT_RPS'' = NotPresent"
  "env_var sample_env ''APPEND_MAX_COMMANDS'' = Present ''7''"
  "env_var sample_env ''APPEND_IDLE_TIMEOUT_MS'' = Present ''250''"
  by code_simp+

lemma sample_env_numbers:
  "env_u64 sample_env ''APPEND_IDLE_TIMEOUT_MS'' d = Inr 250"
  "env_usize sample_env ''APPEND_MAX_COMMANDS'' d = Inr 7"
proof -
  have "''250'' = show_nat 250" "''7'' = show_nat 7" by code_simp+
  then show "env_u64 sample_env ''APPEND_IDLE_TIMEOUT_MS'' d = Inr 250"
    "env_usize sample_env ''APPEND_MAX_COMMANDS'' d = Inr 7"
    using env_number(1) [of sample_env "''APPEND_IDLE_TIMEOUT_MS''" 250]
      env_number(2) [of sample_env "''APPEND_MAX_COMMANDS''" 7] sample_env_vars(11,12)
    by simp_all
qed

lemma sample_strict:
  "env_bool sample_platform sample_env ''STRICT_CONFIG'' False = Inr True"
  "validate_strict_unknown sample_platform sample_env = Inr ()"
  by code_simp+

lemma sample_config: "from_env_and_args sample_platform sample_env [] =
    Inr \<lparr>grpc_listen = ''127.0.0.1:50051'', metrics_listen = ''127.0.0.1:9090'', db_path = ''quote_ledger.db'',
      reliability = \<lparr>append_idle_timeout = 250, append_max_commands = 7\<rparr>, grpc_concurrency_limit = 128,
      grpc_keepalive_interval = 30000, grpc_keepalive_timeout = 10000, reflection_enabled = True,
      grpc_tls_cert = None, grpc_tls_key = None, grpc_rate_limit_rps = None\<rparr>"
  unfolding from_env_and_args_def sample_strict read_config_def listen_address_def env_or_def sample_env_numbers
    env_usize_def [of _ "''GRPC_CONCURRENCY_LIMIT''"] env_u64_def [of _ "''GRPC_KEEPALIVE_INTERVAL_MS''"]
    env_u64_def [of _ "''GRPC_KEEPALIVE_TIMEOUT_MS''"] env_bool_def env_opt_path_def env_opt_nonzero_u32_def
    sample_env_vars
  by (simp add: sample_platform_def tls_pair_def Let_def)

theorem accepted_config_ok_witness:
  "\<exists>cfg. from_env_and_args sample_platform sample_env [] = Inr cfg \<and> config_ok cfg"
  using sample_config accepted_config_ok [OF sample_config] by blast

text \<open>
  With STRICT_CONFIG set, a start-up that is accepted saw only known names among the
  variables that start with QUOTE_LEDGER_, APPEND_ or GRPC_, and only Unicode entries at all.
\<close>

theorem strict_config_known:
  assumes "env_bool P env ''STRICT_CONFIG'' False = Inr True" and "from_env_and_args P env args = Inr cfg"
    and "(k, v) \<in> set env"
  shows "\<exists>k' v'. k = Unicode k' \<and> v = Unicode v' \<and> (strict_prefix_key k' \<longrightarrow> k' \<in> set KNOWN_ENV_KEYS)"
proof -
  have "\<exists>u. strict_scan P env = Inr u"
    using assms(1,2) by (auto simp: from_env_and_args_Inr validate_strict_unknown_def)
  with strict_scan_Inr [OF _ assms(3)] show ?thesis by blast
qed

theorem strict_config_known_witness:
  "strict_prefix_key ''APPEND_MAX_COMMANDS'' \<and> ''APPEND_MAX_COMMANDS'' \<in> set KNOWN_ENV_KEYS"
proof -
  have "(Unicode ''APPEND_MAX_COMMANDS'', Unicode ''7'') \<in> set sample_env" by (simp add: sample_env_def)
  moreover have "strict_prefix_key ''APPEND_MAX_COMMANDS''" by code_simp
  ultimately show ?thesis using strict_config_known [OF sample_strict(1) sample_config] by fastforce
qed

text \<open>
  C40: With STRICT_CONFIG set, an entry of the environment that is not Unicode stops the start-up
  with a panic, whatever its name, instead of a configuration error, when the scan accepts the
  entries before it.
\<close>

theorem strict_config_panics:
  assumes "env_bool P env ''STRICT_CONFIG'' False = Inr True" and "env = before @ (k, v) # behind"
    and "strict_scan P before = Inr ()" and "\<not> (\<exists>k' v'. k = Unicode k' \<and> v = Unicode v')"
  shows "from_env_and_args P env args = Inl Panicked"
  using strict_scan_panics [OF assms(3,4)] assms(1,2)
  by (simp add: from_env_and_args_def validate_strict_unknown_def)

theorem strict_config_panics_witness:
  "from_env_and_args sample_platform
     [(Unicode ''STRICT_CONFIG'', Unicode ''true''), (Unicode ''LC_NAME'', NotUnicodeBytes [CHR 0xFF])] [] = Inl Panicked"
proof (rule strict_config_panics)
  show "env_bool sample_platform
     [(Unicode ''STRICT_CONFIG'', Unicode ''true''), (Unicode ''LC_NAME'', NotUnicodeBytes [CHR 0xFF])]
     ''STRICT_CONFIG'' False = Inr True" by code_simp
  show "[(Unicode ''STRICT_CONFIG'', Unicode ''true''), (Unicode ''LC_NAME'', NotUnicodeBytes [CHR 0xFF])] =
     [(Unicode ''STRICT_CONFIG'', Unicode ''true'')] @ (Unicode ''LC_NAME'', NotUnicodeBytes [CHR 0xFF]) # []" by simp
  show "strict_scan sample_platform [(Unicode ''STRICT_CONFIG'', Unicode ''true'')] = Inr ()" by code_simp
qed simp

text \<open>
  The limits an operator writes in decimal are the limits the service runs with, whatever the
  rest of the environment holds.
\<close>

theorem configured_limits_apply:
  assumes "env_var env ''APPEND_IDLE_TIMEOUT_MS'' = Present (show_nat idle)" and "idle < 2 ^ 64"
    and "env_var env ''APPEND_MAX_COMMANDS'' = Present (show_nat n)" and "n < 2 ^ 64"
    and "from_env_and_args P env args = Inr cfg"
  shows "append_idle_timeout (reliability cfg) = idle \<and> unat (append_max_commands (reliability cfg)) = n"
proof -
  have "unat (of_nat idle :: u64) = idle" "unat (of_nat n :: u64) = n"
    using assms(2,4) by (simp_all add: unat_of_nat take_bit_nat_eq_self)
  moreover have "read_config P env args = Inr cfg" using assms(5) by (simp only: from_env_and_args_Inr)
  then have "reliability cfg = \<lparr>append_idle_timeout = unat (of_nat idle :: u64), append_max_commands = of_nat n\<rparr>"
    using read_config_limits [of P env args cfg] by (simp only: env_number [OF assms(1,2)] env_number [OF assms(3,4)]) blast
  ultimately show ?thesis by simp
qed

theorem configured_limits_apply_witness:
  "\<exists>cfg. from_env_and_args sample_platform sample_env [] = Inr cfg \<and>
     append_idle_timeout (reliability cfg) = 250 \<and> unat (append_max_commands (reliability cfg)) = 7"
proof -
  have shown: "show_nat 250 = ''250''" "show_nat 7 = ''7''" by code_simp+
  have "env_var sample_env ''APPEND_IDLE_TIMEOUT_MS'' = Present (show_nat 250)"
    "env_var sample_env ''APPEND_MAX_COMMANDS'' = Present (show_nat 7)"
    by (simp_all only: shown sample_env_vars)
  from configured_limits_apply [OF this(1) _ this(2) _ sample_config] sample_config show ?thesis by simp
qed

text \<open>
  Without any variable and argument the service listens on the default addresses with the
  ledger's own default limits.
\<close>

theorem default_config:
  "from_env_and_args sample_platform [] [] =
     Inr \<lparr>grpc_listen = ''127.0.0.1:50051'', metrics_listen = ''127.0.0.1:9090'', db_path = ''quote_ledger.db'',
       reliability = ReliabilityLimits_default, grpc_concurrency_limit = 128,
       grpc_keepalive_interval = 30000, grpc_keepalive_timeout = 10000, reflection_enabled = True,
       grpc_tls_cert = None, grpc_tls_key = None, grpc_rate_limit_rps = None\<rparr>"
proof -
  have "env_var [] name = NotPresent" for name by (simp add: env_var_def)
  then show ?thesis
    by (simp add: from_env_and_args_def validate_strict_unknown_def read_config_def listen_address_def env_or_def
        env_usize_def env_u64_def env_bool_def env_opt_path_def env_opt_nonzero_u32_def sample_platform_def
        tls_pair_def Let_def ReliabilityLimits_default_def)
qed

end
