(* ===== verification/Sqlite_Open.thy ===== *)
theory Sqlite_Open
  imports Ledger_History
begin

text \<open>
  \<open>sqlite::open_and_migrate\<close> of \<open>src/sqlite.rs\<close>: opening the database file, the statements of
  \<open>migrations/001_initial.sql\<close> and the pragmas.  The file is a \<open>Disk\<close>: its two tables, each
  absent (\<open>None\<close>) or with its rows.  A batch is not a transaction: a statement that fails leaves
  the effect of those before it.  The index and the pragmas have no effect on the rows.
\<close>

section \<open>Opening\<close>

record Disk =
  disk_events :: "EventRow list option"
  disk_keys :: "KeyRow list option"
  disk_outcomes :: "sqlite_error option list"

definition exec :: "(Disk \<Rightarrow> Disk) \<Rightarrow> (Disk, sqlite_error, unit) comp" where
  "exec f d =
     (let d' = d\<lparr>disk_outcomes := tl (disk_outcomes d)\<rparr> in
      case disk_outcomes d of
        Some e # _ \<Rightarrow> (Inl e, d')
      | _ \<Rightarrow> (Inr (), f d'))"

fun execute_batch :: "(Disk \<Rightarrow> Disk) list \<Rightarrow> (Disk, sqlite_error, unit) comp" where
  "execute_batch [] = st_return ()"
| "execute_batch (f # fs) = st_bind (exec f) (\<lambda>_. execute_batch fs)"

text \<open>\<open>CREATE TABLE IF NOT EXISTS\<close> for the two tables\<close>

definition create_events :: "Disk \<Rightarrow> Disk" where
  "create_events d =
     d\<lparr>disk_events := Some (case disk_events d of None \<Rightarrow> [] | Some rows \<Rightarrow> rows)\<rparr>"

definition create_idempotency_keys :: "Disk \<Rightarrow> Disk" where
  "create_idempotency_keys d =
     d\<lparr>disk_keys := Some (case disk_keys d of None \<Rightarrow> [] | Some rows \<Rightarrow> rows)\<rparr>"

definition create_index :: "Disk \<Rightarrow> Disk" where
  "create_index d = d"

definition INITIAL_MIGRATION :: "(Disk \<Rightarrow> Disk) list" where
  "INITIAL_MIGRATION = [create_events, create_index, create_idempotency_keys]"

definition pragma :: "Disk \<Rightarrow> Disk" where
  "pragma d = d"

definition disk_rows :: "Disk \<Rightarrow> EventRow list \<times> KeyRow list" where
  "disk_rows d =
     (case disk_events d of None \<Rightarrow> [] | Some rows \<Rightarrow> rows, case disk_keys d of None \<Rightarrow> [] | Some rows \<Rightarrow> rows)"

definition open_and_migrate :: "(Disk, sqlite_error, Connection) comp" where
  "open_and_migrate =
     st_bind (exec (\<lambda>d. d)) (\<lambda>_.
     st_bind (execute_batch INITIAL_MIGRATION) (\<lambda>_.
     st_bind (execute_batch [pragma, pragma, pragma, pragma]) (\<lambda>_ d.
       (Inr \<lparr>events = fst (disk_rows d), idempotency_keys = snd (disk_rows d), outcomes = disk_outcomes d\<rparr>, d))))"

section \<open>Lemmas\<close>

text \<open>The file that a process leaves behind, to be opened with the outcomes \<open>os\<close>.\<close>

definition disk_of :: "sqlite_error option list \<Rightarrow> Connection \<Rightarrow> Disk" where
  "disk_of os c = \<lparr>disk_events = Some (events c), disk_keys = Some (idempotency_keys c), disk_outcomes = os\<rparr>"

definition keeps_rows :: "(Disk, 'e, 'a) comp \<Rightarrow> bool" where
  "keeps_rows m \<longleftrightarrow> (\<forall>d. disk_rows (snd (m d)) = disk_rows d)"

named_theorems rows_kept \<open>computations that keep the rows of the file\<close>

lemma keeps_rows_exec [rows_kept]: "(\<And>d. disk_rows (f d) = disk_rows d) \<Longrightarrow> keeps_rows (exec f)"
  by (simp add: keeps_rows_def exec_def Let_def split: list.split option.split) (simp add: disk_rows_def)

lemma keeps_rows_bind [rows_kept]:
  "keeps_rows m \<Longrightarrow> (\<And>a. keeps_rows (f a)) \<Longrightarrow> keeps_rows (st_bind m f)"
  by (auto simp: keeps_rows_def st_bind_def split: prod.split sum.split) (metis snd_conv)+

lemma keeps_rows_return [rows_kept]: "keeps_rows (st_return x)"
  by (simp add: keeps_rows_def st_return_run)

lemma keeps_rows_batch [rows_kept]:
  "(\<And>f d. f \<in> set fs \<Longrightarrow> disk_rows (f d) = disk_rows d) \<Longrightarrow> keeps_rows (execute_batch fs)"
  by (induction fs) (auto intro!: rows_kept)

lemma statement_rows [simp]:
  "disk_rows (create_events d) = disk_rows d" "disk_rows (create_idempotency_keys d) = disk_rows d"
  "disk_rows (create_index d) = disk_rows d" "disk_rows (pragma d) = disk_rows d"
  by (simp_all add: disk_rows_def create_events_def create_idempotency_keys_def create_index_def pragma_def)

lemma open_keeps_rows: "keeps_rows open_and_migrate"
  unfolding open_and_migrate_def
proof (intro keeps_rows_bind)
  show "keeps_rows (\<lambda>d. (Inr \<lparr>events = fst (disk_rows d), idempotency_keys = snd (disk_rows d),
      outcomes = disk_outcomes d\<rparr>, d))"
    by (simp add: keeps_rows_def)
qed (auto intro!: rows_kept simp: INITIAL_MIGRATION_def)

lemma open_rows:
  assumes "open_and_migrate d = (Inr c, d')"
  shows "(events c, idempotency_keys c) = disk_rows d"
proof -
  have "disk_rows d' = disk_rows d"
    using open_keeps_rows assms unfolding keeps_rows_def by (metis snd_conv)
  moreover have "(events c, idempotency_keys c) = disk_rows d'"
    using assms unfolding open_and_migrate_def by (auto elim!: st_bind_cases)
  ultimately show ?thesis by simp
qed

lemma ledger_inv_tables:
  assumes "same_tables c c'"
  shows "ledger_inv E c' = ledger_inv E c" and "history_of E c' = history_of E c" and "key_of c' = key_of c"
  using tables_kept [OF assms] by (simp_all add: ledger_inv_def db_inv_def history_of_def fun_eq_iff)

lemma reopen_same:
  assumes "open_and_migrate (disk_of os c) = (Inr c', d)"
  shows "same_tables c c'"
  using open_rows [OF assms] by (simp add: same_tables_def disk_rows_def disk_of_def)

section \<open>Properties\<close>

text \<open>
  Opening never loses a row, whichever statement fails: afterwards the file holds the rows it
  held before, and a connection that was opened sees exactly these.
\<close>

theorem opening_keeps_rows:
  assumes "open_and_migrate d = (r, d')"
  shows "disk_rows d' = disk_rows d \<and>
    (case r of Inl _ \<Rightarrow> True | Inr c \<Rightarrow> (events c, idempotency_keys c) = disk_rows d)"
proof -
  have "disk_rows d' = disk_rows d"
    using open_keeps_rows assms unfolding keeps_rows_def by (metis snd_conv)
  with open_rows assms show ?thesis by (auto split: sum.split)
qed

theorem opening_keeps_rows_witness:
  "\<exists>e d'. open_and_migrate (disk_of [None, None, Some ''disk full''] sample_connection) = (Inl e, d') \<and>
    disk_rows d' = (events sample_connection, idempotency_keys sample_connection)"
proof -
  let ?d = "disk_of [None, None, Some ''disk full''] sample_connection"
  obtain r d' where run: "open_and_migrate ?d = (r, d')" by fastforce
  have "r = Inl ''disk full''"
    using run by (simp add: open_and_migrate_def INITIAL_MIGRATION_def exec_def st_bind_def disk_of_def Let_def
        create_events_def)
  with opening_keeps_rows [OF run] run show ?thesis by (simp add: disk_rows_def disk_of_def)
qed

text \<open>
  A retry is safe across a restart: when the process ends after an append and the file is
  opened again, the same command under the same key is answered with the events of the first
  attempt, and the histories are those of before the restart.
\<close>

theorem retry_after_restart:
  assumes "ledger_inv E c0" and "append_one_db E q k cmd c0 = (Inr st, c1)"
    and "open_and_migrate (disk_of os c1) = (Inr c2, d)" and "healthy c2"
    and "append_one_db E q k cmd c2 = (r, c3)"
  shows "r = Inr st \<and> history_of E c3 = history_of E c1 \<and> key_of c3 = key_of c1"
proof -
  have tables: "same_tables c1 c2" by (rule reopen_same [OF assms(3)])
  note same = ledger_inv_tables(1,2) [OF tables, of E] ledger_inv_tables(3) [OF tables]
  obtain n new where com: "committed_as E q k cmd n new c1" "st = stored_events q n new"
    using committed_after_append [OF assms(1,2)] by blast
  have "ledger_inv E c1" using append_one_db_run [OF assms(1,2)] by blast
  then have inv: "ledger_inv E c2" by (simp add: same)
  have "committed_as E q k cmd n new c2" using com(1) by (simp add: committed_as_def same)
  from committed_replays [OF inv this assms(4,5)] com(2) show ?thesis by (simp add: same_history_def same)
qed

lemma open_reliable: "open_and_migrate (disk_of [] c) = (Inr (c\<lparr>outcomes := []\<rparr>), disk_of [] c)"
  by (simp add: open_and_migrate_def INITIAL_MIGRATION_def exec_def st_bind_def st_return_run disk_of_def Let_def
      create_events_def create_idempotency_keys_def create_index_def pragma_def disk_rows_def)

theorem retry_after_restart_witness:
  "\<exists>c1 c2 d. append_one_db sample_external ''q'' ''k'' (CreateQuote ''USD'' ''US'') (fresh_db []) =
      (Inr (stored_events ''q'' 1 [QuoteCreated ''USD'' ''US'']), c1) \<and>
    open_and_migrate (disk_of [] c1) = (Inr c2, d) \<and>
    fst (append_one_db sample_external ''q'' ''k'' (CreateQuote ''USD'' ''US'') c2) =
      Inr (stored_events ''q'' 1 [QuoteCreated ''USD'' ''US''])"
proof -
  let ?cmd = "CreateQuote ''USD'' ''US''"
  have "fst (append_one_db sample_external ''q'' ''k'' ?cmd (fresh_db [])) =
      Inr (stored_events ''q'' 1 [QuoteCreated ''USD'' ''US''])" by code_simp
  then obtain c1 where first: "append_one_db sample_external ''q'' ''k'' ?cmd (fresh_db []) =
      (Inr (stored_events ''q'' 1 [QuoteCreated ''USD'' ''US'']), c1)" by (metis prod.collapse)
  obtain r c3 where again: "append_one_db sample_external ''q'' ''k'' ?cmd (c1\<lparr>outcomes := []\<rparr>) = (r, c3)" by fastforce
  have "healthy (c1\<lparr>outcomes := []\<rparr>)" by (simp add: healthy_def)
  from retry_after_restart [OF ledger_inv_fresh [OF sample_codec_ok] first open_reliable this again]
  show ?thesis using first again open_reliable by fastforce
qed

end
