(* ===== verification/Startup.thy ===== *)
theory Startup
  imports Config Sqlite_Open Concurrent_System
begin

text \<open>
  \<open>LedgerService\<close> of \<open>src/ledger.rs\<close> and the start of the process, \<open>main\<close> of \<open>src/main.rs\<close>, up
  to the call of \<open>serve_with_shutdown\<close>; and how a request passes the interceptor to a handler.
  \<^item> What \<open>main\<close> changes outside is the \<open>Machine\<close>: the database files and the bound ports.
  \<^item> \<open>Boot\<close> holds the outcomes of the calls of the Prometheus exporter, tokio, tonic and the file
    system; nothing is assumed of them.
  \<^item> \<open>with_interceptor\<close> of tonic is a parameter; \<open>intercepts\<close> is what its documentation says.
\<close>

section \<open>The service\<close>

record 'w LedgerService =
  inner :: "'w Ledger"
  service_reliability :: ReliabilityLimits

definition with_reliability :: "Connection \<Rightarrow> ReliabilityLimits \<Rightarrow> 'w LedgerService" where
  "with_reliability c lim = \<lparr>inner = new_ledger c, service_reliability = lim\<rparr>"

definition LedgerService_new :: "Connection \<Rightarrow> 'w LedgerService" where
  "LedgerService_new c = with_reliability c ReliabilityLimits_default"

definition in_flight_counter :: "'w LedgerService \<Rightarrow> u64" where
  "in_flight_counter s = in_flight_appends (inner s)"

section \<open>The start of the process\<close>

record 'addr Machine =
  files :: "rstring \<Rightarrow> Disk"
  bound :: "'addr list"

record ('addr, 'tls) Boot =
  install_recorder :: "rstring + unit"
  bind_listener :: "'addr \<Rightarrow> rstring + unit"
  read_file :: "rstring \<Rightarrow> rstring + bytes"
  tls_config :: "bytes \<Rightarrow> bytes \<Rightarrow> rstring + 'tls"
  build_reflection :: "rstring + unit"

record ('w, 'g, 'addr, 'tls) Server =
  service :: "'w LedgerService"
  interceptor :: "'g LedgerGrpcInterceptor"
  concurrency_limit_per_connection :: u64
  http2_keepalive_interval :: "nat option"
  http2_keepalive_timeout :: "nat option"
  tls_identity :: "'tls option"
  reflection_service :: bool
  serve_address :: 'addr

text \<open>The boxed error that \<open>main\<close> returns, by where it comes from\<close>

datatype MainError =
    InvalidInput rstring | Message rstring | IoError rstring | DbError rstring
  | TlsError rstring | ReflectionError rstring | TransportFailed rstring | MainPanicked

fun config_error :: "StartupError \<Rightarrow> MainError" where
  "config_error (ConfigError e) = InvalidInput e"
| "config_error Panicked = MainPanicked"

definition bind_metrics :: "('addr, 'tls) Boot \<Rightarrow> 'addr \<Rightarrow> ('addr Machine, MainError, unit) comp" where
  "bind_metrics B a m =
     (case bind_listener B a of
        Inl e \<Rightarrow> (Inl (IoError e), m)
      | Inr _ \<Rightarrow> (Inr (), m\<lparr>bound := bound m @ [a]\<rparr>))"

definition open_database :: "rstring \<Rightarrow> ('addr Machine, MainError, Connection) comp" where
  "open_database path m =
     (case open_and_migrate (files m path) of
        (r, d) \<Rightarrow> (map_err DbError r, m\<lparr>files := (files m)(path := d)\<rparr>))"

definition read_identity ::
  "('addr, 'tls) Boot \<Rightarrow> rstring option \<Rightarrow> rstring option \<Rightarrow> MainError + 'tls option" where
  "read_identity B cert_path key_path =
     (case (cert_path, key_path) of
        (Some c, Some k) \<Rightarrow>
          and_then (map_err IoError (read_file B c)) (\<lambda>cert.
          and_then (map_err IoError (read_file B k)) (\<lambda>key.
          and_then (map_err TlsError (tls_config B cert key)) (\<lambda>tls. Inr (Some tls))))
      | _ \<Rightarrow> Inr None)"

definition start_up ::
  "'addr Platform \<Rightarrow> ('addr, 'tls) Boot \<Rightarrow> (nat \<Rightarrow> 'g) \<Rightarrow> Env \<Rightarrow> rstring list \<Rightarrow>
   ('addr Machine, MainError, ('w, 'g, 'addr, 'tls) Server) comp" where
  "start_up P B direct env args =
     st_bind (st_lift (map_err config_error (from_env_and_args P env args))) (\<lambda>cfg.
     st_bind (st_lift (map_err (\<lambda>e. Message (''prometheus recorder: '' @ e)) (install_recorder B))) (\<lambda>_.
     st_bind (bind_metrics B (metrics_listen cfg)) (\<lambda>_.
     st_bind (open_database (db_path cfg)) (\<lambda>conn.
     st_bind (st_lift (map_err (\<lambda>e. Message (''QUOTE_LEDGER_AUTH_TOKEN: '' @ e))
       (auth_from_env_var env ''QUOTE_LEDGER_AUTH_TOKEN''))) (\<lambda>auth.
     let ledger_service = with_reliability conn (reliability cfg);
         ix = interceptor_new direct auth (grpc_rate_limit_rps cfg)
     in st_bind (st_lift (read_identity B (grpc_tls_cert cfg) (grpc_tls_key cfg))) (\<lambda>tls.
        st_bind (st_lift (if reflection_enabled cfg then map_err ReflectionError (build_reflection B) else Inr ())) (\<lambda>_.
          st_return
            \<lparr>service = ledger_service, interceptor = ix,
             concurrency_limit_per_connection = grpc_concurrency_limit cfg,
             http2_keepalive_interval = Some (grpc_keepalive_interval cfg),
             http2_keepalive_timeout = Some (grpc_keepalive_timeout cfg),
             tls_identity = tls, reflection_service = reflection_enabled cfg,
             serve_address = grpc_listen cfg\<rparr>)))))))"

section \<open>Requests\<close>

text \<open>
  A call through \<open>with_interceptor\<close>: the interceptor sees the request first, and the handler
  runs only on what it lets through.
\<close>

type_synonym ('w, 'g, 'a) intercepted =
  "(Request \<Rightarrow> ('g LedgerGrpcInterceptor, Status, Request) comp) \<Rightarrow> (Request \<Rightarrow> ('w, 'a) svc) \<Rightarrow> Request \<Rightarrow>
   ('w Ledger \<times> 'g LedgerGrpcInterceptor, Status, 'a) comp"

definition intercepts :: "('w, 'g, 'a) intercepted \<Rightarrow> bool" where
  "intercepts with_interceptor \<longleftrightarrow>
     (\<forall>ix handler request l g.
        with_interceptor ix handler request (l, g) =
          (case ix request g of
             (Inl st, g') \<Rightarrow> (Inl st, (l, g'))
           | (Inr request', g') \<Rightarrow> (case handler request' l of (r, l') \<Rightarrow> (r, (l', g')))))"

definition serve_append_commands ::
  "('w, 'g, AppendCommandsResponse) intercepted \<Rightarrow> (rstring \<Rightarrow> rstring \<Rightarrow> bool) \<Rightarrow> ('g \<Rightarrow> bool \<times> 'g) \<Rightarrow>
   External \<Rightarrow> ('w, 'r) WatchOps \<Rightarrow> ReliabilityLimits \<Rightarrow> StreamItem list \<Rightarrow> Request \<Rightarrow>
   ('w Ledger \<times> 'g LedgerGrpcInterceptor, Status, AppendCommandsResponse) comp" where
  "serve_append_commands with_interceptor constant_time_eq check E W lim items =
     with_interceptor (interceptor_call constant_time_eq check) (\<lambda>_. append_commands E W lim items)"

definition serve_subscribe_quote ::
  "('w, 'g, 'r Pump) intercepted \<Rightarrow> (rstring \<Rightarrow> rstring \<Rightarrow> bool) \<Rightarrow> ('g \<Rightarrow> bool \<times> 'g) \<Rightarrow>
   External \<Rightarrow> ('w, 'r) WatchOps \<Rightarrow> SubscribeQuoteRequest \<Rightarrow> bool list \<Rightarrow> Request \<Rightarrow>
   ('w Ledger \<times> 'g LedgerGrpcInterceptor, Status, 'r Pump) comp" where
  "serve_subscribe_quote with_interceptor constant_time_eq check E W req bs =
     with_interceptor (interceptor_call constant_time_eq check) (\<lambda>_. subscribe_quote E W req bs)"

section \<open>Lemmas\<close>

lemma start_up_Inr:
  assumes "start_up P B direct env args m = (Inr srv, m')"
  obtains cfg auth tls c where
    "from_env_and_args P env args = Inr cfg"
    and "open_database (db_path cfg) (m\<lparr>bound := bound m @ [metrics_listen cfg]\<rparr>) = (Inr c, m')"
    and "auth_from_env_var env ''QUOTE_LEDGER_AUTH_TOKEN'' = Inr auth"
    and "read_identity B (grpc_tls_cert cfg) (grpc_tls_key cfg) = Inr tls"
    and "srv =
      \<lparr>service = with_reliability c (reliability cfg),
       interceptor = interceptor_new direct auth (grpc_rate_limit_rps cfg),
       concurrency_limit_per_connection = grpc_concurrency_limit cfg,
       http2_keepalive_interval = Some (grpc_keepalive_interval cfg),
       http2_keepalive_timeout = Some (grpc_keepalive_timeout cfg),
       tls_identity = tls, reflection_service = reflection_enabled cfg,
       serve_address = grpc_listen cfg\<rparr>"
  using assms unfolding start_up_def bind_metrics_def
  by (auto elim!: st_bind_cases simp: st_lift_run st_return_run Let_def result_simps split: sum.splits)

lemma open_database_rows:
  assumes "open_database path m = (r, m')"
  shows "disk_rows (files m' p) = disk_rows (files m p) \<and> bound m' = bound m \<and>
    (case r of Inl _ \<Rightarrow> True | Inr c \<Rightarrow> (events c, idempotency_keys c) = disk_rows (files m path))"
proof -
  obtain r0 d where run: "open_and_migrate (files m path) = (r0, d)" by fastforce
  have "disk_rows d = disk_rows (files m path)"
    using open_keeps_rows run unfolding keeps_rows_def by (metis snd_conv)
  moreover have "r = map_err DbError r0" "m' = m\<lparr>files := (files m)(path := d)\<rparr>"
    using assms run by (simp_all add: open_database_def)
  ultimately show ?thesis using open_rows run by (cases r0) auto
qed

text \<open>A step of \<open>main\<close> that touches no row of a database file\<close>

definition keeps_files :: "('addr Machine, 'e, 'a) comp \<Rightarrow> bool" where
  "keeps_files f \<longleftrightarrow> (\<forall>m p. disk_rows (files (snd (f m)) p) = disk_rows (files m p))"

lemma keeps_files_bind [rows_kept]:
  "keeps_files f \<Longrightarrow> (\<And>a. keeps_files (g a)) \<Longrightarrow> keeps_files (st_bind f g)"
  by (auto simp: keeps_files_def st_bind_def split: prod.split sum.split) (metis snd_conv)+

lemma keeps_files_simps [rows_kept]:
  "keeps_files (st_lift x)" "keeps_files (st_return y)" "keeps_files (bind_metrics B a)"
  by (auto simp: keeps_files_def st_lift_run st_return_run bind_metrics_def split: sum.split)

lemma keeps_files_open [rows_kept]: "keeps_files (open_database path)"
  by (simp add: keeps_files_def open_database_rows [OF prod.collapse [symmetric], THEN conjunct1])

lemma start_up_keeps_files: "keeps_files (start_up P B direct env args)"
  unfolding start_up_def Let_def by (intro rows_kept)

lemma read_identity_Inr:
  "read_identity B c k = Inr tls \<Longrightarrow> tls = None \<longleftrightarrow> c = None \<or> k = None"
  by (cases c; cases k) (auto simp: read_identity_def result_simps)

lemma auth_from_env_var_Inr:
  "auth_from_env_var env var = Inr a \<Longrightarrow>
   (env_var env var = NotPresent \<and> expected_token a = None) \<or>
   (\<exists>t. env_var env var = Present t \<and> trim t \<noteq> [] \<and> expected_token a = Some (trim t))"
  by (auto simp: auth_from_env_var_def Let_def split: VarResult.splits if_splits)

section \<open>Properties\<close>

text \<open>
  C28: A start keeps every row of every database file, whether it succeeds or not.  When it succeeds, the
  configuration was accepted and is in bounds; the service runs on the rows of the configured
  file, idle and with the configured limits; it serves TLS exactly when both paths are
  configured; and it asks for a token exactly when the token variable is set, for its trimmed
  value, which is not empty.
\<close>

theorem start_up_serves_config:
  assumes "start_up P B direct env args m = (r, m')"
  shows "(\<forall>path. disk_rows (files m' path) = disk_rows (files m path)) \<and>
    (case r of Inl _ \<Rightarrow> True
     | Inr srv \<Rightarrow> \<exists>cfg c. from_env_and_args P env args = Inr cfg \<and> config_ok cfg \<and>
         service srv = with_reliability c (reliability cfg) \<and>
         (events c, idempotency_keys c) = disk_rows (files m (db_path cfg)) \<and>
         in_flight_counter (service srv) = 0 \<and>
         (tls_identity srv = None \<longleftrightarrow> grpc_tls_cert cfg = None \<and> grpc_tls_key cfg = None) \<and>
         (case expected_token (ix_auth (interceptor srv)) of
            None \<Rightarrow> env_var env ''QUOTE_LEDGER_AUTH_TOKEN'' = NotPresent
          | Some t \<Rightarrow> t \<noteq> [] \<and> (\<exists>v. env_var env ''QUOTE_LEDGER_AUTH_TOKEN'' = Present v \<and> t = trim v)))"
proof (cases r)
  case (Inl e)
  have "disk_rows (files (snd (r, m')) path) = disk_rows (files m path)" for path
    unfolding assms [symmetric] by (rule start_up_keeps_files [unfolded keeps_files_def, rule_format])
  with Inl show ?thesis by simp
next
  case (Inr srv)
  from assms [unfolded Inr] obtain cfg auth tls c where
    cfg: "from_env_and_args P env args = Inr cfg"
    and db: "open_database (db_path cfg) (m\<lparr>bound := bound m @ [metrics_listen cfg]\<rparr>) = (Inr c, m')"
    and auth: "auth_from_env_var env ''QUOTE_LEDGER_AUTH_TOKEN'' = Inr auth"
    and tls: "read_identity B (grpc_tls_cert cfg) (grpc_tls_key cfg) = Inr tls"
    and srv: "service srv = with_reliability c (reliability cfg)" "tls_identity srv = tls"
      "ix_auth (interceptor srv) = auth"
    by (rule start_up_Inr) (simp add: interceptor_new_def)
  have ok: "config_ok cfg" using cfg by (auto simp: from_env_and_args_Inr intro: read_config_ok)
  have "tls = None \<longleftrightarrow> grpc_tls_cert cfg = None \<and> grpc_tls_key cfg = None"
    using read_identity_Inr [OF tls] ok by (auto simp: config_ok_def)
  moreover have "in_flight_counter (service srv) = 0"
    by (simp add: srv in_flight_counter_def with_reliability_def new_ledger_def)
  moreover have "case expected_token auth of
      None \<Rightarrow> env_var env ''QUOTE_LEDGER_AUTH_TOKEN'' = NotPresent
    | Some t \<Rightarrow> t \<noteq> [] \<and> (\<exists>v. env_var env ''QUOTE_LEDGER_AUTH_TOKEN'' = Present v \<and> t = trim v)"
    using auth_from_env_var_Inr [OF auth] by (elim disjE exE conjE) simp_all
  moreover have "disk_rows (files m' path) = disk_rows (files m path)" for path
    using open_database_rows [OF db, of path] by simp
  moreover have "(events c, idempotency_keys c) = disk_rows (files m (db_path cfg))"
    using open_database_rows [OF db] by simp
  ultimately show ?thesis
    unfolding Inr sum.case srv using cfg ok by (intro conjI allI exI [of _ cfg] exI [of _ c]) simp_all
qed

definition sample_boot :: "(rstring, bytes) Boot" where
  "sample_boot =
     \<lparr>install_recorder = Inr (), bind_listener = (\<lambda>_. Inr ()), read_file = (\<lambda>_. Inl ''not found''),
      tls_config = (\<lambda>c k. Inr (c @ k)), build_reflection = Inr ()\<rparr>"

text \<open>A start with the sample configuration, on a database file that opens\<close>

lemma sample_start:
  assumes "open_and_migrate (files m ''quote_ledger.db'') = (Inr c, d)"
  shows "start_up sample_platform sample_boot direct sample_env [] m =
    (Inr \<lparr>service = with_reliability c \<lparr>append_idle_timeout = 250, append_max_commands = 7\<rparr>,
        interceptor = interceptor_new direct \<lparr>expected_token = None\<rparr> None,
        concurrency_limit_per_connection = 128, http2_keepalive_interval = Some 30000,
        http2_keepalive_timeout = Some 10000, tls_identity = None, reflection_service = True,
        serve_address = ''127.0.0.1:50051''\<rparr>,
     m\<lparr>bound := bound m @ [''127.0.0.1:9090''], files := (files m)(''quote_ledger.db'' := d)\<rparr>)"
proof -
  have "env_var sample_env ''QUOTE_LEDGER_AUTH_TOKEN'' = NotPresent" by code_simp
  then show ?thesis
    using assms by (simp add: start_up_def sample_config sample_boot_def bind_metrics_def open_database_def
        auth_from_env_var_def read_identity_def st_bind_def st_lift_run st_return_run Let_def)
qed

theorem start_up_serves_config_witness:
  "\<exists>(srv :: (u64 \<times> nat, nat, rstring, bytes) Server) m'. start_up sample_platform sample_boot id sample_env []
      \<lparr>files = (\<lambda>_. disk_of [] sample_connection), bound = []\<rparr> = (Inr srv, m') \<and>
    disk_rows (files m' ''quote_ledger.db'') = (events sample_connection, idempotency_keys sample_connection) \<and>
    in_flight_counter (service srv) = 0"
proof -
  let ?m = "\<lparr>files = (\<lambda>_. disk_of [] sample_connection), bound = []\<rparr> :: rstring Machine"
  obtain srv :: "(u64 \<times> nat, nat, rstring, bytes) Server" and m' where run: "start_up sample_platform sample_boot id sample_env [] ?m = (Inr srv, m')"
    using sample_start [of ?m] open_reliable [of sample_connection] by auto
  note start_up_serves_config [OF run]
  then have "disk_rows (files m' ''quote_ledger.db'') = disk_rows (disk_of [] sample_connection)"
    "in_flight_counter (service srv) = 0"
    by (simp, elim conjE) (simp_all split: sum.splits, blast)
  with run show ?thesis by (intro exI [of _ srv] exI [of _ m'] conjI) (simp_all add: disk_rows_def disk_of_def)
qed

text \<open>
  C27: No request reaches the ledger past the interceptor: without a valid token a call to
  \<open>append_commands\<close> is answered UNAUTHENTICATED and changes nothing at all; over the rate limit it
  is answered RESOURCE_EXHAUSTED and the ledger is unchanged; otherwise it is the handler's call.
\<close>

theorem refused_requests_change_nothing:
  assumes "intercepts wi" and "compares_equal cte"
    and "serve_append_commands wi cte check E W lim items request (l, g) = (r, (l', g'))"
  shows "if \<not> authorized (ix_auth g) request
    then l' = l \<and> g' = g \<and> (\<exists>st. r = Inl st \<and> code st = Unauthenticated)
    else if \<exists>lim. ix_limiter g = Some lim \<and> \<not> fst (check lim)
    then l' = l \<and> (\<exists>st. r = Inl st \<and> code st = ResourceExhausted)
    else (r, l') = append_commands E W lim items l"
proof -
  obtain r0 g0 where run: "interceptor_call cte check request g = (r0, g0)" by fastforce
  from assms(2) run assms(1,3) show ?thesis
    by (cases rule: interceptor_call_cases)
      (auto simp: serve_append_commands_def intercepts_def run split: prod.splits)
qed

theorem refused_requests_change_nothing_witness:
  "\<exists>wi st. serve_append_commands wi (=) (\<lambda>n :: nat. (0 < n, n - 1)) sample_external sample_watch
      ReliabilityLimits_default [] \<lparr>authorization = None\<rparr>
      (new_ledger (fresh_db []), interceptor_new id (auth_required ''t0k'') (Some 5)) =
    (Inl st, (new_ledger (fresh_db []), interceptor_new id (auth_required ''t0k'') (Some 5))) \<and>
    code st = Unauthenticated"
proof -
  define wi :: "(u64 \<times> nat, nat, AppendCommandsResponse) intercepted" where
    "wi = (\<lambda>ix handler request (l, g).
       case ix request g of
         (Inl st, g') \<Rightarrow> (Inl st, (l, g'))
       | (Inr request', g') \<Rightarrow> (case handler request' l of (r, l') \<Rightarrow> (r, (l', g'))))"
  let ?g = "interceptor_new id (auth_required ''t0k'') (Some (5 :: nat))"
  obtain r s where "serve_append_commands wi (=) (\<lambda>n :: nat. (0 < n, n - 1)) sample_external sample_watch
      ReliabilityLimits_default [] \<lparr>authorization = None\<rparr> (new_ledger (fresh_db []), ?g) = (r, s)"
    by (rule prod.exhaust)
  then obtain l' g' where run: "serve_append_commands wi (=) (\<lambda>n :: nat. (0 < n, n - 1)) sample_external sample_watch
      ReliabilityLimits_default [] \<lparr>authorization = None\<rparr> (new_ledger (fresh_db []), ?g) = (r, (l', g'))"
    by (cases s) simp
  have "intercepts wi" by (simp add: wi_def intercepts_def)
  moreover have "compares_equal (=)" by (simp add: compares_equal_def)
  moreover have "\<not> authorized (ix_auth ?g) \<lparr>authorization = None\<rparr>"
    by (simp add: interceptor_new_def auth_required_def authorized_def)
  ultimately show ?thesis using refused_requests_change_nothing [OF _ _ run] run by auto
qed

text \<open>
  C26: A restart loses nothing: when the process stops in any state that the interleavings of
  appends, cancelled requests, subscriptions and tasks reach, a later start on its file serves
  exactly the histories of that state, which extend those the process began with, and they keep
  the ledger's invariant, so that everything proved of reachable states holds again.
\<close>

theorem restart_keeps_histories:
  assumes "ledger_inv E c0" and "watch_ok W" and "creachable E W c0 S"
    and "from_env_and_args P env args = Inr cfg" and "files m (db_path cfg) = disk_of os (conn (shared S))"
    and "start_up P B direct env args m = (Inr srv, m')" and "c = conn (inner (service srv))"
  shows "ledger_inv E c \<and>
    (\<forall>q. history_of E c q = history_of E (conn (shared S)) q \<and> prefix (history_of E c0 q) (history_of E c q))"
proof -
  have old: "ledger_inv E (conn (shared S))" "hist_le E c0 (conn (shared S))"
    using creachable_inv [OF assms(1-3)] by (simp_all add: conc_inv_def conc_ok_def)
  obtain d where "open_and_migrate (disk_of os (conn (shared S))) = (Inr c, d)"
    using assms(4-7) by (auto elim!: start_up_Inr simp: open_database_def with_reliability_def new_ledger_def
        result_simps split: prod.splits)
  from ledger_inv_tables(1,2) [OF reopen_same [OF this], of E] old show ?thesis by (simp add: hist_le_def)
qed

text \<open>The append of a client that went away before its publication is there after a restart.\<close>

definition cancel_schedule :: "CAction list" where
  "cancel_schedule =
     [Enter \<lparr>job_quote = ''q'', job_key = ''k1'', job_command = CreateQuote ''USD'' ''US''\<rparr>, RunJob, Conclude,
      ReadQuote ''q'' 0, RegisterReader, Look 0,
      Enter \<lparr>job_quote = ''q'', job_key = ''k2'', job_command = AddLineItem ''L1'' ''S'' ''D'' 1 1\<rparr>,
      RunJob, CancelFinishing]"

theorem restart_keeps_histories_witness:
  "\<exists>S (srv :: (u64 \<times> nat, nat, rstring, bytes) Server) m'.
     crun sample_external sample_watch cancel_schedule (start_concurrent (fresh_db [])) = Some S \<and>
     start_up sample_platform sample_boot id sample_env []
       \<lparr>files = (\<lambda>_. disk_of [] (conn (shared S))), bound = []\<rparr> = (Inr srv, m') \<and>
     history_of sample_external (conn (inner (service srv))) ''q'' =
       [QuoteCreated ''USD'' ''US'', LineItemAdded ''L1'' ''S'' ''D'' 1 1]"
proof -
  have "map_option (\<lambda>S. history_of sample_external (conn (shared S)) ''q'')
      (crun sample_external sample_watch cancel_schedule (start_concurrent (fresh_db []))) =
      Some [QuoteCreated ''USD'' ''US'', LineItemAdded ''L1'' ''S'' ''D'' 1 1]" by code_simp
  then obtain S where S: "crun sample_external sample_watch cancel_schedule (start_concurrent (fresh_db [])) = Some S"
    "history_of sample_external (conn (shared S)) ''q'' = [QuoteCreated ''USD'' ''US'', LineItemAdded ''L1'' ''S'' ''D'' 1 1]"
    by auto
  let ?m = "\<lparr>files = (\<lambda>_. disk_of [] (conn (shared S))), bound = []\<rparr> :: rstring Machine"
  obtain srv :: "(u64 \<times> nat, nat, rstring, bytes) Server" and m' where run: "start_up sample_platform sample_boot id sample_env [] ?m = (Inr srv, m')"
    using sample_start [of ?m] open_reliable [of "conn (shared S)"] by auto
  from restart_keeps_histories [OF ledger_inv_fresh [OF sample_codec_ok] sample_watch_ok crun_reachable [OF S(1)]
      sample_config _ run refl] S run
  show ?thesis by auto
qed

end
