(* ===== verification/Shutdown.thy ===== *)
theory Shutdown
  imports Ledger_Service
begin

text \<open>
  The drain of \<open>shutdown_signal\<close> in \<open>src/main.rs\<close>: after the signal it polls the in-flight
  counter every 200 milliseconds until it is zero or 30 seconds have passed.  Time is in
  milliseconds since the start of the process; \<open>in_flight t\<close> is what a load at time \<open>t\<close> reads,
  and a sleep that began at \<open>t\<close> lasts \<open>TICK + extra t\<close> (\<open>tokio::time::sleep\<close> never returns
  early).  The loop polls and compares the clock at one moment.
\<close>

section \<open>The drain loop\<close>

definition DRAIN_TIMEOUT :: nat where
  "DRAIN_TIMEOUT = 30000"

definition TICK :: nat where
  "TICK = 200"

text \<open>How the loop ended, and when.\<close>

datatype DrainEnd = Drained nat | DeadlineReached u64 nat

function drain_loop :: "(nat \<Rightarrow> u64) \<Rightarrow> (nat \<Rightarrow> nat) \<Rightarrow> nat \<Rightarrow> nat \<Rightarrow> DrainEnd" where
  "drain_loop in_flight extra deadline now =
     (let n = in_flight now in
      if n = 0 then Drained now
      else if deadline \<le> now then DeadlineReached n now
      else drain_loop in_flight extra deadline (now + TICK + extra now))"
  by pat_completeness auto
termination
  by (relation "measure (\<lambda>(in_flight, extra, deadline, now). deadline - now)") (auto simp: TICK_def)

declare drain_loop.simps [simp del]

text \<open>\<open>ctrl_c\<close> is whether the signal handler could wait for the signal.\<close>

definition shutdown_signal :: "bool \<Rightarrow> (nat \<Rightarrow> u64) \<Rightarrow> (nat \<Rightarrow> nat) \<Rightarrow> nat \<Rightarrow> DrainEnd option" where
  "shutdown_signal ctrl_c in_flight extra now =
     (if \<not> ctrl_c then None
      else Some (drain_loop in_flight extra (now + DRAIN_TIMEOUT) now))"

section \<open>Lemmas\<close>

fun end_time :: "DrainEnd \<Rightarrow> nat" where
  "end_time (Drained t) = t"
| "end_time (DeadlineReached n t) = t"

lemma drain_loop_sound:
  "(case drain_loop in_flight extra deadline now of
      Drained t \<Rightarrow> in_flight t = 0 \<and> now \<le> t
    | DeadlineReached n t \<Rightarrow> n = in_flight t \<and> n \<noteq> 0 \<and> deadline \<le> t \<and> now \<le> t)"
proof (induction in_flight extra deadline now rule: drain_loop.induct)
  case (1 in_flight extra deadline now)
  show ?case
  proof (cases "in_flight now \<noteq> 0 \<and> now < deadline")
    case True
    with 1 show ?thesis
      by (subst drain_loop.simps) (auto simp: Let_def split: DrainEnd.splits)
  next
    case False
    then show ?thesis by (subst drain_loop.simps) (auto simp: Let_def split: DrainEnd.splits)
  qed
qed

lemma drain_loop_bounded:
  assumes "\<And>t. extra t \<le> d" and "now \<le> deadline + TICK + d"
  shows "end_time (drain_loop in_flight extra deadline now) \<le> deadline + TICK + d"
  using assms(2)
proof (induction "deadline - now" arbitrary: now rule: less_induct)
  case less
  show ?case
  proof (cases "in_flight now \<noteq> 0 \<and> now < deadline")
    case True
    then have "deadline - (now + TICK + extra now) < deadline - now" unfolding TICK_def by arith
    moreover have "now + TICK + extra now \<le> deadline + TICK + d"
      using True assms(1) [of now] by simp
    ultimately show ?thesis
      using less.hyps True by (subst drain_loop.simps) (simp add: Let_def)
  next
    case False
    then show ?thesis using less.prems by (subst drain_loop.simps) (auto simp: Let_def)
  qed
qed

text \<open>With sleeps of exactly one tick, the loop ends at the first tick that reads zero.\<close>

lemma drain_loop_first:
  assumes "in_flight (now + k * TICK) = 0" and "\<And>j. j < k \<Longrightarrow> in_flight (now + j * TICK) \<noteq> 0"
    and "k * TICK < deadline - now + TICK"
  shows "drain_loop in_flight (\<lambda>_. 0) deadline now = Drained (now + k * TICK)"
  using assms
proof (induction k arbitrary: now)
  case 0
  then show ?case by (subst drain_loop.simps) simp
next
  case (Suc k)
  have n: "in_flight now \<noteq> 0" using Suc.prems(2) [of 0] by simp
  have now: "now < deadline" using Suc.prems(3) by (cases "now < deadline") auto
  have "drain_loop in_flight (\<lambda>_. 0) deadline (now + TICK) = Drained (now + TICK + k * TICK)"
  proof (rule Suc.IH)
    show "in_flight (now + TICK + k * TICK) = 0" using Suc.prems(1) by (simp add: add.assoc)
    show "in_flight (now + TICK + j * TICK) \<noteq> 0" if "j < k" for j
      using Suc.prems(2) [of "Suc j"] that by (simp add: add.assoc)
    show "k * TICK < deadline - (now + TICK) + TICK" using Suc.prems(3) now by (simp add: TICK_def)
  qed
  with n now show ?case by (subst drain_loop.simps) (simp add: Let_def add.assoc)
qed

section \<open>Properties\<close>

text \<open>
  C38: Whatever the appends do, the drain ends: it reports that it is drained only at a moment when
  no append is in flight, it gives up only when 30 seconds have passed and an append is in
  flight, and it takes at most 30.2 seconds plus the longest delay of a sleep.
\<close>

theorem drain_ends:
  assumes "\<forall>t. extra t \<le> d"
  shows "\<exists>e. shutdown_signal True in_flight extra now = Some e \<and>
    end_time e \<le> now + 30200 + d \<and>
    (case e of
       Drained t \<Rightarrow> in_flight t = 0
     | DeadlineReached n t \<Rightarrow> n = in_flight t \<and> n \<noteq> 0 \<and> now + 30000 \<le> t)"
proof -
  have "end_time (drain_loop in_flight extra (now + DRAIN_TIMEOUT) now) \<le> now + DRAIN_TIMEOUT + TICK + d"
    by (rule drain_loop_bounded) (use assms in simp_all)
  then show ?thesis
    using drain_loop_sound [where in_flight = in_flight and extra = extra and deadline = "now + DRAIN_TIMEOUT" and now = now]
    by (auto simp: shutdown_signal_def DRAIN_TIMEOUT_def TICK_def split: DrainEnd.splits)
qed

theorem drain_ends_witness:
  "\<exists>e. shutdown_signal True (\<lambda>t. if t < 1000 then 2 else 0) (\<lambda>_. 3) 0 = Some e \<and> end_time e \<le> 30203"
  using drain_ends [of "\<lambda>_. 3" 3 "\<lambda>t. if t < 1000 then 2 else 0" 0] by auto

text \<open>
  When the sleeps are punctual, the drain ends at the first poll, 200 milliseconds apart and
  within the 30 seconds, at which no append is in flight.
\<close>

theorem drain_ends_promptly:
  assumes "k \<le> 150" and "in_flight (now + 200 * k) = 0" and "\<forall>j < k. in_flight (now + 200 * j) \<noteq> 0"
  shows "shutdown_signal True in_flight (\<lambda>_. 0) now = Some (Drained (now + 200 * k))"
  using drain_loop_first [of in_flight now k "now + DRAIN_TIMEOUT"] assms
  by (simp add: shutdown_signal_def DRAIN_TIMEOUT_def TICK_def mult.commute)

theorem drain_ends_promptly_witness:
  "shutdown_signal True (\<lambda>t. if t < 300 then 1 else 0) (\<lambda>_. 0) 0 = Some (Drained 400)"
  using drain_ends_promptly [of 2 "\<lambda>t. if t < 300 then 1 else 0" 0] by (auto simp: less_2_cases_iff)

end
