(* ===== verification/Process.thy ===== *)
theory Process
  imports Startup Shutdown
begin

text \<open>
  The whole of \<open>main\<close> (\<open>src/main.rs\<close>): the start of theory \<open>Startup\<close>, then
  \<open>serve_with_shutdown\<close> with the drain of theory \<open>Shutdown\<close> as its signal; and the handler of the
  metrics endpoint.  Times are milliseconds since the start of the process.
\<close>

section \<open>Serving\<close>

text \<open>When \<open>ctrl_c().await\<close> returns, and how: never, with an error, or at a signal.\<close>

datatype CtrlC = NoSignal | HandlerFails nat | Interrupt nat

text \<open>When the future \<open>shutdown_signal(in_flight)\<close> resolves\<close>

definition signal_resolves :: "CtrlC \<Rightarrow> (nat \<Rightarrow> u64) \<Rightarrow> (nat \<Rightarrow> nat) \<Rightarrow> nat option" where
  "signal_resolves ctrl_c in_flight extra =
     (case ctrl_c of
        NoSignal \<Rightarrow> None
      | HandlerFails t \<Rightarrow>
          Some (case shutdown_signal False in_flight extra t of None \<Rightarrow> t | Some e \<Rightarrow> end_time e)
      | Interrupt t \<Rightarrow>
          Some (case shutdown_signal True in_flight extra t of None \<Rightarrow> t | Some e \<Rightarrow> end_time e))"

text \<open>
  \<open>serve_with_shutdown\<close> of tonic: given the time at which the signal resolves, the result and the
  time it returns, or \<open>None\<close> when it serves for ever.  Its documentation says that it serves until
  the signal resolves.
\<close>

type_synonym ('w, 'g, 'addr, 'tls) serving =
  "('w, 'g, 'addr, 'tls) Server \<Rightarrow> nat option \<Rightarrow> ((rstring + unit) \<times> nat) option"

definition serves_until_signal :: "('w, 'g, 'addr, 'tls) serving \<Rightarrow> bool" where
  "serves_until_signal serve \<longleftrightarrow>
     (\<forall>srv signal t. serve srv signal = Some (Inr (), t) \<longrightarrow> (\<exists>t0. signal = Some t0 \<and> t0 \<le> t))"

text \<open>\<open>main\<close>: its error, or the time of its return; \<open>None\<close> when it does not return.\<close>

definition main_run ::
  "'addr Platform \<Rightarrow> ('addr, 'tls) Boot \<Rightarrow> (nat \<Rightarrow> 'g) \<Rightarrow> ('w, 'g, 'addr, 'tls) serving \<Rightarrow> CtrlC \<Rightarrow>
   (nat \<Rightarrow> u64) \<Rightarrow> (nat \<Rightarrow> nat) \<Rightarrow> Env \<Rightarrow> rstring list \<Rightarrow> 'addr Machine \<Rightarrow> (MainError + nat) option \<times> 'addr Machine" where
  "main_run P B direct serve ctrl_c in_flight extra env args m =
     (case start_up P B direct env args m of
        (Inl e, m') \<Rightarrow> (Some (Inl e), m')
      | (Inr srv, m') \<Rightarrow>
          (case serve srv (signal_resolves ctrl_c in_flight extra) of
             None \<Rightarrow> (None, m')
           | Some (Inl e, t) \<Rightarrow> (Some (Inl (TransportFailed e)), m')
           | Some (Inr _, t) \<Rightarrow> (Some (Inr t), m')))"

section \<open>The metrics endpoint\<close>

text \<open>\<open>GET /metrics\<close>, over the handle of the Prometheus exporter\<close>

record 'h PrometheusHandle =
  run_upkeep :: "'h \<Rightarrow> 'h"
  render :: "'h \<Rightarrow> rstring"

definition metrics_scrape ::
  "'h PrometheusHandle \<Rightarrow> 'h \<Rightarrow> ((rstring \<times> rstring) list \<times> rstring) \<times> 'h" where
  "metrics_scrape H handle =
     (let handle = run_upkeep H handle;
          body = render H handle
      in (([(''content-type'', ''text/plain; version=0.0.4; charset=utf-8'')], body), handle))"

section \<open>Properties\<close>

text \<open>
  C37: \<open>main\<close> only returns without an error after the drain: when serving ends no earlier than its
  signal, it returned no earlier than the end of the drain that an interrupt began, at which no
  append was in flight or 30 seconds had passed; or the signal handler itself had failed, and then
  nothing is drained.
\<close>

theorem main_returns_after_drain:
  assumes "serves_until_signal serve"
    and "main_run P B direct serve ctrl_c in_flight extra env args m = (Some (Inr t), m')"
  shows "\<exists>t0 \<le> t. ctrl_c = HandlerFails t0 \<or>
    (\<exists>now. ctrl_c = Interrupt now \<and> now \<le> t0 \<and> (in_flight t0 = 0 \<or> now + 30000 \<le> t0))"
proof -
  from assms(2) obtain srv where "serve srv (signal_resolves ctrl_c in_flight extra) = Some (Inr (), t)"
    by (auto simp: main_run_def split: prod.splits sum.splits option.splits)
  with assms(1) obtain t0 where t0: "signal_resolves ctrl_c in_flight extra = Some t0" "t0 \<le> t"
    unfolding serves_until_signal_def by blast
  show ?thesis
  proof (cases ctrl_c)
    case (Interrupt now)
    let ?e = "drain_loop in_flight extra (now + DRAIN_TIMEOUT) now"
    have "t0 = end_time ?e" using t0(1) Interrupt by (simp add: signal_resolves_def shutdown_signal_def)
    with drain_loop_sound [where in_flight = in_flight and extra = extra and deadline = "now + DRAIN_TIMEOUT" and now = now]
    have "now \<le> t0 \<and> (in_flight t0 = 0 \<or> now + 30000 \<le> t0)"
      by (auto simp: DRAIN_TIMEOUT_def split: DrainEnd.splits)
    with Interrupt t0(2) show ?thesis by blast
  qed (use t0 in \<open>auto simp: signal_resolves_def shutdown_signal_def\<close>)
qed

text \<open>An interrupt after a second, with an append that ends half a second later\<close>

definition sample_serve :: "(u64 \<times> nat, nat, rstring, bytes) serving" where
  "sample_serve srv signal = map_option (\<lambda>t. (Inr (), t + 5)) signal"

definition two_polls :: "nat \<Rightarrow> u64" where
  "two_polls t = (if t < 1300 then 1 else 0)"

theorem main_returns_after_drain_witness:
  "\<exists>m'. main_run sample_platform sample_boot id sample_serve (Interrupt 1000) two_polls (\<lambda>_. 0) sample_env []
      \<lparr>files = (\<lambda>_. disk_of [] sample_connection), bound = []\<rparr> = (Some (Inr 1405), m') \<and>
    (\<exists>t0 \<le> 1405. two_polls t0 = 0 \<or> 31000 \<le> t0)"
proof -
  let ?m = "\<lparr>files = (\<lambda>_. disk_of [] sample_connection), bound = []\<rparr> :: rstring Machine"
  have "signal_resolves (Interrupt 1000) two_polls (\<lambda>_. 0) = Some 1400"
    using drain_ends_promptly [of 2 two_polls 1000]
    by (simp add: signal_resolves_def two_polls_def less_2_cases_iff)
  moreover obtain c d where db: "open_and_migrate (files ?m ''quote_ledger.db'') = (Inr c, d)"
    using open_reliable [of sample_connection] by auto
  ultimately obtain m' where run: "main_run sample_platform sample_boot id sample_serve (Interrupt 1000) two_polls (\<lambda>_. 0)
      sample_env [] ?m = (Some (Inr 1405), m')"
    unfolding main_run_def sample_start [OF db] by (simp add: sample_serve_def)
  have "serves_until_signal sample_serve" by (auto simp: serves_until_signal_def sample_serve_def)
  from main_returns_after_drain [OF this run] run show ?thesis by auto
qed

end
