(* ===== verification/Repo_Tests.thy ===== *)
theory Repo_Tests
  imports Startup
begin

text \<open>
  The repository's own tests, run on the model.  A test is a closed definition whose value is
  whether all its assertions hold, and each is proved to be \<open>True\<close> by evaluation; so the model
  answers these inputs as the authors expect the program to.  Covered are the unit tests of
  \<open>src/domain/mod.rs\<close>, \<open>src/ledger.rs\<close> and \<open>src/grpc_interceptor.rs\<close> and the integration tests
  under \<open>tests/\<close> that call the handlers one after the other.  The client, the transport and the
  temporary directory of a test are its handler calls on a new database file.
\<close>

section \<open>Assertions\<close>

text \<open>\<open>unwrap\<close> and \<open>unwrap_err\<close>, with the rest of the test\<close>

definition unwrap :: "'e + 'a \<Rightarrow> ('a \<Rightarrow> bool) \<Rightarrow> bool" where
  "unwrap r rest = (case r of Inr a \<Rightarrow> rest a | Inl e \<Rightarrow> False)"

definition unwrap_err :: "'e + 'a \<Rightarrow> ('e \<Rightarrow> bool) \<Rightarrow> bool" where
  "unwrap_err r rest = (case r of Inl e \<Rightarrow> rest e | Inr a \<Rightarrow> False)"

section \<open>Unit tests of the domain\<close>

definition created :: DomainEvent where
  "created = QuoteCreated ''USD'' ''US''"

definition reduce_quote_created_from_empty :: bool where
  "reduce_quote_created_from_empty =
     unwrap (reduce QuoteState_default created) (\<lambda>s.
       is_created s \<and> currency_code_str s = ''USD'' \<and> jurisdiction_id_str s = ''US'' \<and> \<not> finalized s)"

definition reduce_rejects_second_quote_created :: bool where
  "reduce_rejects_second_quote_created =
     unwrap (reduce QuoteState_default created) (\<lambda>s0.
     unwrap_err (reduce s0 created) (\<lambda>err. err = QuoteAlreadyCreated))"

definition create_quote_emits_single_event :: bool where
  "create_quote_emits_single_event =
     unwrap (command_to_events QuoteState_default (CreateQuote ''JPY'' ''JP'')) (\<lambda>evs.
       evs = [QuoteCreated ''JPY'' ''JP''])"

definition create_quote_rejected_when_quote_exists :: bool where
  "create_quote_rejected_when_quote_exists =
     unwrap (reduce QuoteState_default created) (\<lambda>s.
     unwrap_err (command_to_events s (CreateQuote ''EUR'' ''DE'')) (\<lambda>err. err = DuplicateCreateQuote))"

definition replay_matches_folded_apply :: bool where
  "replay_matches_folded_apply =
     unwrap (command_to_events QuoteState_default (CreateQuote ''USD'' ''US'')) (\<lambda>evs.
     unwrap (replay evs) (\<lambda>from_replay.
     unwrap (try_fold reduce QuoteState_default evs) (\<lambda>folded. from_replay = folded)))"

definition create_quote_rejects_blank_currency :: bool where
  "create_quote_rejects_blank_currency =
     unwrap_err (command_to_events QuoteState_default (CreateQuote ''  '' ''US'')) (\<lambda>err.
       err = InvalidField ''currency_code'')"

definition state_after_create :: "DomainError + QuoteState" where
  "state_after_create = reduce QuoteState_default created"

definition add_line_then_totals_us_tax :: bool where
  "add_line_then_totals_us_tax =
     unwrap state_after_create (\<lambda>s0.
     unwrap (reduce s0 (LineItemAdded ''L1'' ''SKU'' ''Widget'' 2 5000)) (\<lambda>s1.
       unwrap (subtotal_minor s1) (\<lambda>n. n = 10000) \<and> unwrap (tax_minor s1) (\<lambda>n. n = 800) \<and>
       unwrap (total_minor s1) (\<lambda>n. n = 10800)))"

definition finalize_requires_line :: bool where
  "finalize_requires_line =
     unwrap state_after_create (\<lambda>s.
     unwrap_err (command_to_events s FinalizeQuote) (\<lambda>err. err = CannotFinalizeWithoutLines))"

definition finalize_sets_flag :: bool where
  "finalize_sets_flag =
     unwrap state_after_create (\<lambda>s0.
     unwrap (reduce s0 (LineItemAdded ''L1'' ''SKU'' ''Widget'' 1 100)) (\<lambda>s1.
     unwrap (reduce s1 QuoteFinalized) (\<lambda>s2.
       finalized s2 \<and>
       unwrap_err (command_to_events s2 (AddLineItem ''L2'' ''SKU'' ''Nope'' 1 1)) (\<lambda>err.
         err = QuoteAlreadyFinalized))))"

text \<open>
  The property test draws a currency of three capital letters and one of four jurisdictions; the
  lemma below proves its assertions for all of them.
\<close>

definition proptest_create_quote_emits_single_created_event :: "rstring \<Rightarrow> rstring \<Rightarrow> bool" where
  "proptest_create_quote_emits_single_created_event currency jur =
     unwrap (command_to_events QuoteState_default (CreateQuote currency jur)) (\<lambda>evs.
       length evs = 1 \<and>
       (case hd evs of QuoteCreated c j \<Rightarrow> c = currency \<and> j = jur | _ \<Rightarrow> False) \<and>
       unwrap (reduce QuoteState_default (hd evs)) is_created)"

lemma domain_tests_pass:
  "reduce_quote_created_from_empty" "reduce_rejects_second_quote_created" "create_quote_emits_single_event"
  "create_quote_rejected_when_quote_exists" "replay_matches_folded_apply" "create_quote_rejects_blank_currency"
  "add_line_then_totals_us_tax" "finalize_requires_line" "finalize_sets_flag"
  by code_simp+

lemma proptest_passes:
  assumes "length currency = 3" and "\<forall>c \<in> set currency. 65 \<le> (of_char c :: nat) \<and> (of_char c :: nat) \<le> 90"
    and "jur \<in> {''US'', ''US-CA'', ''DE'', ''JP''}"
  shows "proptest_create_quote_emits_single_created_event currency jur"
proof -
  have "currency \<noteq> []" using assms(1) by auto
  then have "hd currency \<in> set currency" "last currency \<in> set currency" by simp_all
  then have "ascii_graphic (hd currency) \<and> ascii_graphic (last currency)"
    using assms(2) by (fastforce simp: ascii_graphic_def)
  with assms(1) have "\<not> is_blank currency" by (auto simp: is_blank_def trim_graphic)
  moreover have "\<not> is_blank jur" using assms(3) by (elim insertE emptyE; hypsubst) code_simp+
  ultimately show ?thesis
    by (simp add: proptest_create_quote_emits_single_created_event_def unwrap_def require_non_blank_def is_created_def
        QuoteState_default_def)
qed

section \<open>Unit tests of the service\<close>

definition new_file :: Disk where
  "new_file = \<lparr>disk_events = None, disk_keys = None, disk_outcomes = []\<rparr>"

definition subscribe_load_between_empty_range :: bool where
  "subscribe_load_between_empty_range =
     unwrap (fst (open_and_migrate new_file)) (\<lambda>c.
     unwrap (fst (subscribe_load_between sample_external ''no-such-quote'' 0 0 (new_ledger c :: (u64 \<times> nat) Ledger))) (\<lambda>out.
       out = []))"

text \<open>A limiter with a burst of \<open>n\<close>, whose period of an hour does not pass during a test\<close>

definition burst :: "nat \<Rightarrow> bool \<times> nat" where
  "burst n = (0 < n, n - 1)"

definition interceptor_returns_err_when_bucket_empty :: bool where
  "interceptor_returns_err_when_bucket_empty =
     unwrap (auth_from_env_var [] ''QUOTE_LEDGER_AUTH_TOKEN_UNUSED_FOR_RATE_LIMIT_TEST'') (\<lambda>auth.
       (case interceptor_call (=) burst \<lparr>authorization = None\<rparr> \<lparr>ix_auth = auth, ix_limiter = Some 1, ix_rate_limited = 0\<rparr> of
          (r1, ix) \<Rightarrow>
            unwrap r1 (\<lambda>_. True) \<and>
            unwrap_err (fst (interceptor_call (=) burst \<lparr>authorization = None\<rparr> ix)) (\<lambda>_. True)))"

lemma service_tests_pass:
  "subscribe_load_between_empty_range" "interceptor_returns_err_when_bucket_empty"
  by code_simp+

section \<open>Integration tests\<close>

text \<open>
  A server on a new database, and what its client calls: one command on a stream, and a
  subscription whose messages are those the task sends at once.
\<close>

definition start_server :: "((u64 \<times> nat) Ledger \<Rightarrow> bool) \<Rightarrow> bool" where
  "start_server rest = unwrap (fst (open_and_migrate new_file)) (\<lambda>c. rest (new_ledger c))"

definition one_command :: "rstring \<Rightarrow> rstring \<Rightarrow> CmdKind \<Rightarrow> StreamItem" where
  "one_command q k cmd =
     Frame \<lparr>req_client_command_id = k, req_quote_id = q, req_command = Some \<lparr>command_kind = Some cmd\<rparr>\<rparr>"

definition client_append ::
  "(u64 \<times> nat) Ledger \<Rightarrow> rstring \<Rightarrow> rstring \<Rightarrow> CmdKind \<Rightarrow>
   (Status + AppendCommandsResponse) \<times> (u64 \<times> nat) Ledger" where
  "client_append l q k cmd =
     append_commands sample_external sample_watch ReliabilityLimits_default [one_command q k cmd] l"

definition client_subscribe :: "(u64 \<times> nat) Ledger \<Rightarrow> rstring \<Rightarrow> u64 \<Rightarrow> Status + (Status + QuoteUpdate) list" where
  "client_subscribe l q after =
     and_then (fst (subscribe_quote sample_external sample_watch \<lparr>sub_quote_id = q, after_seq = after\<rparr> [] l)) (\<lambda>p.
       Inr (sent p))"

text \<open>The client reads until the snapshot, with an assertion on each tail before it.\<close>

fun until_snapshot :: "(QuoteTail \<Rightarrow> bool) \<Rightarrow> (QuoteSnapshot \<Rightarrow> bool) \<Rightarrow> (Status + QuoteUpdate) list \<Rightarrow> bool" where
  "until_snapshot on_tail on_snapshot [] = False"
| "until_snapshot on_tail on_snapshot (Inl st # us) = False"
| "until_snapshot on_tail on_snapshot (Inr u # us) =
     (case update_kind u of
        None \<Rightarrow> False
      | Some (Tail t) \<Rightarrow> on_tail t \<and> until_snapshot on_tail on_snapshot us
      | Some (Snapshot s) \<Rightarrow> on_snapshot s)"

definition append_then_subscribe_snapshot :: bool where
  "append_then_subscribe_snapshot = start_server (\<lambda>l.
     let create = CmdKind_CreateQuote ''USD'' ''US-CA'';
         (first, l) = client_append l ''q-append-1'' ''cc-1'' create;
         (idempotent, l) = client_append l ''q-append-1'' ''cc-1'' create
     in unwrap first (\<lambda>r. last_committed_seq r = 1 \<and> length (committed r) = 1) \<and>
        unwrap idempotent (\<lambda>r. last_committed_seq r = 1 \<and> length (committed r) = 1) \<and>
        unwrap (client_subscribe l ''q-append-1'' 0)
          (until_snapshot
            (\<lambda>t. from_seq_exclusive t = 0 \<and> to_seq_inclusive t = 1 \<and> length (tail_events t) = 1)
            (\<lambda>s. last_seq s = 1 \<and>
               (case view s of
                  None \<Rightarrow> False
                | Some v \<Rightarrow> view_quote_id v = ''q-append-1'' \<and> view_currency_code v = ''USD'' \<and>
                    view_jurisdiction_id v = ''US-CA'' \<and> view_subtotal_minor v = 0 \<and> view_tax_minor v = 0 \<and>
                    view_total_minor v = 0 \<and> view_line_items v = []))))"

definition idempotency_conflict_on_same_key_different_command :: bool where
  "idempotency_conflict_on_same_key_different_command = start_server (\<lambda>l.
     let (first, l) = client_append l ''q-idem-1'' ''same-key'' (CmdKind_CreateQuote ''USD'' ''US-CA'')
     in unwrap first (\<lambda>_. True) \<and>
        unwrap_err (fst (client_append l ''q-idem-1'' ''same-key'' (CmdKind_AddLineItem ''L1'' ''SKU'' ''Widget'' 1 100)))
          (\<lambda>err. code err = FailedPrecondition))"

definition pricing_finalize_snapshot :: bool where
  "pricing_finalize_snapshot = start_server (\<lambda>l.
     let (r1, l) = client_append l ''q-price-1'' ''c-create'' (CmdKind_CreateQuote ''USD'' ''US-CA'');
         (r2, l) = client_append l ''q-price-1'' ''c-line'' (CmdKind_AddLineItem ''L1'' ''SKU'' ''Widget'' 2 5000);
         (r3, l) = client_append l ''q-price-1'' ''c-final'' CmdKind_FinalizeQuote
     in list_all (\<lambda>r. unwrap r (\<lambda>_. True)) [r1, r2, r3] \<and>
        unwrap (client_subscribe l ''q-price-1'' 0)
          (until_snapshot (\<lambda>_. True)
            (\<lambda>s. last_seq s = 3 \<and>
               (case view s of
                  None \<Rightarrow> False
                | Some v \<Rightarrow> view_finalized v \<and> view_subtotal_minor v = 10000 \<and> view_tax_minor v = 800 \<and>
                    view_total_minor v = 10800 \<and> length (view_line_items v) = 1 \<and>
                    view_line_total_minor (hd (view_line_items v)) = 10000))))"

definition append_stream_times_out_when_idle :: bool where
  "append_stream_times_out_when_idle = start_server (\<lambda>l.
     unwrap_err (fst (append_commands sample_external sample_watch
       \<lparr>append_idle_timeout = 150, append_max_commands = 8\<rparr> [IdleTimeout] l)) (\<lambda>err. code err = DeadlineExceeded))"

definition append_stream_rejects_too_many_commands :: bool where
  "append_stream_rejects_too_many_commands = start_server (\<lambda>l.
     let create = CmdKind_CreateQuote ''USD'' ''US-CA''
     in unwrap_err (fst (append_commands sample_external sample_watch
          \<lparr>append_idle_timeout = 5000, append_max_commands = 1\<rparr>
          [one_command ''q-reliability-1'' ''cc-1'' create, one_command ''q-reliability-1'' ''cc-2'' create] l))
          (\<lambda>err. code err = ResourceExhausted))"

definition strict_env :: Env where
  "strict_env =
     [(Unicode ''STRICT_CONFIG'', Unicode ''true''), (Unicode ''GRPC_LISTEN_ADDR'', Unicode ''127.0.0.1:59999''),
      (Unicode ''QUOTE_LEDGER_TYPOS_SHOULD_FAIL'', Unicode ''1'')]"

definition strict_config_rejects_unknown_prefixed_env :: bool where
  "strict_config_rejects_unknown_prefixed_env =
     unwrap_err (from_env_and_args sample_platform strict_env [])
       (\<lambda>e. case e of
          ConfigError err \<Rightarrow> sublist ''unknown environment variable'' err \<or> sublist ''QUOTE_LEDGER_TYPOS_SHOULD_FAIL'' err
        | Panicked \<Rightarrow> False)"

text \<open>A server behind \<open>AuthInterceptor\<close> alone, as the tests of \<open>auth_hardening.rs\<close> start it\<close>

definition append_requires_bearer_token_when_enabled :: bool where
  "append_requires_bearer_token_when_enabled = start_server (\<lambda>l.
     unwrap_err (and_then (auth_call (=) (auth_required ''secret-token'') \<lparr>authorization = None\<rparr>) (\<lambda>_.
         fst (client_append l ''q-auth-1'' ''cc-1'' (CmdKind_CreateQuote ''USD'' ''US-CA''))))
       (\<lambda>err. code err = Unauthenticated))"

definition subscribe_accepts_valid_bearer_token :: bool where
  "subscribe_accepts_valid_bearer_token = start_server (\<lambda>l.
     unwrap (and_then (auth_call (=) (auth_required ''secret-token'')
         \<lparr>authorization = Some (Ascii ''Bearer secret-token'')\<rparr>) (\<lambda>_. client_subscribe l ''q-auth-2'' 0))
       (\<lambda>us. case us of Inr u # _ \<Rightarrow> update_kind u \<noteq> None | _ \<Rightarrow> False))"

definition append_rejects_invalid_quote_id_characters :: bool where
  "append_rejects_invalid_quote_id_characters = start_server (\<lambda>l.
     unwrap_err (fst (client_append l ''bad id'' ''cc-1'' (CmdKind_CreateQuote ''USD'' ''US-CA'')))
       (\<lambda>err. code err = InvalidArgument))"

text \<open>A server behind the whole interceptor, with one request per second\<close>

definition limited_subscribe ::
  "(u64 \<times> nat) Ledger \<Rightarrow> nat LedgerGrpcInterceptor \<Rightarrow> Request \<Rightarrow> rstring \<Rightarrow>
   (Status + (Status + QuoteUpdate) list) \<times> nat LedgerGrpcInterceptor" where
  "limited_subscribe l ix request q =
     (case interceptor_call (=) burst request ix of
        (r, ix) \<Rightarrow> (and_then r (\<lambda>_. client_subscribe l q 0), ix))"

definition second_subscribe_hits_global_rate_limit :: bool where
  "second_subscribe_hits_global_rate_limit = start_server (\<lambda>l.
     unwrap (auth_from_env_var [] ''QUOTE_LEDGER_AUTH_TOKEN_UNUSED_FOR_GRPC_RATE_TEST'') (\<lambda>auth.
       let (first, ix) = limited_subscribe l (interceptor_new id auth (Some 1)) \<lparr>authorization = None\<rparr> ''q-rate-1'';
           (second, ix) = limited_subscribe l ix \<lparr>authorization = None\<rparr> ''q-rate-1''
       in unwrap first (\<lambda>_. True) \<and> unwrap_err second (\<lambda>err. code err = ResourceExhausted)))"

definition unauthenticated_request_does_not_consume_rate_limit_budget :: bool where
  "unauthenticated_request_does_not_consume_rate_limit_budget = start_server (\<lambda>l.
     let (first, ix) = limited_subscribe l (interceptor_new id (auth_required ''secret-token'') (Some 1))
           \<lparr>authorization = None\<rparr> ''q-rate-2'';
         (second, ix) = limited_subscribe l ix \<lparr>authorization = Some (Ascii ''Bearer secret-token'')\<rparr> ''q-rate-2''
     in unwrap_err first (\<lambda>err. code err = Unauthenticated) \<and> unwrap second (\<lambda>_. True))"

definition subscribe_rejects_after_seq_past_head :: bool where
  "subscribe_rejects_after_seq_past_head = start_server (\<lambda>l.
     let (r, l) = client_append l ''q-after-head-1'' ''create-1'' (CmdKind_CreateQuote ''USD'' ''US-CA'')
     in unwrap r (\<lambda>_. True) \<and>
        unwrap_err (client_subscribe l ''q-after-head-1'' 999) (\<lambda>err. code err = InvalidArgument))"

lemma append_then_subscribe_snapshot_passes: "append_then_subscribe_snapshot"
  by code_simp

lemma idempotency_conflict_on_same_key_different_command_passes: "idempotency_conflict_on_same_key_different_command"
  by code_simp

lemma pricing_finalize_snapshot_passes: "pricing_finalize_snapshot"
  by code_simp

lemma append_stream_times_out_when_idle_passes: "append_stream_times_out_when_idle"
  by code_simp

lemma append_stream_rejects_too_many_commands_passes: "append_stream_rejects_too_many_commands"
  by code_simp

lemma subscribe_rejects_after_seq_past_head_passes: "subscribe_rejects_after_seq_past_head"
  by code_simp

lemma config_test_passes: "strict_config_rejects_unknown_prefixed_env"
proof -
  let ?known = "\<lambda>e. case e of
      ConfigError err \<Rightarrow> sublist ''unknown environment variable'' err \<or> sublist ''QUOTE_LEDGER_TYPOS_SHOULD_FAIL'' err
    | Panicked \<Rightarrow> False"
  have "unwrap_err (validate_strict_unknown sample_platform strict_env) ?known" by code_simp
  then show ?thesis
    by (auto simp: strict_config_rejects_unknown_prefixed_env_def unwrap_err_def from_env_and_args_def
        split: sum.splits)
qed

lemma append_requires_bearer_token_when_enabled_passes: "append_requires_bearer_token_when_enabled"
  by code_simp

lemma subscribe_accepts_valid_bearer_token_passes: "subscribe_accepts_valid_bearer_token"
  by code_simp

lemma append_rejects_invalid_quote_id_characters_passes: "append_rejects_invalid_quote_id_characters"
  by code_simp

lemma second_subscribe_hits_global_rate_limit_passes: "second_subscribe_hits_global_rate_limit"
  by code_simp

lemma unauthenticated_request_does_not_consume_rate_limit_budget_passes: "unauthenticated_request_does_not_consume_rate_limit_budget"
  by code_simp

end
