(* ===== verification/Bounded_Channel.thy ===== *)
theory Bounded_Channel
  imports Concurrent_System
begin

text \<open>
  The channel between a subscriber's task and its client: \<open>mpsc::channel(32)\<close> of
  \<open>subscribe_quote\<close>.  In theory \<open>Concurrent_System\<close> every send succeeds at once; here
  \<open>tx.send(x).await\<close> may have to wait for the client, and may fail.  A task that waits in a send
  is \<open>blocked\<close>, with the message and what the code does after it.  The channel itself is
  tokio's: it is a parameter, a record of operations with the laws of its documentation.  The
  theory shows that this is a refinement of theory \<open>Concurrent_System\<close>, and what a client has
  in hand at any time.
\<close>

section \<open>The channel\<close>

type_synonym Message = "Status + QuoteUpdate"

text \<open>
  \<open>tokio::sync::mpsc\<close>: \<open>can_send\<close> says that a \<open>send\<close> need not wait, and \<open>is_closed\<close> that it
  fails, since the receiver was dropped.  What is \<open>in_transit\<close>, and the capacity, are there to state
  the laws only.
\<close>

record 'm MpscOps =
  mpsc_channel :: "nat \<Rightarrow> 'm"
  can_send :: "'m \<Rightarrow> bool"
  mpsc_send :: "'m \<Rightarrow> Message \<Rightarrow> 'm"
  is_closed :: "'m \<Rightarrow> bool"
  mpsc_recv :: "'m \<Rightarrow> (Message \<times> 'm) option"
  drop_receiver :: "'m \<Rightarrow> 'm"
  in_transit :: "'m \<Rightarrow> Message list"
  capacity_of :: "'m \<Rightarrow> nat"

text \<open>Messages arrive in order, a full channel makes the sender wait, a closed one refuses.\<close>

definition mpsc_ok :: "'m MpscOps \<Rightarrow> bool" where
  "mpsc_ok M \<longleftrightarrow>
     (\<forall>n. 0 < n \<longrightarrow> in_transit M (mpsc_channel M n) = [] \<and> \<not> is_closed M (mpsc_channel M n) \<and>
        capacity_of M (mpsc_channel M n) = n) \<and>
     (\<forall>m. can_send M m \<longleftrightarrow> \<not> is_closed M m \<and> length (in_transit M m) < capacity_of M m) \<and>
     (\<forall>m x. can_send M m \<longrightarrow> in_transit M (mpsc_send M m x) = in_transit M m @ [x] \<and>
        \<not> is_closed M (mpsc_send M m x) \<and> capacity_of M (mpsc_send M m x) = capacity_of M m) \<and>
     (\<forall>m. case mpsc_recv M m of
        None \<Rightarrow> in_transit M m = []
      | Some (x, m') \<Rightarrow> in_transit M m = x # in_transit M m' \<and> is_closed M m' = is_closed M m \<and>
          capacity_of M m' = capacity_of M m) \<and>
     (\<forall>m. in_transit M (drop_receiver M m) = [] \<and> is_closed M (drop_receiver M m) \<and>
        capacity_of M (drop_receiver M m) = capacity_of M m)"

lemma mpsc_new:
  "mpsc_ok M \<Longrightarrow> 0 < n \<Longrightarrow> in_transit M (mpsc_channel M n) = [] \<and> \<not> is_closed M (mpsc_channel M n) \<and>
     capacity_of M (mpsc_channel M n) = n"
  by (simp add: mpsc_ok_def)

lemma mpsc_can_send:
  "mpsc_ok M \<Longrightarrow> can_send M m \<longleftrightarrow> \<not> is_closed M m \<and> length (in_transit M m) < capacity_of M m"
  by (simp add: mpsc_ok_def)

lemma mpsc_sent:
  "mpsc_ok M \<Longrightarrow> can_send M m \<Longrightarrow> in_transit M (mpsc_send M m x) = in_transit M m @ [x] \<and>
     \<not> is_closed M (mpsc_send M m x) \<and> capacity_of M (mpsc_send M m x) = capacity_of M m"
  by (simp add: mpsc_ok_def)

lemma mpsc_received:
  "mpsc_ok M \<Longrightarrow> case mpsc_recv M m of
     None \<Rightarrow> in_transit M m = []
   | Some (x, m') \<Rightarrow> in_transit M m = x # in_transit M m' \<and> is_closed M m' = is_closed M m \<and>
       capacity_of M m' = capacity_of M m"
  unfolding mpsc_ok_def by blast

lemma mpsc_dropped:
  "mpsc_ok M \<Longrightarrow> in_transit M (drop_receiver M m) = [] \<and> is_closed M (drop_receiver M m) \<and>
     capacity_of M (drop_receiver M m) = capacity_of M m"
  by (simp add: mpsc_ok_def)

text \<open>A channel for the examples: its capacity, whether it is closed, its messages\<close>

definition sample_mpsc :: "(nat \<times> bool \<times> Message list) MpscOps" where
  "sample_mpsc =
     \<lparr>mpsc_channel = (\<lambda>n. (n, False, [])),
      can_send = (\<lambda>(n, b, xs). \<not> b \<and> length xs < n),
      mpsc_send = (\<lambda>(n, b, xs) x. (n, b, xs @ [x])),
      is_closed = (\<lambda>(n, b, xs). b),
      mpsc_recv = (\<lambda>(n, b, xs). case xs of [] \<Rightarrow> None | x # ys \<Rightarrow> Some (x, (n, b, ys))),
      drop_receiver = (\<lambda>(n, b, xs). (n, True, [])),
      in_transit = (\<lambda>(n, b, xs). xs), capacity_of = fst\<rparr>"

lemma sample_mpsc_ok: "mpsc_ok sample_mpsc"
  by (auto simp: mpsc_ok_def sample_mpsc_def split: list.split)

section \<open>A stream\<close>

definition CHANNEL_CAPACITY :: nat where
  "CHANNEL_CAPACITY = 32"

text \<open>What follows a send that succeeded, in the order of the task.\<close>

datatype AfterSend = ThenSnapshot SubscribeInit | ThenCatchUp u64 | ThenWait u64 | ThenReturn

record ('r, 'm) Stream =
  task :: "'r Task"
  blocked :: "(Message \<times> AfterSend) option"
  channel :: 'm
  delivered :: "Message list"

text \<open>What waits for the client, and whether it is gone\<close>

abbreviation queue :: "'m MpscOps \<Rightarrow> ('r, 'm) Stream \<Rightarrow> Message list" where
  "queue M s \<equiv> in_transit M (channel s)"

abbreviation hung_up :: "'m MpscOps \<Rightarrow> ('r, 'm) Stream \<Rightarrow> bool" where
  "hung_up M s \<equiv> is_closed M (channel s)"

definition snapshot_update :: "SubscribeInit \<Rightarrow> QuoteUpdate" where
  "snapshot_update init =
     \<lparr>update_kind = Some (Snapshot \<lparr>last_seq = init_last_seq init, view = Some (init_view init)\<rparr>)\<rparr>"

text \<open>The task is spawned and begins with the catch-up tail, or with the snapshot.\<close>

definition open_stream :: "'m MpscOps \<Rightarrow> SubscribeInit \<Rightarrow> 'r Pump \<Rightarrow> ('r, 'm) Stream" where
  "open_stream M init p =
     \<lparr>task = \<lparr>pump = p, in_round = None\<rparr>,
      blocked = Some (if init_catchup init = [] then (Inr (snapshot_update init), ThenCatchUp (init_last_seq init))
        else (Inr (tail_update (pump_after p) (init_catchup init)), ThenSnapshot init)),
      channel = mpsc_channel M CHANNEL_CAPACITY, delivered = []\<rparr>"

fun resume :: "AfterSend \<Rightarrow> 'r Pump \<Rightarrow> 'r Pump \<times> (Message \<times> AfterSend) option" where
  "resume (ThenSnapshot init) p = (p, Some (Inr (snapshot_update init), ThenCatchUp (init_last_seq init)))"
| "resume (ThenCatchUp n) p = (p\<lparr>watermark := n\<rparr>, None)"
| "resume (ThenWait head) p = (p\<lparr>watermark := head, phase := Waiting\<rparr>, None)"
| "resume ThenReturn p = (finish p, None)"

text \<open>The result of a load: an error is sent before the task returns, events in one tail.\<close>

definition answer :: "u64 \<Rightarrow> Status + StoredEvent list \<Rightarrow> ('r, 'm) Stream \<Rightarrow> ('r, 'm) Stream" where
  "answer head r s =
     (let p = pump (task s) in
      case r of
        Inl st \<Rightarrow> s\<lparr>task := \<lparr>pump = p, in_round = None\<rparr>, blocked := Some (Inl st, ThenReturn)\<rparr>
      | Inr chunk \<Rightarrow>
          if chunk = [] then s\<lparr>task := \<lparr>pump = p\<lparr>watermark := head, phase := Waiting\<rparr>, in_round = None\<rparr>\<rparr>
          else s\<lparr>task := \<lparr>pump = p, in_round = None\<rparr>,
                 blocked := Some (Inr (tail_update (watermark p) chunk), ThenWait head)\<rparr>)"

section \<open>Steps\<close>

text \<open>
  \<open>Wake\<close> is \<open>changed().await\<close> returning; \<open>BeginRound\<close> reads the head with \<open>borrow()\<close>, and looks
  whether there is something to load.
\<close>

datatype StreamAction = Accept | Reject | Receive | HangUp | Wake | BeginRound | AttemptRound

text \<open>One action of a stream, of its task or of its client, on the ledger and the stream.\<close>

fun stream_act ::
  "External \<Rightarrow> ('w, 'r) WatchOps \<Rightarrow> 'm MpscOps \<Rightarrow> StreamAction \<Rightarrow> 'w Ledger \<Rightarrow> ('r, 'm) Stream \<Rightarrow>
   ('w Ledger \<times> ('r, 'm) Stream) option" where
  "stream_act E W M Accept l s =
     (case blocked s of
        Some (x, k) \<Rightarrow>
          if can_send M (channel s) then
            (case resume k ((pump (task s))\<lparr>sent := sent (pump (task s)) @ [x]\<rparr>) of
               (p, b) \<Rightarrow> Some (l, s\<lparr>task := (task s)\<lparr>pump := p\<rparr>, blocked := b, channel := mpsc_send M (channel s) x\<rparr>))
          else None
      | None \<Rightarrow> None)"
| "stream_act E W M Reject l s =
     (if blocked s \<noteq> None \<and> is_closed M (channel s)
      then Some (l, s\<lparr>task := (task s)\<lparr>pump := finish (pump (task s))\<rparr>, blocked := None\<rparr>) else None)"
| "stream_act E W M Receive l s =
     (case mpsc_recv M (channel s) of
        Some (x, m) \<Rightarrow> Some (l, s\<lparr>channel := m, delivered := delivered s @ [x]\<rparr>)
      | None \<Rightarrow> None)"
| "stream_act E W M HangUp l s =
     (if is_closed M (channel s) then None else Some (l, s\<lparr>channel := drop_receiver M (channel s)\<rparr>))"
| "stream_act E W M Wake l s =
     (let p = pump (task s) in
      if blocked s = None \<and> in_round (task s) = None \<and> phase p = Waiting then
        (case bus l (pump_quote p) of
           None \<Rightarrow> None
         | Some w \<Rightarrow>
             if has_changed W w (rx_watch p)
             then Some (l, s\<lparr>task := (task s)\<lparr>pump := p\<lparr>rx_watch := mark_seen W w (rx_watch p), phase := CatchingUp\<rparr>\<rparr>\<rparr>)
             else None)
      else None)"
| "stream_act E W M BeginRound l s =
     (let p = pump (task s) in
      if blocked s = None \<and> in_round (task s) = None \<and> phase p = CatchingUp then
        (case bus l (pump_quote p) of
           None \<Rightarrow> None
         | Some w \<Rightarrow> Some (l, s\<lparr>task := start_round (borrow W w) p\<rparr>))
      else None)"
| "stream_act E W M AttemptRound l s =
     (case in_round (task s) of
        None \<Rightarrow> None
      | Some rd \<Rightarrow>
          (case attempt_load E rd (pump (task s)) l of
             (l', Inl rd') \<Rightarrow> Some (l', s\<lparr>task := (task s)\<lparr>in_round := Some rd'\<rparr>\<rparr>)
           | (l', Inr r) \<Rightarrow> Some (l', answer (round_head rd) r s)))"

record ('w, 'r, 'm) Service =
  base :: "('w, 'r) Concurrent"
  streams :: "('r, 'm) Stream list"

text \<open>
  Appends, reads and publications are those of theory \<open>Concurrent_System\<close>, on a state without
  tasks: the tasks are the streams.
\<close>

definition no_tasks :: "('w, 'r) Concurrent \<Rightarrow> bool" where
  "no_tasks B \<longleftrightarrow> tasks B = [] \<and> (\<forall>R \<in> set (subscribing B). reg_sends R = [])"

definition start_service :: "Connection \<Rightarrow> ('w, 'r, 'm) Service" where
  "start_service c = \<lparr>base = start_concurrent c, streams = []\<rparr>"

inductive dstep :: "External \<Rightarrow> ('w, 'r) WatchOps \<Rightarrow> 'm MpscOps \<Rightarrow> ('w, 'r, 'm) Service \<Rightarrow> ('w, 'r, 'm) Service \<Rightarrow> bool"
  for E :: External and W :: "('w, 'r) WatchOps" and M :: "'m MpscOps" where
  on_shared: "cstep E W (base S) B \<Longrightarrow> no_tasks B \<Longrightarrow> dstep E W M S (S\<lparr>base := B\<rparr>)"
| opens: "subscribing (base S) = before @ R # behind \<Longrightarrow>
    register W (reg_quote R) (init_last_seq (reg_init R)) (shared (base S)) = (rx, l) \<Longrightarrow>
    dstep E W M S (S\<lparr>base := (base S)\<lparr>shared := l, subscribing := before @ behind\<rparr>,
      streams := streams S @ [open_stream M (reg_init R) (new_pump (reg_quote R) (reg_after R) rx [])]\<rparr>)"
| acts: "i < length (streams S) \<Longrightarrow>
    stream_act E W M a (shared (base S)) (streams S ! i) = Some (l, s) \<Longrightarrow>
    dstep E W M S (S\<lparr>base := (base S)\<lparr>shared := l\<rparr>, streams := (streams S)[i := s]\<rparr>)"

inductive dreachable :: "External \<Rightarrow> ('w, 'r) WatchOps \<Rightarrow> 'm MpscOps \<Rightarrow> Connection \<Rightarrow> ('w, 'r, 'm) Service \<Rightarrow> bool"
  for E :: External and W :: "('w, 'r) WatchOps" and M :: "'m MpscOps" and c0 where
  start: "dreachable E W M c0 (start_service c0)"
| next_step: "dreachable E W M c0 S \<Longrightarrow> dstep E W M S S' \<Longrightarrow> dreachable E W M c0 S'"

section \<open>The stream of the refined model\<close>

text \<open>The task when the send it waits for, and the snapshot after it, have succeeded\<close>

fun settled :: "AfterSend \<Rightarrow> 'r Pump \<Rightarrow> 'r Pump" where
  "settled (ThenSnapshot init) p =
     p\<lparr>sent := sent p @ [Inr (snapshot_update init)], watermark := init_last_seq init\<rparr>"
| "settled k p = fst (resume k p)"

definition settle :: "('r, 'm) Stream \<Rightarrow> 'r Pump" where
  "settle s =
     (case blocked s of
        None \<Rightarrow> pump (task s)
      | Some (x, k) \<Rightarrow> settled k ((pump (task s))\<lparr>sent := sent (pump (task s)) @ [x]\<rparr>))"

text \<open>A tail names the number of its last event.\<close>

definition exact_tail :: "Status + QuoteUpdate \<Rightarrow> bool" where
  "exact_tail x =
     (case x of
        Inl st \<Rightarrow> True
      | Inr u \<Rightarrow> (case update_kind u of
          Some (Tail t) \<Rightarrow> tail_events t \<noteq> [] \<longrightarrow> to_seq_inclusive t = seq (last (tail_events t))
        | _ \<Rightarrow> True))"

definition stream_ok :: "'m MpscOps \<Rightarrow> ('r, 'm) Stream \<Rightarrow> bool" where
  "stream_ok M s \<longleftrightarrow>
     (if hung_up M s then queue M s = [] \<and> prefix (delivered s) (sent (pump (task s)))
      else sent (pump (task s)) = delivered s @ queue M s) \<and>
     length (queue M s) \<le> CHANNEL_CAPACITY \<and> capacity_of M (channel s) = CHANNEL_CAPACITY \<and> sends (pump (task s)) = [] \<and>
     (\<forall>x \<in> set (sent (pump (task s))). exact_tail x) \<and>
     (\<forall>x k. blocked s = Some (x, k) \<longrightarrow> exact_tail x \<and> in_round (task s) = None \<and>
        phase (pump (task s)) \<noteq> Finished \<and> (\<forall>init. k = ThenSnapshot init \<longrightarrow> sent (pump (task s)) = [])) \<and>
     (in_round (task s) \<noteq> None \<longrightarrow> phase (pump (task s)) \<noteq> Finished)"

definition stream_rel :: "('r, 'm) Stream \<Rightarrow> 'r Task \<Rightarrow> bool" where
  "stream_rel s t \<longleftrightarrow>
     (if phase (pump (task s)) = Finished
      then prefix (sent (pump (task s))) (sent (pump t)) \<and>
        pump_quote (pump t) = pump_quote (pump (task s)) \<and> pump_after (pump t) = pump_after (pump (task s))
      else t = \<lparr>pump = settle s, in_round = in_round (task s)\<rparr>)"

section \<open>The refinement\<close>

lemma exact_tail_simps [simp]:
  "exact_tail (Inl st)" "exact_tail (Inr (tail_update n evs))" "exact_tail (Inr (snapshot_update init))"
  by (simp_all add: exact_tail_def tail_update_def snapshot_update_def)

lemma finish_simps [simp]:
  "phase (finish p) = Finished" "sent (finish p) = sent p" "sends (finish p) = sends p"
  "pump_quote (finish p) = pump_quote p" "pump_after (finish p) = pump_after p"
  by (simp_all add: finish_def)

text \<open>A fresh stream is the task that has sent its opening.\<close>

lemma open_stream_settle:
  "settle (open_stream M init (new_pump q after rx [])) = pump_start init (new_pump q after rx [])"
proof -
  have "pump_start init (new_pump q after rx []) = (new_pump q after rx [])\<lparr>watermark := init_last_seq init,
      sent := opening_updates after (init_last_seq init) (init_view init) (init_catchup init)\<rparr>"
    by (cases init) (simp add: pump_start_open)
  then show ?thesis
    by (simp add: settle_def open_stream_def opening_updates_def snapshot_update_def new_pump_def)
qed

lemma open_stream_ok:
  assumes "mpsc_ok M"
  shows "stream_ok M (open_stream M init (new_pump q after rx []))"
    and "stream_rel (open_stream M init (new_pump q after rx []))
      \<lparr>pump = pump_start init (new_pump q after rx []), in_round = None\<rparr>"
proof -
  show "stream_ok M (open_stream M init (new_pump q after rx []))"
    using mpsc_new [OF assms, of CHANNEL_CAPACITY] by (simp add: stream_ok_def open_stream_def new_pump_def CHANNEL_CAPACITY_def)
  have "phase (pump (task (open_stream M init (new_pump q after rx [])))) \<noteq> Finished"
    "in_round (task (open_stream M init (new_pump q after rx []))) = None"
    by (simp_all add: open_stream_def)
  then show "stream_rel (open_stream M init (new_pump q after rx []))
     \<lparr>pump = pump_start init (new_pump q after rx []), in_round = None\<rparr>"
    by (simp add: stream_rel_def open_stream_settle)
qed

text \<open>A send that succeeds changes nothing in the refined model.\<close>

lemma settle_resume:
  assumes "resume k (p\<lparr>sent := sent p @ [x]\<rparr>) = (p', b)"
  shows "sent p' = sent p @ [x] \<and> sends p' = sends p \<and> pump_quote p' = pump_quote p \<and> pump_after p' = pump_after p \<and>
    settled k (p\<lparr>sent := sent p @ [x]\<rparr>) =
      (case b of None \<Rightarrow> p' | Some (y, j) \<Rightarrow> settled j (p'\<lparr>sent := sent p' @ [y]\<rparr>)) \<and>
    (\<forall>y j. b = Some (y, j) \<longrightarrow> exact_tail y \<and> phase p' = phase p \<and> (\<forall>init. j \<noteq> ThenSnapshot init))"
  using assms by (cases k) auto

text \<open>What an action of a stream was, and what it did\<close>

lemma accept_elim:
  assumes "stream_act E W M Accept l s = Some (l', s')" and "mpsc_ok M" and "stream_ok M s"
  obtains x k p b m where "blocked s = Some (x, k)" and "\<not> hung_up M s" and "length (queue M s) < CHANNEL_CAPACITY"
    and "resume k ((pump (task s))\<lparr>sent := sent (pump (task s)) @ [x]\<rparr>) = (p, b)" and "l' = l"
    and "s' = s\<lparr>task := (task s)\<lparr>pump := p\<rparr>, blocked := b, channel := m\<rparr>"
    and "in_transit M m = queue M s @ [x]" and "\<not> is_closed M m" and "capacity_of M m = capacity_of M (channel s)"
proof -
  have "capacity_of M (channel s) = CHANNEL_CAPACITY" using assms(3) by (simp add: stream_ok_def)
  with assms(1) mpsc_can_send [OF assms(2)] mpsc_sent [OF assms(2)] that show thesis
    by (auto split: option.splits if_splits prod.splits)
qed

lemma receive_elim:
  assumes "stream_act E W M Receive l s = Some (l', s')" and "mpsc_ok M"
  obtains x m where "queue M s = x # in_transit M m" and "l' = l"
    and "s' = s\<lparr>channel := m, delivered := delivered s @ [x]\<rparr>"
    and "is_closed M m = hung_up M s" and "capacity_of M m = capacity_of M (channel s)"
  using assms(1) mpsc_received [OF assms(2), of "channel s"] that by (auto split: option.splits prod.splits)

lemma hang_up_elim:
  assumes "stream_act E W M HangUp l s = Some (l', s')" and "mpsc_ok M"
  obtains m where "\<not> hung_up M s" and "l' = l" and "s' = s\<lparr>channel := m\<rparr>" and "in_transit M m = []"
    and "is_closed M m" and "capacity_of M m = capacity_of M (channel s)"
  using assms(1) mpsc_dropped [OF assms(2), of "channel s"] that by (auto split: if_splits)

lemma wake_elim:
  assumes "stream_act E W M Wake l s = Some (l', s')"
  obtains w where "blocked s = None" and "in_round (task s) = None" and "l' = l"
    and "phase (pump (task s)) = Waiting" and "bus l (pump_quote (pump (task s))) = Some w"
    and "has_changed W w (rx_watch (pump (task s)))"
    and "s' = s\<lparr>task := (task s)\<lparr>pump := (pump (task s))\<lparr>rx_watch := mark_seen W w (rx_watch (pump (task s))),
      phase := CatchingUp\<rparr>\<rparr>\<rparr>"
  using assms by (fastforce simp: Let_def split: if_splits option.splits)

lemma begin_elim:
  assumes "stream_act E W M BeginRound l s = Some (l', s')"
  obtains w where "blocked s = None" and "in_round (task s) = None" and "l' = l"
    and "phase (pump (task s)) = CatchingUp" and "bus l (pump_quote (pump (task s))) = Some w"
    and "s' = s\<lparr>task := start_round (borrow W w) (pump (task s))\<rparr>"
  using assms by (fastforce simp: Let_def split: if_splits option.splits)

lemma attempt_elim:
  assumes "stream_act E W M AttemptRound l s = Some (l', s')" and "stream_ok M s"
  obtains rd r where "in_round (task s) = Some rd" and "blocked s = None" and "phase (pump (task s)) \<noteq> Finished"
    and "attempt_load E rd (pump (task s)) l = (l', r)"
    and "s' = (case r of
        Inl rd' \<Rightarrow> s\<lparr>task := (task s)\<lparr>in_round := Some rd'\<rparr>\<rparr>
      | Inr r \<Rightarrow> answer (round_head rd) r s)"
proof -
  from assms(1) obtain rd r where rd: "in_round (task s) = Some rd" "attempt_load E rd (pump (task s)) l = (l', r)"
    "s' = (case r of Inl rd' \<Rightarrow> s\<lparr>task := (task s)\<lparr>in_round := Some rd'\<rparr>\<rparr> | Inr r \<Rightarrow> answer (round_head rd) r s)"
    by (auto split: option.splits prod.splits sum.splits)
  moreover have "blocked s = None" "phase (pump (task s)) \<noteq> Finished"
    using assms(2) rd(1) by (cases "blocked s"; auto simp: stream_ok_def)+
  ultimately show ?thesis by (intro that)
qed

lemma accept_ok:
  assumes "stream_act E W M Accept l s = Some (l', s')" and "mpsc_ok M" and "stream_ok M s" and "stream_rel s t"
  shows "l' = l \<and> stream_ok M s' \<and> stream_rel s' t"
proof -
  let ?p = "pump (task s)"
  from assms(1-3) obtain x k p b m where run: "blocked s = Some (x, k)" "\<not> hung_up M s" "length (queue M s) < CHANNEL_CAPACITY"
    "resume k (?p\<lparr>sent := sent ?p @ [x]\<rparr>) = (p, b)" "l' = l"
    "s' = s\<lparr>task := (task s)\<lparr>pump := p\<rparr>, blocked := b, channel := m\<rparr>"
    "in_transit M m = queue M s @ [x]" "\<not> is_closed M m" "capacity_of M m = capacity_of M (channel s)"
    by (rule accept_elim)
  note res = settle_resume [OF run(4)]
  from assms(3,4) run(1) have t: "t = \<lparr>pump = settle s, in_round = None\<rparr>"
    by (auto simp: stream_ok_def stream_rel_def)
  have settle: "settle s' = settle s" using res run by (auto simp: settle_def split: option.splits)
  have "stream_ok M s'" using assms(3) run res by (auto simp: stream_ok_def)
  moreover have "stream_rel s' t"
  proof (cases "phase p = Finished")
    case True
    then have "b = None" using res assms(3) run(1) by (cases b) (auto simp: stream_ok_def)
    with True settle run t show ?thesis by (simp add: stream_rel_def settle_def)
  next
    case False
    with settle run t assms(3) show ?thesis by (auto simp: stream_rel_def stream_ok_def)
  qed
  ultimately show ?thesis using run(5) by blast
qed

lemma reject_ok:
  assumes "stream_act E W M Reject l s = Some (l', s')" and "stream_ok M s" and "stream_rel s t"
  shows "l' = l \<and> stream_ok M s' \<and> stream_rel s' t"
proof -
  from assms(1) obtain x k where run: "blocked s = Some (x, k)" "hung_up M s" "l' = l"
    "s' = s\<lparr>task := (task s)\<lparr>pump := finish (pump (task s))\<rparr>, blocked := None\<rparr>"
    by (auto split: if_splits)
  from assms(2,3) run(1) have t: "t = \<lparr>pump = settle s, in_round = None\<rparr>"
    by (auto simp: stream_ok_def stream_rel_def)
  have "prefix (sent (pump (task s))) (sent (settle s)) \<and> pump_quote (settle s) = pump_quote (pump (task s)) \<and>
      pump_after (settle s) = pump_after (pump (task s))"
    by (cases k) (simp_all add: settle_def run(1))
  with assms(2) run t show ?thesis by (simp add: stream_ok_def stream_rel_def)
qed

lemma settle_client [simp]:
  "settle (s\<lparr>channel := m, delivered := ys\<rparr>) = settle s" "settle (s\<lparr>channel := m\<rparr>) = settle s"
  by (simp_all add: settle_def split: option.split)

lemma receive_ok:
  assumes "stream_act E W M Receive l s = Some (l', s')" and "mpsc_ok M" and "stream_ok M s" and "stream_rel s t"
  shows "l' = l \<and> stream_ok M s' \<and> stream_rel s' t"
proof -
  from assms(1,2) obtain x m where run: "queue M s = x # in_transit M m" "l' = l"
    "s' = s\<lparr>channel := m, delivered := delivered s @ [x]\<rparr>" "is_closed M m = hung_up M s"
    "capacity_of M m = capacity_of M (channel s)"
    by (rule receive_elim)
  have "stream_ok M s'" using assms(3) run by (auto simp: stream_ok_def split: if_splits)
  moreover have "stream_rel s' t" using assms(4) run by (simp add: stream_rel_def)
  ultimately show ?thesis using run(2) by blast
qed

lemma hang_up_ok:
  assumes "stream_act E W M HangUp l s = Some (l', s')" and "mpsc_ok M" and "stream_ok M s" and "stream_rel s t"
  shows "l' = l \<and> stream_ok M s' \<and> stream_rel s' t"
proof -
  from assms(1,2) obtain m where run: "\<not> hung_up M s" "l' = l" "s' = s\<lparr>channel := m\<rparr>" "in_transit M m = []"
    "is_closed M m" "capacity_of M m = capacity_of M (channel s)"
    by (rule hang_up_elim)
  have "stream_ok M s'" using assms(3) run by (auto simp: stream_ok_def)
  moreover have "stream_rel s' t" using assms(4) run by (simp add: stream_rel_def)
  ultimately show ?thesis using run(2) by blast
qed

text \<open>A round of the stream is a round of the task.\<close>

lemma push_open: "sends p = [] \<Longrightarrow> push x p = (True, p\<lparr>sent := sent p @ [x]\<rparr>)"
  by (cases p) (simp add: push_def)

lemma unblocked_rel: "blocked s = None \<Longrightarrow> stream_rel s (task s)"
  by (cases "task s") (simp add: stream_rel_def settle_def)

lemma start_round_keeps [simp]:
  "sent (pump (start_round head p)) = sent p" "sends (pump (start_round head p)) = sends p"
  "phase p \<noteq> Finished \<Longrightarrow> phase (pump (start_round head p)) \<noteq> Finished"
  by (simp_all add: start_round_def)

lemma wake_ok:
  assumes "stream_act E W M Wake l s = Some (l', s')" and "stream_ok M s" and "stream_rel s t"
  shows "l' = l \<and> stream_ok M s' \<and> stream_rel s' (task s') \<and> t = \<lparr>pump = pump t, in_round = None\<rparr> \<and>
    phase (pump t) = Waiting \<and>
    (\<exists>w. bus l (pump_quote (pump t)) = Some w \<and> has_changed W w (rx_watch (pump t)) \<and>
       task s' = \<lparr>pump = (pump t)\<lparr>rx_watch := mark_seen W w (rx_watch (pump t)), phase := CatchingUp\<rparr>, in_round = None\<rparr>)"
proof -
  let ?p = "pump (task s)"
  from assms(1) obtain w where run: "blocked s = None" "in_round (task s) = None" "l' = l" "phase ?p = Waiting"
    "bus l (pump_quote ?p) = Some w" "has_changed W w (rx_watch ?p)"
    and s': "s' = s\<lparr>task := (task s)\<lparr>pump := ?p\<lparr>rx_watch := mark_seen W w (rx_watch ?p), phase := CatchingUp\<rparr>\<rparr>\<rparr>"
    by (rule wake_elim)
  have "t = \<lparr>pump = ?p, in_round = None\<rparr>" using assms(3) run by (simp add: stream_rel_def settle_def)
  moreover have "stream_ok M s'" using assms(2) run by (simp add: s' stream_ok_def)
  moreover have "task s' = \<lparr>pump = ?p\<lparr>rx_watch := mark_seen W w (rx_watch ?p), phase := CatchingUp\<rparr>, in_round = None\<rparr>"
    using run(2) by (simp add: s')
  ultimately show ?thesis using run unblocked_rel [of s'] by (simp add: s')
qed

lemma begin_ok:
  assumes "stream_act E W M BeginRound l s = Some (l', s')" and "stream_ok M s" and "stream_rel s t"
  shows "l' = l \<and> stream_ok M s' \<and> stream_rel s' (task s') \<and> t = \<lparr>pump = pump t, in_round = None\<rparr> \<and>
    phase (pump t) = CatchingUp \<and>
    (\<exists>w. bus l (pump_quote (pump t)) = Some w \<and> task s' = start_round (borrow W w) (pump t))"
proof -
  let ?p = "pump (task s)"
  from assms(1) obtain w where run: "blocked s = None" "in_round (task s) = None" "l' = l" "phase ?p = CatchingUp"
    "bus l (pump_quote ?p) = Some w" and s': "s' = s\<lparr>task := start_round (borrow W w) ?p\<rparr>"
    by (rule begin_elim)
  have "t = \<lparr>pump = ?p, in_round = None\<rparr>" using assms(3) run by (simp add: stream_rel_def settle_def)
  moreover have "stream_ok M s'" using assms(2) run by (simp add: s' stream_ok_def)
  ultimately show ?thesis using run unblocked_rel [of s'] by (simp add: s')
qed

lemma answer_ok:
  assumes "stream_ok M s" and "blocked s = None" and "phase (pump (task s)) \<noteq> Finished"
  shows "stream_ok M (answer head r s) \<and>
    stream_rel (answer head r s) \<lparr>pump = deliver head r (pump (task s)), in_round = None\<rparr>"
proof -
  have "sends (pump (task s)) = []" using assms(1) by (simp add: stream_ok_def)
  note push = push_open [OF this]
  show ?thesis
    using assms
    by (auto simp: answer_def deliver_def push stream_ok_def stream_rel_def settle_def Let_def split: sum.splits)
qed

lemma attempt_ok:
  assumes "stream_act E W M AttemptRound l s = Some (l', s')" and "stream_ok M s" and "stream_rel s t"
  shows "\<exists>rd t'. t = \<lparr>pump = pump (task s), in_round = Some rd\<rparr> \<and>
    attempt_round E rd l (pump (task s)) = (l', t') \<and> stream_ok M s' \<and> stream_rel s' t'"
proof -
  let ?p = "pump (task s)"
  from assms(1,2) obtain rd r where rd: "in_round (task s) = Some rd" and s: "blocked s = None" "phase ?p \<noteq> Finished"
    and load: "attempt_load E rd ?p l = (l', r)"
    and s': "s' = (case r of Inl rd' \<Rightarrow> s\<lparr>task := (task s)\<lparr>in_round := Some rd'\<rparr>\<rparr> | Inr r \<Rightarrow> answer (round_head rd) r s)"
    by (rule attempt_elim)
  from s have t: "t = \<lparr>pump = ?p, in_round = Some rd\<rparr>"
    using assms(3) rd by (simp add: stream_rel_def settle_def)
  show ?thesis
  proof (cases r)
    case (Inl rd')
    then have "stream_ok M s'" "stream_rel s' \<lparr>pump = ?p, in_round = Some rd'\<rparr>"
      using assms(2) s by (simp_all add: s' stream_ok_def stream_rel_def settle_def)
    with t Inl load show ?thesis by (simp add: attempt_round_def)
  next
    case (Inr x)
    with answer_ok [OF assms(2) s] have "stream_ok M s'"
      "stream_rel s' \<lparr>pump = deliver (round_head rd) x ?p, in_round = None\<rparr>"
      by (simp_all add: s')
    with t Inr load show ?thesis by (simp add: attempt_round_def)
  qed
qed

definition service_rel :: "'m MpscOps \<Rightarrow> ('w, 'r, 'm) Service \<Rightarrow> ('w, 'r) Concurrent \<Rightarrow> bool" where
  "service_rel M S F \<longleftrightarrow>
     mpsc_ok M \<and> no_tasks (base S) \<and>
     (\<exists>ts. F = (base S)\<lparr>tasks := ts\<rparr> \<and> length ts = length (streams S) \<and>
       (\<forall>i < length (streams S). stream_ok M (streams S ! i) \<and> stream_rel (streams S ! i) (ts ! i)))"

lemma service_relD:
  assumes "service_rel M S F"
  shows "tasks (base S) = []" "shared F = shared (base S)" "subscribing F = subscribing (base S)"
    "\<forall>R \<in> set (subscribing F). reg_sends R = []" "length (tasks F) = length (streams S)"
    "i < length (streams S) \<Longrightarrow> stream_ok M (streams S ! i)"
    "i < length (streams S) \<Longrightarrow> stream_rel (streams S ! i) (tasks F ! i)" "mpsc_ok M"
  using assms by (auto simp: service_rel_def no_tasks_def)

lemma no_tasks_cstep:
  assumes "cstep E W B B'" and "tasks B = []" and "tasks B' = []"
  shows "cstep E W (B\<lparr>tasks := ts\<rparr>) (B'\<lparr>tasks := ts\<rparr>)"
  using assms(1)
proof cases
  case (enter j)
  then show ?thesis using cstep.enter [of E W "B\<lparr>tasks := ts\<rparr>" j] by (cases B) simp
next
  case enter_malformed
  then show ?thesis using cstep.enter_malformed [of E W "B\<lparr>tasks := ts\<rparr>"] by (cases B) simp
next
  case (refuse_malformed n)
  then show ?thesis using cstep.refuse_malformed [of "B\<lparr>tasks := ts\<rparr>" n E W] by (cases B) simp
next
  case (commit before j behind cs c)
  then show ?thesis using cstep.commit [of "B\<lparr>tasks := ts\<rparr>" before j behind E cs c W] by (cases B) simp
next
  case (refuse before j behind e c)
  then show ?thesis using cstep.refuse [of "B\<lparr>tasks := ts\<rparr>" before j behind E e c W] by (cases B) simp
next
  case (publish before q head behind)
  then show ?thesis using cstep.publish [of "B\<lparr>tasks := ts\<rparr>" before q head behind E W] by (cases B) simp
next
  case (cancel_running before j behind)
  then show ?thesis using cstep.cancel_running [of "B\<lparr>tasks := ts\<rparr>" before j behind E W] by (cases B) simp
next
  case (cancel_finishing before x behind)
  then show ?thesis using cstep.cancel_finishing [of "B\<lparr>tasks := ts\<rparr>" before x behind E W] by (cases B) simp
next
  case (orphan_runs before j behind r c)
  then show ?thesis using cstep.orphan_runs [of "B\<lparr>tasks := ts\<rparr>" before j behind E r c W] by (cases B) simp
next
  case (read q after init c bs)
  then show ?thesis using cstep.read [of E q after "B\<lparr>tasks := ts\<rparr>" init c W bs] by (cases B) simp
next
  case (read_fails q after e c)
  then show ?thesis using cstep.read_fails [of E q after "B\<lparr>tasks := ts\<rparr>" e c W] by (cases B) simp
next
  case (cancel_subscribing before R behind)
  then show ?thesis using cstep.cancel_subscribing [of "B\<lparr>tasks := ts\<rparr>" before R behind E W] by (cases B) simp
qed (use assms(2,3) in simp_all)

lemma service_rel_stream:
  assumes "service_rel M S F" and "i < length (streams S)" and "stream_ok M s" and "stream_rel s t"
  shows "service_rel M (S\<lparr>base := (base S)\<lparr>shared := l\<rparr>, streams := (streams S)[i := s]\<rparr>)
    (F\<lparr>shared := l, tasks := (tasks F)[i := t]\<rparr>)"
proof -
  from assms(1) obtain ts where ts: "F = (base S)\<lparr>tasks := ts\<rparr>" "length ts = length (streams S)"
    "\<forall>i < length (streams S). stream_ok M (streams S ! i) \<and> stream_rel (streams S ! i) (ts ! i)" "no_tasks (base S)"
    by (auto simp: service_rel_def)
  have "F\<lparr>shared := l, tasks := (tasks F)[i := t]\<rparr> = (base S)\<lparr>shared := l, tasks := ts[i := t]\<rparr>"
    by (cases "base S") (simp add: ts(1))
  with ts assms(2-4) service_relD(8) [OF assms(1)] show ?thesis
    by (auto simp: service_rel_def no_tasks_def nth_list_update intro!: exI [of _ "ts[i := t]"])
qed

lemma task_simulated:
  assumes "service_rel M S F" and "i < length (streams S)"
    and "cstep E W F (F\<lparr>shared := l, tasks := (tasks F)[i := t]\<rparr>)" and "stream_ok M s" and "stream_rel s t"
  shows "\<exists>F'. (cstep E W)\<^sup>*\<^sup>* F F' \<and>
    service_rel M (S\<lparr>base := (base S)\<lparr>shared := l\<rparr>, streams := (streams S)[i := s]\<rparr>) F'"
  using service_rel_stream [OF assms(1,2,4,5)] assms(3) by blast

lemma wake_simulated:
  assumes rel: "service_rel M S F" and i: "i < length (streams S)"
    and act: "stream_act E W M Wake (shared (base S)) (streams S ! i) = Some (l, s)"
  shows "\<exists>F'. (cstep E W)\<^sup>*\<^sup>* F F' \<and>
    service_rel M (S\<lparr>base := (base S)\<lparr>shared := l\<rparr>, streams := (streams S)[i := s]\<rparr>) F'"
proof -
  let ?t = "tasks F ! i"
  note relD = service_relD [OF rel]
  from wake_ok [OF act relD(6,7) [OF i]] obtain w where b: "l = shared F" "stream_ok M s" "stream_rel s (task s)"
    and t: "?t = \<lparr>pump = pump ?t, in_round = None\<rparr>" "phase (pump ?t) = Waiting" "bus (shared F) (pump_quote (pump ?t)) = Some w"
      "has_changed W w (rx_watch (pump ?t))"
      "task s = \<lparr>pump = (pump ?t)\<lparr>rx_watch := mark_seen W w (rx_watch (pump ?t)), phase := CatchingUp\<rparr>, in_round = None\<rparr>"
    by (auto simp: relD(2))
  have len: "i < length (tasks F)" using i relD(5) by simp
  have "cstep E W F (F\<lparr>tasks := (tasks F)[i := task s]\<rparr>)"
    unfolding t(5) by (rule cstep.wake [OF len t(1-4)])
  moreover have "F\<lparr>shared := l\<rparr> = F" using b(1) by simp
  ultimately show ?thesis by (intro task_simulated [OF rel i _ b(2,3)]) simp
qed

lemma begin_simulated:
  assumes rel: "service_rel M S F" and i: "i < length (streams S)"
    and act: "stream_act E W M BeginRound (shared (base S)) (streams S ! i) = Some (l, s)"
  shows "\<exists>F'. (cstep E W)\<^sup>*\<^sup>* F F' \<and>
    service_rel M (S\<lparr>base := (base S)\<lparr>shared := l\<rparr>, streams := (streams S)[i := s]\<rparr>) F'"
proof -
  let ?t = "tasks F ! i"
  note relD = service_relD [OF rel]
  from begin_ok [OF act relD(6,7) [OF i]] obtain w where b: "l = shared F" "stream_ok M s" "stream_rel s (task s)"
    and t: "?t = \<lparr>pump = pump ?t, in_round = None\<rparr>" "phase (pump ?t) = CatchingUp" "bus (shared F) (pump_quote (pump ?t)) = Some w"
      "task s = start_round (borrow W w) (pump ?t)"
    by (auto simp: relD(2))
  have len: "i < length (tasks F)" using i relD(5) by simp
  have "cstep E W F (F\<lparr>tasks := (tasks F)[i := task s]\<rparr>)"
    unfolding t(4) by (rule cstep.look [OF len t(1-3)])
  moreover have "F\<lparr>shared := l\<rparr> = F" using b(1) by simp
  ultimately show ?thesis by (intro task_simulated [OF rel i _ b(2,3)]) simp
qed

lemma act_simulated:
  assumes rel: "service_rel M S F" and i: "i < length (streams S)"
    and act: "stream_act E W M a (shared (base S)) (streams S ! i) = Some (l, s)"
  shows "\<exists>F'. (cstep E W)\<^sup>*\<^sup>* F F' \<and>
    service_rel M (S\<lparr>base := (base S)\<lparr>shared := l\<rparr>, streams := (streams S)[i := s]\<rparr>) F'"
proof -
  note relD = service_relD [OF rel] and ok = service_relD(6,7) [OF rel i]
  have still: ?thesis if "l = shared (base S) \<and> stream_ok M s \<and> stream_rel s (tasks F ! i)"
  proof -
    have "F\<lparr>shared := l, tasks := (tasks F)[i := tasks F ! i]\<rparr> = F" using that relD(2) by (cases F) simp
    with service_rel_stream [OF rel i, of s "tasks F ! i" l] that show ?thesis by auto
  qed
  show ?thesis
  proof (cases a)
    case Wake
    from wake_simulated [OF rel i act [unfolded Wake]] show ?thesis .
  next
    case BeginRound
    from begin_simulated [OF rel i act [unfolded BeginRound]] show ?thesis .
  next
    case AttemptRound
    from attempt_ok [OF act [unfolded AttemptRound] ok] obtain rd t' where
      t: "tasks F ! i = \<lparr>pump = pump (task (streams S ! i)), in_round = Some rd\<rparr>"
        "attempt_round E rd (shared F) (pump (task (streams S ! i))) = (l, t')" "stream_ok M s" "stream_rel s t'"
      by (auto simp: relD(2))
    with i relD(5) show ?thesis by (intro task_simulated [OF rel i cstep.attempt]) simp_all
  next
    case Accept
    from accept_ok [OF act [unfolded Accept] relD(8) ok] show ?thesis by (rule still)
  next
    case Reject
    from reject_ok [OF act [unfolded Reject] ok] show ?thesis by (rule still)
  next
    case Receive
    from receive_ok [OF act [unfolded Receive] relD(8) ok] show ?thesis by (rule still)
  next
    case HangUp
    from hang_up_ok [OF act [unfolded HangUp] relD(8) ok] show ?thesis by (rule still)
  qed
qed

lemma opens_simulated:
  assumes rel: "service_rel M S F" and sub: "subscribing (base S) = before @ R # behind"
    and run: "register W (reg_quote R) (init_last_seq (reg_init R)) (shared (base S)) = (rx, l)"
  shows "\<exists>F'. cstep E W F F' \<and> service_rel M (S\<lparr>base := (base S)\<lparr>shared := l, subscribing := before @ behind\<rparr>,
    streams := streams S @ [open_stream M (reg_init R) (new_pump (reg_quote R) (reg_after R) rx [])]\<rparr>) F'"
proof -
  let ?t = "\<lparr>pump = pump_start (reg_init R) (new_pump (reg_quote R) (reg_after R) rx []), in_round = None\<rparr>"
  let ?F = "F\<lparr>shared := l, subscribing := before @ behind, tasks := tasks F @ [?t]\<rparr>"
  have F: "subscribing F = subscribing (base S)" "shared F = shared (base S)" "reg_sends R = []"
    using service_relD(2-4) [OF rel] sub by simp_all
  have "cstep E W F ?F" using cstep.register [of F before R behind W rx l E] sub run by (simp add: F)
  moreover have "service_rel M (S\<lparr>base := (base S)\<lparr>shared := l, subscribing := before @ behind\<rparr>,
      streams := streams S @ [open_stream M (reg_init R) (new_pump (reg_quote R) (reg_after R) rx [])]\<rparr>) ?F"
  proof -
    from rel obtain ts where ts: "F = (base S)\<lparr>tasks := ts\<rparr>" "length ts = length (streams S)"
      "\<forall>i < length (streams S). stream_ok M (streams S ! i) \<and> stream_rel (streams S ! i) (ts ! i)" "no_tasks (base S)"
      by (auto simp: service_rel_def)
    have "?F = (base S)\<lparr>shared := l, subscribing := before @ behind, tasks := ts @ [?t]\<rparr>"
      by (cases "base S") (simp add: ts(1))
    with ts sub open_stream_ok [of M "reg_init R" "reg_quote R" "reg_after R" rx] service_relD(8) [OF rel] show ?thesis
      by (auto simp: service_rel_def no_tasks_def nth_append less_Suc_eq intro!: exI [of _ "ts @ [?t]"])
  qed
  ultimately show ?thesis by blast
qed

interpretation channels: simulation "dstep E W M" "cstep E W" "service_rel M" for E W M
proof
  fix S F S'
  assume rel: "service_rel M S F" and "dstep E W M S S'"
  from this(2) show "\<exists>F'. (cstep E W)\<^sup>*\<^sup>* F F' \<and> service_rel M S' F'"
  proof cases
    case (on_shared B)
    have "cstep E W F (B\<lparr>tasks := tasks F\<rparr>)"
      using no_tasks_cstep [OF on_shared(2), of "tasks F"] on_shared(3) service_relD [OF rel] rel
      by (auto simp: service_rel_def no_tasks_def)
    moreover have "service_rel M S' (B\<lparr>tasks := tasks F\<rparr>)"
      using rel on_shared by (auto simp: service_rel_def intro!: exI [of _ "tasks F"])
    ultimately show ?thesis by blast
  next
    case (opens before R behind rx l)
    from opens_simulated [OF rel opens(2,3)] show ?thesis unfolding opens(1) by blast
  next
    case (acts i a l s)
    from act_simulated [OF rel acts(2,3)] show ?thesis unfolding acts(1) .
  qed
qed

section \<open>Reachable services\<close>

lemma dreachable_run: "dreachable E W M c0 S \<Longrightarrow> (dstep E W M)\<^sup>*\<^sup>* (start_service c0) S"
  by (induction rule: dreachable.induct) (auto intro: rtranclp.rtrancl_into_rtrancl)

lemma dsteps_reachable: "(dstep E W M)\<^sup>*\<^sup>* S S' \<Longrightarrow> dreachable E W M c0 S \<Longrightarrow> dreachable E W M c0 S'"
  by (induction rule: rtranclp_induct) (auto intro: dreachable.next_step)

lemma service_rel_start: "mpsc_ok M \<Longrightarrow> service_rel M (start_service c0) (start_concurrent c0)"
  by (auto simp: service_rel_def start_service_def start_concurrent_def no_tasks_def)

lemma dreachable_rel:
  assumes "dreachable E W M c0 S" and "mpsc_ok M"
  obtains F where "creachable E W c0 F" and "service_rel M S F"
  using channels.run_matched [OF dreachable_run [OF assms(1)] service_rel_start [OF assms(2)]] csteps_reachable [OF _ creachable.start]
  by blast

lemma stream_rel_keeps:
  fixes s :: "('r, 'm) Stream"
  assumes "stream_ok M s" and "stream_rel s t"
  shows "prefix (delivered s) (sent (pump t)) \<and> prefix (sent (pump (task s))) (sent (pump t)) \<and>
    pump_quote (pump t) = pump_quote (pump (task s)) \<and> pump_after (pump t) = pump_after (pump (task s))"
proof -
  have settled: "prefix (sent p) (sent (settled k (p\<lparr>sent := sent p @ [x]\<rparr>))) \<and>
      pump_quote (settled k (p\<lparr>sent := sent p @ [x]\<rparr>)) = pump_quote p \<and>
      pump_after (settled k (p\<lparr>sent := sent p @ [x]\<rparr>)) = pump_after p" for k and p :: "'r Pump" and x
    by (cases k) simp_all
  have "prefix (sent (pump (task s))) (sent (pump t)) \<and> pump_quote (pump t) = pump_quote (pump (task s)) \<and>
      pump_after (pump t) = pump_after (pump (task s))"
    using assms(2) settled by (auto simp: stream_rel_def settle_def split: if_splits option.splits)
  moreover have "prefix (delivered s) (sent (pump (task s)))"
    using assms(1) by (auto simp: stream_ok_def split: if_splits)
  ultimately show ?thesis by (auto intro: prefix_order.trans)
qed

text \<open>What was delivered is a beginning of what the task of the refined model sent.\<close>

lemma stored_events_split:
  assumes "us @ vs = stored_events q n xs"
  obtains ys zs where "xs = ys @ zs" and "us = stored_events q n ys" and "vs = stored_events q (n + length ys) zs"
proof -
  have len: "length (stored_events q m es) = length es" for m es by (simp add: stored_events_def)
  let ?ys = "take (length us) xs" and ?zs = "drop (length us) xs"
  have "length us \<le> length xs" using arg_cong [OF assms, of length] len by simp
  moreover have "us @ vs = stored_events q n ?ys @ stored_events q (n + length ?ys) ?zs"
    using assms by (simp only: append_take_drop_id flip: stored_events_append)
  ultimately show ?thesis using that [of ?ys ?zs] len [of n ?ys] by simp
qed

lemma chain_end_received:
  assumes "chain_end a us \<noteq> None" and "\<forall>x \<in> set us. exact_tail x"
    and "received us = stored_events q (Suc a) xs" and "a + length xs < 2 ^ 63"
  shows "chain_end a us = Some (a + length xs)"
  using assms
proof (induction us arbitrary: a xs)
  case (Cons x us)
  show ?case
  proof (cases "\<exists>u t. x = Inr u \<and> update_kind u = Some (Tail t)")
    case False
    then have "received us = stored_events q (Suc a) xs" "chain_end a (x # us) \<noteq> None \<longrightarrow> chain_end a (x # us) = chain_end a us"
      using Cons.prems(3) by (cases x; auto split: option.splits UpdateKind.splits)+
    with Cons.prems Cons.IH [of a xs] show ?thesis by auto
  next
    case True
    then obtain u t where x: "x = Inr u" "update_kind u = Some (Tail t)" by blast
    with Cons.prems(1) have t: "tail_events t \<noteq> []" "unat (from_seq_exclusive t) = a"
      "chain_end (unat (to_seq_inclusive t)) us \<noteq> None"
      by (auto split: if_splits)
    have "tail_events t @ received us = stored_events q (Suc a) xs" using Cons.prems(3) x by simp
    then obtain ys zs where split: "xs = ys @ zs" "tail_events t = stored_events q (Suc a) ys"
      "received us = stored_events q (Suc a + length ys) zs"
      by (rule stored_events_split)
    have "to_seq_inclusive t = seq (last (tail_events t))" using Cons.prems(2) x t(1) by (simp add: exact_tail_def)
    then have "unat (to_seq_inclusive t) = a + length ys"
      using last_stored_events [of ys "Suc a" q] split(1,2) t(1) Cons.prems(4) by simp
    with t x split Cons.prems(2,4) Cons.IH [of "a + length ys" zs] show ?thesis by simp
  qed
qed (metis add.right_neutral chain_end.simps(1) list.size(3) received.simps(1) stored_events_Nil)

lemma chain_end_prefix: "prefix us vs \<Longrightarrow> chain_end a vs \<noteq> None \<Longrightarrow> chain_end a us \<noteq> None"
proof (induction us arbitrary: a vs)
  case (Cons x us)
  then obtain ws where vs: "vs = x # us @ ws" by (auto simp: prefix_def)
  show ?case
  proof (cases x)
    case (Inl st)
    with Cons.prems(2) vs show ?thesis by (auto split: if_splits)
  next
    case (Inr u)
    with Cons.prems(2) Cons.IH [of "us @ ws"] vs show ?thesis
      by (auto split: option.splits UpdateKind.splits if_splits)
  qed
qed simp

lemma feed_prefix:
  assumes ok: "feed_ok es p" and us: "prefix us (sent p)" "\<forall>x \<in> set us. exact_tail x" and len: "length es < 2 ^ 63"
    and a: "a = unat (pump_after p)"
  shows "\<exists>m. a \<le> m \<and> m \<le> length es \<and> chain_end a us = Some m \<and>
    received us = stored_events (pump_quote p) (Suc a) (drop a (take m es))"
proof -
  from ok a obtain n where n: "chain_end a (sent p) = Some n" "a \<le> n" "n \<le> length es"
    "received (sent p) = stored_events (pump_quote p) (Suc a) (drop a (take n es))"
    by (auto simp: feed_ok_def)
  from us(1) obtain vs where "sent p = us @ vs" by (auto simp: prefix_def)
  with n(4) have "received us @ received vs = stored_events (pump_quote p) (Suc a) (drop a (take n es))" by simp
  then obtain ys zs where split: "drop a (take n es) = ys @ zs" "received us = stored_events (pump_quote p) (Suc a) ys"
    by (rule stored_events_split)
  have l: "length ys \<le> n - a" using arg_cong [OF split(1), of length] n(3) by simp
  have "ys = take (length ys) (drop a (take n es))" by (simp add: split(1))
  also have "\<dots> = drop a (take (a + length ys) es)"
    using l n(2) by (simp add: take_drop min_def add.commute)
  finally have ys: "ys = drop a (take (a + length ys) es)" .
  have "chain_end a us = Some (a + length ys)"
    using chain_end_prefix [OF us(1)] n(1) us(2) split(2) l n(2,3) len by (intro chain_end_received) simp_all
  with split(2) ys l n(2,3) show ?thesis by (intro exI [of _ "a + length ys"]) simp
qed

text \<open>What a client has received is a part of the history.\<close>

lemma delivered_gapless:
  assumes "ledger_inv E c0" and "watch_ok W" and "dreachable E W M c0 S" and "s \<in> set (streams S)"
    and "p = pump (task s)" and "es = history_of E (conn (shared (base S))) (pump_quote p)" and "a = unat (pump_after p)"
    and "mpsc_ok M"
  shows "\<exists>m. a \<le> m \<and> m \<le> length es \<and> chain_end a (delivered s) = Some m \<and>
    received (delivered s) = stored_events (pump_quote p) (Suc a) (drop a (take m es))"
proof -
  from dreachable_rel [OF assms(3,8)] obtain F where F: "creachable E W c0 F" "service_rel M S F" .
  from assms(4) obtain i where i: "i < length (streams S)" "s = streams S ! i" by (auto simp: in_set_conv_nth)
  let ?t = "tasks F ! i"
  have s: "stream_ok M s" "stream_rel s ?t" and t: "?t \<in> set (tasks F)" "shared F = shared (base S)"
    using service_relD [OF F(2)] i by simp_all
  note keeps = stream_rel_keeps [OF s]
  have "conc_inv E W F" using creachable_inv [OF assms(1,2) F(1)] by blast
  then have "feed_ok es (pump ?t)" and inv: "ledger_inv E (conn (shared F))"
    using t keeps assms(5,6) by (auto simp: conc_inv_def conc_ok_def task_ok_def Let_def)
  moreover have "\<forall>x \<in> set (delivered s). exact_tail x"
    using s(1) by (auto simp: stream_ok_def prefix_def split: if_splits)
  moreover have "length es < 2 ^ 63" using ledger_inv_length [OF inv] assms(6) t(2) by simp
  ultimately show ?thesis using feed_prefix [of es "pump ?t" "delivered s" a] keeps assms(5,7) by simp
qed

section \<open>Schedules\<close>

datatype DAction = Shared CAction | OpenStream | Act nat StreamAction

fun dact :: "External \<Rightarrow> ('w, 'r) WatchOps \<Rightarrow> 'm MpscOps \<Rightarrow> DAction \<Rightarrow> ('w, 'r, 'm) Service \<Rightarrow> ('w, 'r, 'm) Service option" where
  "dact E W M (Shared a) S =
     (case cact E W a (base S) of
        None \<Rightarrow> None
      | Some B \<Rightarrow> if no_tasks B then Some (S\<lparr>base := B\<rparr>) else None)"
| "dact E W M OpenStream S =
     (case subscribing (base S) of
        [] \<Rightarrow> None
      | R # behind \<Rightarrow>
          (case register W (reg_quote R) (init_last_seq (reg_init R)) (shared (base S)) of
             (rx, l) \<Rightarrow> Some (S\<lparr>base := (base S)\<lparr>shared := l, subscribing := behind\<rparr>,
               streams := streams S @ [open_stream M (reg_init R) (new_pump (reg_quote R) (reg_after R) rx [])]\<rparr>)))"
| "dact E W M (Act i a) S =
     (if i < length (streams S) then
        (case stream_act E W M a (shared (base S)) (streams S ! i) of
           None \<Rightarrow> None
         | Some (l, s) \<Rightarrow> Some (S\<lparr>base := (base S)\<lparr>shared := l\<rparr>, streams := (streams S)[i := s]\<rparr>))
      else None)"

lemma dact_dstep: "dact E W M a S = Some S' \<Longrightarrow> dstep E W M S S'"
  by (cases a)
    (auto split: option.splits if_splits list.splits prod.splits
      intro: dstep.on_shared dstep.acts dstep.opens [where before = "[]", simplified] dest: cact_cstep)

fun drun :: "External \<Rightarrow> ('w, 'r) WatchOps \<Rightarrow> 'm MpscOps \<Rightarrow> DAction list \<Rightarrow> ('w, 'r, 'm) Service \<Rightarrow> ('w, 'r, 'm) Service option" where
  "drun E W M [] S = Some S"
| "drun E W M (a # as) S = (case dact E W M a S of None \<Rightarrow> None | Some S' \<Rightarrow> drun E W M as S')"

lemma drun_dsteps: "drun E W M as S = Some S' \<Longrightarrow> (dstep E W M)\<^sup>*\<^sup>* S S'"
  by (induction "as" arbitrary: S)
    (auto split: option.splits dest: dact_dstep intro: converse_rtranclp_into_rtranclp)

lemma drun_reachable: "drun E W M as (start_service c) = Some S \<Longrightarrow> dreachable E W M c S"
  by (rule dsteps_reachable [OF drun_dsteps dreachable.start])

text \<open>A client that reads the opening late, when the next event is committed already\<close>

definition slow_schedule :: "DAction list" where
  "slow_schedule =
     [Shared (Enter \<lparr>job_quote = ''q'', job_key = ''k1'', job_command = CreateQuote ''USD'' ''US''\<rparr>),
      Shared RunJob, Shared Conclude, Shared (ReadQuote ''q'' 0), OpenStream,
      Act 0 Accept, Act 0 Accept, Act 0 BeginRound,
      Shared (Enter \<lparr>job_quote = ''q'', job_key = ''k2'', job_command = AddLineItem ''L1'' ''S'' ''D'' 1 1\<rparr>),
      Shared RunJob, Shared Conclude, Act 0 Receive, Act 0 Wake, Act 0 BeginRound, Act 0 AttemptRound,
      Act 0 Accept,
      Act 0 Receive]"

definition slow_start :: "(u64 \<times> nat, nat, nat \<times> bool \<times> Message list) Service" where
  "slow_start = start_service (fresh_db [])"

section \<open>Properties\<close>

text \<open>
  C13: The service with its bounded channels refines the service whose sends succeed at once: each
  of its states has a reachable counterpart there, with the same ledger and the same streams, in
  which every client's deliveries are a beginning of what its task has sent.
\<close>

theorem bounded_channels_refine:
  assumes "dreachable E W M c0 S" and "mpsc_ok M"
  shows "\<exists>F. creachable E W c0 F \<and> shared F = shared (base S) \<and> length (tasks F) = length (streams S) \<and>
    (\<forall>i < length (streams S).
       let p = pump (task (streams S ! i)); p' = pump (tasks F ! i) in
       prefix (delivered (streams S ! i)) (sent p') \<and> pump_quote p' = pump_quote p \<and> pump_after p' = pump_after p)"
proof -
  from dreachable_rel [OF assms] obtain F where F: "creachable E W c0 F" "service_rel M S F" .
  have "prefix (delivered (streams S ! i)) (sent (pump (tasks F ! i))) \<and>
      pump_quote (pump (tasks F ! i)) = pump_quote (pump (task (streams S ! i))) \<and>
      pump_after (pump (tasks F ! i)) = pump_after (pump (task (streams S ! i)))" if "i < length (streams S)" for i
    using stream_rel_keeps [OF service_relD(6,7) [OF F(2) that]] by blast
  with F service_relD(2,5) [OF F(2)] show ?thesis by (auto simp: Let_def)
qed

lemma slow_run:
  obtains S s where "drun sample_external sample_watch sample_mpsc slow_schedule slow_start = Some S"
    and "dreachable sample_external sample_watch sample_mpsc (fresh_db []) S" and "streams S = [s]"
    and "length (delivered s) = 2" and "length (queue sample_mpsc s) = 1" and "\<not> hung_up sample_mpsc s"
    and "pump_quote (pump (task s)) = ''q''" and "pump_after (pump (task s)) = 0"
    and "List.map seq (received (delivered s)) = [1]"
    and "history_of sample_external (conn (shared (base S))) ''q'' =
      [QuoteCreated ''USD'' ''US'', LineItemAdded ''L1'' ''S'' ''D'' 1 1]"
proof -
  have "map_option (\<lambda>S. (List.map (\<lambda>s. (length (delivered s), length (queue sample_mpsc s), hung_up sample_mpsc s, pump_quote (pump (task s)),
        pump_after (pump (task s)), List.map seq (received (delivered s)))) (streams S),
        history_of sample_external (conn (shared (base S))) ''q''))
      (drun sample_external sample_watch sample_mpsc slow_schedule slow_start) =
      Some ([(2, 1, False, ''q'', 0, [1])], [QuoteCreated ''USD'' ''US'', LineItemAdded ''L1'' ''S'' ''D'' 1 1])"
    by code_simp
  then obtain S where run: "drun sample_external sample_watch sample_mpsc slow_schedule slow_start = Some S"
    and S: "List.map (\<lambda>s. (length (delivered s), length (queue sample_mpsc s), hung_up sample_mpsc s, pump_quote (pump (task s)),
        pump_after (pump (task s)), List.map seq (received (delivered s)))) (streams S) = [(2, 1, False, ''q'', 0, [1])]"
      "history_of sample_external (conn (shared (base S))) ''q'' =
        [QuoteCreated ''USD'' ''US'', LineItemAdded ''L1'' ''S'' ''D'' 1 1]"
    by auto
  from S(1) obtain s where "streams S = [s]" "length (delivered s) = 2" "length (queue sample_mpsc s) = 1" "\<not> hung_up sample_mpsc s"
    "pump_quote (pump (task s)) = ''q''" "pump_after (pump (task s)) = 0" "List.map seq (received (delivered s)) = [1]"
    by (auto simp: map_eq_Cons_conv)
  with run S(2) drun_reachable [OF run [unfolded slow_start_def]] show ?thesis by (intro that)
qed

theorem bounded_channels_refine_witness:
  "\<exists>F S. drun sample_external sample_watch sample_mpsc slow_schedule slow_start = Some S \<and>
     creachable sample_external sample_watch (fresh_db []) F \<and> shared F = shared (base S) \<and>
     prefix (delivered (streams S ! 0)) (sent (pump (tasks F ! 0)))"
proof (rule slow_run)
  fix S s
  assume "drun sample_external sample_watch sample_mpsc slow_schedule slow_start = Some S" "streams S = [s]"
    and "dreachable sample_external sample_watch sample_mpsc (fresh_db []) S"
  with bounded_channels_refine [OF this(3) sample_mpsc_ok] show ?thesis by (auto simp: Let_def)
qed

text \<open>
  C2: What a client has taken off its channel is, at every moment and however slow it reads,
  exactly the committed events \<open>a + 1\<close> to some \<open>m\<close> of its quote, each once and in order, in tails
  that start where the one before ended.
\<close>

theorem client_receives_gapless:
  assumes "ledger_inv E c0" and "watch_ok W" and "dreachable E W M c0 S" and "s \<in> set (streams S)"
    and "p = pump (task s)" and "es = history_of E (conn (shared (base S))) (pump_quote p)" and "a = unat (pump_after p)"
    and "mpsc_ok M"
  shows "\<exists>m. a \<le> m \<and> m \<le> length es \<and> chain_end a (delivered s) = Some m \<and>
    received (delivered s) = stored_events (pump_quote p) (Suc a) (drop a (take m es))"
  by (rule delivered_gapless [OF assms])

theorem client_receives_gapless_witness:
  "\<exists>S. drun sample_external sample_watch sample_mpsc slow_schedule slow_start = Some S \<and>
     received (delivered (streams S ! 0)) = stored_events ''q'' 1 [QuoteCreated ''USD'' ''US'']"
proof (rule slow_run)
  fix S s
  assume S: "drun sample_external sample_watch sample_mpsc slow_schedule slow_start = Some S" "streams S = [s]"
    "dreachable sample_external sample_watch sample_mpsc (fresh_db []) S" "pump_quote (pump (task s)) = ''q''"
    "pump_after (pump (task s)) = 0" "List.map seq (received (delivered s)) = [1]"
    "history_of sample_external (conn (shared (base S))) ''q'' =
      [QuoteCreated ''USD'' ''US'', LineItemAdded ''L1'' ''S'' ''D'' 1 1]"
  from client_receives_gapless [OF ledger_inv_fresh [OF sample_codec_ok] sample_watch_ok S(3) _ refl refl refl sample_mpsc_ok, of s] S(1,2,4,5,7)
  obtain m where m: "m \<le> 2" "received (delivered s) =
      stored_events ''q'' 1 (take m [QuoteCreated ''USD'' ''US'', LineItemAdded ''L1'' ''S'' ''D'' 1 1])"
    by (auto simp: numeral_2_eq_2)
  have "length (received (delivered s)) = 1" using arg_cong [OF S(6), of length] by simp
  with m have "m = 1" by (simp add: stored_events_def)
  with m S(1,2) show ?thesis by simp
qed

end
