(* ===== verification/Row_Types.thy ===== *)
theory Row_Types
  imports Bounded_Channel
begin

text \<open>
  The table of events is well typed in every reachable state of the service: each row holds a
  domain event, under the name of its kind and a positive number, and the primary key is unique.
\<close>

lemma row_of_rows_from:
  "r \<in> set (rows_from E q n evs) \<Longrightarrow>
   \<exists>ev i. ev \<in> set evs \<and> n \<le> i \<and> i < n + length evs \<and> row_seq r = of_nat i \<and>
     row_event_type r = event_type_for ev \<and> row_payload r = payload_of E ev"
proof (induction evs arbitrary: n)
  case (Cons ev evs)
  show ?case
  proof (cases "r \<in> set (rows_from E q (Suc n) evs)")
    case True
    from Cons.IH [OF this] obtain e i where "e \<in> set evs" "Suc n \<le> i" "i < Suc n + length evs" "row_seq r = of_nat i"
      "row_event_type r = event_type_for e" "row_payload r = payload_of E e" by blast
    then show ?thesis by (intro exI [of _ e] exI [of _ i]) simp
  next
    case False
    with Cons.prems show ?thesis by (intro exI [of _ ev] exI [of _ n]) simp
  qed
qed simp

lemma distinct_by_group:
  "(\<And>q. distinct (List.map f (filter (\<lambda>r. g r = q) xs))) \<Longrightarrow> distinct (List.map (\<lambda>r. (g r, f r)) xs)"
proof (induction xs)
  case (Cons x xs)
  have "distinct (List.map f (filter (\<lambda>r. g r = q) xs))" for q
    using Cons.prems [of q] by (simp split: if_splits)
  moreover have "f x \<notin> f ` {r \<in> set xs. g r = g x}" using Cons.prems [of "g x"] by simp
  ultimately show ?case using Cons.IH by auto
qed simp

lemma quote_rows_of_inv:
  assumes "ledger_inv E c"
  shows "quote_rows c q = rows_from E q 1 (List.map domain_event_to_proto (history_of E c q)) \<and>
    length (history_of E c q) < 2 ^ 63"
  using store_inv_rows [of E c q] ledger_inv_history [OF assms] ledger_inv_length [OF assms, of q]
  by (simp add: db_inv_def)

lemma rows_typed:
  assumes inv: "ledger_inv E c" and r: "r \<in> set (events c)"
  shows "\<exists>ev. ev \<in> set (history_of E c (row_quote_id r)) \<and> decode_event E (row_payload r) = Inr (domain_event_to_proto ev) \<and>
    row_event_type r = event_type_for (domain_event_to_proto ev) \<and> 1 \<le> sint (row_seq r)"
proof -
  note rows = quote_rows_of_inv [OF inv, of "row_quote_id r"]
  have "r \<in> set (quote_rows c (row_quote_id r))" using r by (simp add: quote_rows_def)
  with rows obtain ev i where ev: "ev \<in> set (history_of E c (row_quote_id r))" "1 \<le> i"
      "i < 1 + length (history_of E c (row_quote_id r))" "row_seq r = of_nat i"
      "row_event_type r = event_type_for (domain_event_to_proto ev)" "row_payload r = payload_of E (domain_event_to_proto ev)"
    by (auto dest!: row_of_rows_from)
  moreover from ev(2,3) rows have "sint (row_seq r) = int i" by (simp add: ev(4) sint_of_nat_i64)
  moreover have "codec_ok E" using ledger_inv_history(3) [OF inv] by (simp add: db_inv_def)
  ultimately show ?thesis by (auto simp: codec_decode)
qed

lemma rows_keyed:
  assumes inv: "ledger_inv E c"
  shows "distinct (List.map (\<lambda>r. (row_quote_id r, row_seq r)) (events c))"
proof (rule distinct_by_group)
  fix q
  note rows = quote_rows_of_inv [OF inv, of q]
  let ?n = "length (history_of E c q)"
  have "List.map row_seq (quote_rows c q) = List.map of_nat [1 ..< 1 + ?n]"
    using rows by (simp add: rows_from_seq)
  moreover have "inj_on (of_nat :: nat \<Rightarrow> i64) (set [1 ..< 1 + ?n])"
  proof (rule inj_onI)
    fix a b
    assume "a \<in> set [1 ..< 1 + ?n]" "b \<in> set [1 ..< 1 + ?n]" and eq: "(of_nat a :: i64) = of_nat b"
    then have "a \<le> ?n" "b \<le> ?n" by auto
    with rows have "a < 2 ^ 63" "b < 2 ^ 63" by (meson le_less_trans)+
    with arg_cong [OF eq, of sint] show "a = b" by (simp add: sint_of_nat_i64)
  qed
  ultimately show "distinct (List.map row_seq (filter (\<lambda>r. row_quote_id r = q) (events c)))"
    by (simp add: distinct_map flip: quote_rows_def)
qed

lemma dreachable_ledger:
  assumes "ledger_inv E c0" and "watch_ok W" and "dreachable E W M c0 S" and "mpsc_ok M"
  shows "ledger_inv E (conn (shared (base S)))"
proof -
  from dreachable_rel [OF assms(3,4)] obtain F where F: "creachable E W c0 F" "service_rel M S F" .
  with creachable_inv [OF assms(1,2) F(1)] service_relD(2) [OF F(2)] show ?thesis
    by (simp add: conc_inv_def conc_ok_def)
qed

section \<open>Properties\<close>

text \<open>
  C16: The events table is well typed in every reachable state: the payload of each row decodes to a
  domain event of its quote's history, the \<open>event_type\<close> column names the kind of that event, the
  number is positive, and no two rows have the same quote and number.
\<close>

theorem rows_well_typed:
  assumes "ledger_inv E c0" and "watch_ok W" and "dreachable E W M c0 S" and "c = conn (shared (base S))"
    and "r \<in> set (events c)" and "mpsc_ok M"
  shows "distinct (List.map (\<lambda>r. (row_quote_id r, row_seq r)) (events c)) \<and> 1 \<le> sint (row_seq r) \<and>
    (\<exists>ev. ev \<in> set (history_of E c (row_quote_id r)) \<and>
       decode_event E (row_payload r) = Inr (domain_event_to_proto ev) \<and>
       row_event_type r = event_type_for (domain_event_to_proto ev))"
proof -
  have "ledger_inv E c" using dreachable_ledger [OF assms(1-3,6)] assms(4) by simp
  from rows_keyed [OF this] rows_typed [OF this assms(5)] show ?thesis by blast
qed

theorem rows_well_typed_witness:
  "\<exists>S r. drun sample_external sample_watch sample_mpsc slow_schedule slow_start = Some S \<and>
     r \<in> set (events (conn (shared (base S)))) \<and> 1 \<le> sint (row_seq r)"
proof (rule slow_run)
  fix S s
  assume S: "drun sample_external sample_watch sample_mpsc slow_schedule slow_start = Some S"
    "dreachable sample_external sample_watch sample_mpsc (fresh_db []) S"
    "history_of sample_external (conn (shared (base S))) ''q'' =
      [QuoteCreated ''USD'' ''US'', LineItemAdded ''L1'' ''S'' ''D'' 1 1]"
  then have "events (conn (shared (base S))) \<noteq> []"
    by (auto simp: history_of_def log_of_def quote_rows_def)
  then obtain r where r: "r \<in> set (events (conn (shared (base S))))" by (cases "events (conn (shared (base S)))") auto
  from rows_well_typed [OF ledger_inv_fresh [OF sample_codec_ok] sample_watch_ok S(2) refl r sample_mpsc_ok] r S(1) show ?thesis by blast
qed

end
