(* ===== verification/Stream_Delivery.thy ===== *)
theory Stream_Delivery
  imports Bounded_Channel
begin

text \<open>
  What the steps of one stream achieve, when its client reads and nothing else happens: they come
  to an end, and then the client has every event up to the published head.  And what they do not
  achieve: a task whose client is gone is only released by a later event of its quote.
\<close>

section \<open>The steps of one stream\<close>

inductive own :: "External \<Rightarrow> ('w, 'r) WatchOps \<Rightarrow> 'm MpscOps \<Rightarrow> nat \<Rightarrow> ('w, 'r, 'm) Service \<Rightarrow> ('w, 'r, 'm) Service \<Rightarrow> bool"
  for E :: External and W :: "('w, 'r) WatchOps" and M :: "'m MpscOps" and i :: nat where
  "i < length (streams S) \<Longrightarrow> a \<noteq> HangUp \<Longrightarrow>
    stream_act E W M a (shared (base S)) (streams S ! i) = Some (l, s) \<Longrightarrow>
    own E W M i S (S\<lparr>base := (base S)\<lparr>shared := l\<rparr>, streams := (streams S)[i := s]\<rparr>)"

inductive_cases ownE: "own E W M i S S'"

lemma own_dstep: "own E W M i S S' \<Longrightarrow> dstep E W M S S'"
  by (auto elim: ownE intro: dstep.acts)

text \<open>A bound on the steps that are left\<close>

fun send_work :: "AfterSend \<Rightarrow> nat" where
  "send_work (ThenSnapshot init) = 4"
| "send_work k = 2"

fun opening_send :: "AfterSend \<Rightarrow> bool" where
  "opening_send (ThenSnapshot init) = True"
| "opening_send (ThenCatchUp n) = True"
| "opening_send k = False"

definition round_work :: "('r, 'm) Stream \<Rightarrow> nat" where
  "round_work s =
     (case in_round (task s) of
        Some rd \<Rightarrow> 3 + (8 - round_attempt rd)
      | None \<Rightarrow>
          if phase (pump (task s)) = CatchingUp \<and> (case blocked s of None \<Rightarrow> True | Some (x, k) \<Rightarrow> opening_send k)
          then 12 else 0)"

definition wake_work :: "('w, 'r) WatchOps \<Rightarrow> 'w Ledger \<Rightarrow> 'r Pump \<Rightarrow> nat" where
  "wake_work W l p =
     (case bus l (pump_quote p) of
        Some w \<Rightarrow> if phase p \<noteq> Finished \<and> has_changed W w (rx_watch p) then 13 else 0
      | None \<Rightarrow> 0)"

definition work :: "'m MpscOps \<Rightarrow> ('w, 'r) WatchOps \<Rightarrow> 'w Ledger \<Rightarrow> ('r, 'm) Stream \<Rightarrow> nat" where
  "work M W l s =
     length (queue M s) + (case blocked s of None \<Rightarrow> 0 | Some (x, k) \<Rightarrow> send_work k) + round_work s +
     wake_work W l (pump (task s))"

definition listening :: "('w, 'r) WatchOps \<Rightarrow> 'w Ledger \<Rightarrow> 'r Pump \<Rightarrow> bool" where
  "listening W l p \<longleftrightarrow>
     (phase p \<noteq> Finished \<longrightarrow> (\<exists>w. bus l (pump_quote p) = Some w \<and> receiver_of W w (rx_watch p)))"

text \<open>A stream that is still to send its snapshot has sent nothing, so the bound is 60.\<close>

lemma work_bound:
  assumes "stream_ok M s"
  shows "work M W l s \<le> 60"
proof -
  have q: "length (queue M s) \<le> 32" using assms by (simp add: stream_ok_def CHANNEL_CAPACITY_def)
  have r: "round_work s \<le> 12" by (auto simp: round_work_def split: option.split)
  have w: "wake_work W l (pump (task s)) \<le> 13" by (auto simp: wake_work_def split: option.split)
  show ?thesis
  proof (cases "\<exists>x init. blocked s = Some (x, ThenSnapshot init)")
    case True
    with assms have "queue M s = []" by (auto simp: stream_ok_def split: if_splits)
    with True r w show ?thesis by (auto simp: work_def)
  next
    case False
    have "send_work k \<le> 2" if "blocked s = Some (x, k)" for x k using False that by (cases k) auto
    then have "(case blocked s of None \<Rightarrow> 0 | Some (x, k) \<Rightarrow> send_work k) \<le> 2" by (auto split: option.split)
    with q r w show ?thesis by (simp add: work_def)
  qed
qed

lemma wake_work_finish [simp]: "wake_work W l (finish p) = 0"
  by (simp add: wake_work_def split: option.split)

lemma wake_work_same [simp]:
  "wake_work W l (p\<lparr>watermark := n\<rparr>) = wake_work W l p" "wake_work W l (p\<lparr>sent := us\<rparr>) = wake_work W l p"
  by (simp_all add: wake_work_def split: option.split)

lemma wake_work_waiting: "phase p \<noteq> Finished \<Longrightarrow> wake_work W l (p\<lparr>phase := Waiting\<rparr>) = wake_work W l p"
  by (simp add: wake_work_def split: option.split)

lemma listening_same [simp]:
  "listening W l (p\<lparr>watermark := n\<rparr>) = listening W l p" "listening W l (p\<lparr>sent := us\<rparr>) = listening W l p"
  "listening W l (finish p)"
  by (simp_all add: listening_def)

lemma listening_waiting: "phase p \<noteq> Finished \<Longrightarrow> listening W l (p\<lparr>phase := Waiting\<rparr>) = listening W l p"
  by (simp add: listening_def)

lemma attempt_load_keeps:
  assumes "attempt_load E rd p l = (l', r)"
  shows "bus l' = bus l \<and> (\<forall>rd'. r = Inl rd' \<longrightarrow> round_attempt rd' = Suc (round_attempt rd) \<and> round_attempt rd < 7)"
  using assms
  by (auto simp: attempt_load_def on_db_def sleep_ms_def Let_def SUBSCRIBE_DB_MAX_ATTEMPTS_def
      split: prod.splits sum.splits if_splits)

lemma accept_work:
  assumes "stream_act E W M Accept l s = Some (l', s')" and "mpsc_ok M" and "stream_ok M s" and "listening W l (pump (task s))"
  shows "work M W l' s' < work M W l s \<and> listening W l' (pump (task s'))"
proof -
  from assms(1-3) obtain x k p b m where run: "blocked s = Some (x, k)" "l' = l"
    "resume k ((pump (task s))\<lparr>sent := sent (pump (task s)) @ [x]\<rparr>) = (p, b)"
    "s' = s\<lparr>task := (task s)\<lparr>pump := p\<rparr>, blocked := b, channel := m\<rparr>" "in_transit M m = queue M s @ [x]"
    by (rule accept_elim)
  moreover from assms(3) run(1) have "in_round (task s) = None" "phase (pump (task s)) \<noteq> Finished"
    by (auto simp: stream_ok_def)
  ultimately show ?thesis using assms(4)
    by (cases k)
      (auto simp: work_def round_work_def wake_work_waiting listening_waiting split: option.splits)
qed

lemma reject_work:
  assumes "stream_act E W M Reject l s = Some (l', s')"
  shows "work M W l' s' < work M W l s \<and> listening W l' (pump (task s'))"
proof -
  have "0 < send_work k" for k by (cases k) simp_all
  with assms show ?thesis by (auto simp: work_def round_work_def split: if_splits option.split)
qed

lemma receive_work:
  assumes "stream_act E W M Receive l s = Some (l', s')" and "mpsc_ok M" and "listening W l (pump (task s))"
  shows "work M W l' s' < work M W l s \<and> listening W l' (pump (task s'))"
proof -
  from assms(1,2) obtain x m where run: "queue M s = x # in_transit M m" "l' = l"
    "s' = s\<lparr>channel := m, delivered := delivered s @ [x]\<rparr>" by (rule receive_elim)
  with assms(3) show ?thesis by (simp add: work_def round_work_def split: option.split)
qed

lemma wake_step_work:
  assumes W: "watch_ok W" and act: "stream_act E W M Wake l s = Some (l', s')"
    and listen: "listening W l (pump (task s))"
  shows "work M W l' s' < work M W l s \<and> listening W l' (pump (task s'))"
proof -
  let ?p = "pump (task s)"
  from act obtain w where run: "blocked s = None" "in_round (task s) = None" "l' = l" "phase ?p = Waiting"
    "bus l (pump_quote ?p) = Some w" "has_changed W w (rx_watch ?p)"
    "s' = s\<lparr>task := (task s)\<lparr>pump := ?p\<lparr>rx_watch := mark_seen W w (rx_watch ?p), phase := CatchingUp\<rparr>\<rparr>\<rparr>"
    by (rule wake_elim)
  have "receiver_of W w (rx_watch ?p)" using listen run(4,5) by (auto simp: listening_def)
  then have "\<not> has_changed W w (mark_seen W w (rx_watch ?p))" "receiver_of W w (mark_seen W w (rx_watch ?p))"
    using W by (simp_all add: watch_ok_def)
  with run show ?thesis by (simp add: work_def round_work_def wake_work_def listening_def)
qed

lemma begin_work:
  assumes act: "stream_act E W M BeginRound l s = Some (l', s')" and listen: "listening W l (pump (task s))"
  shows "work M W l' s' < work M W l s \<and> listening W l' (pump (task s'))"
proof -
  let ?p = "pump (task s)"
  from act obtain w where run: "blocked s = None" "in_round (task s) = None" "l' = l" "phase ?p = CatchingUp"
    "bus l (pump_quote ?p) = Some w" "s' = s\<lparr>task := start_round (borrow W w) ?p\<rparr>"
    by (rule begin_elim)
  with listen show ?thesis
    by (auto simp: work_def round_work_def wake_work_def listening_def start_round_def)
qed

lemma attempt_work:
  assumes "stream_act E W M AttemptRound l s = Some (l', s')" and "stream_ok M s" and "listening W l (pump (task s))"
  shows "work M W l' s' < work M W l s \<and> listening W l' (pump (task s'))"
proof -
  let ?p = "pump (task s)"
  from assms(1,2) obtain rd r where rd: "in_round (task s) = Some rd" and s: "blocked s = None" "phase ?p \<noteq> Finished"
    and load: "attempt_load E rd ?p l = (l', r)"
    and s': "s' = (case r of Inl rd' \<Rightarrow> s\<lparr>task := (task s)\<lparr>in_round := Some rd'\<rparr>\<rparr> | Inr r \<Rightarrow> answer (round_head rd) r s)"
    by (rule attempt_elim)
  note keeps = attempt_load_keeps [OF load]
  have wake: "wake_work W l' p = wake_work W l p" "listening W l' p = listening W l p" for p :: "'b Pump"
    using keeps by (simp_all add: wake_work_def listening_def)
  show ?thesis
  proof (cases r)
    case (Inl rd')
    with keeps have n: "round_attempt rd' = Suc (round_attempt rd)" "round_attempt rd < 7" by auto
    then have "8 - round_attempt rd' < 8 - round_attempt rd" by simp
    with Inl rd s s' assms(3) show ?thesis by (simp add: work_def round_work_def wake)
  next
    case (Inr x)
    with rd s s' assms(3) show ?thesis
      by (cases x)
        (auto simp: answer_def Let_def work_def round_work_def wake wake_work_waiting listening_waiting)
  qed
qed

lemma own_work:
  assumes "watch_ok W" and "a \<noteq> HangUp" and "stream_act E W M a l s = Some (l', s')" and "stream_ok M s"
    and "listening W l (pump (task s))" and "mpsc_ok M"
  shows "work M W l' s' < work M W l s \<and> listening W l' (pump (task s'))"
proof (cases a)
  case Accept
  with assms show ?thesis using accept_work by blast
next
  case Reject
  with assms show ?thesis using reject_work by blast
next
  case Receive
  with assms show ?thesis using receive_work by blast
next
  case Wake
  with assms show ?thesis using wake_step_work by blast
next
  case BeginRound
  with assms show ?thesis using begin_work by blast
next
  case AttemptRound
  with assms show ?thesis using attempt_work by blast
qed (use assms(2) in simp)

text \<open>In reachable states the task listens to the channel of its quote.\<close>

lemma dreachable_stream:
  assumes "ledger_inv E c0" and "watch_ok W" and "dreachable E W M c0 S" and "i < length (streams S)" and "mpsc_ok M"
  obtains t where "stream_ok M (streams S ! i)" and "stream_rel (streams S ! i) t"
    and "task_ok E W (shared (base S)) t" and "bus_ok E W (shared (base S))"
    and "ledger_inv E (conn (shared (base S)))"
proof -
  from dreachable_rel [OF assms(3,5)] obtain F where F: "creachable E W c0 F" "service_rel M S F" .
  note rel = service_relD [OF F(2)]
  have "conc_inv E W F" using creachable_inv [OF assms(1,2) F(1)] by blast
  then have "task_ok E W (shared (base S)) (tasks F ! i)" "bus_ok E W (shared (base S))" "ledger_inv E (conn (shared (base S)))"
    using rel(2,5) assms(4) by (simp_all add: conc_inv_def conc_ok_def)
  with that rel(6,7) [OF assms(4)] show ?thesis by blast
qed

lemma settle_rx [simp]:
  "pump_quote (settle s) = pump_quote (pump (task s))" "rx_watch (settle s) = rx_watch (pump (task s))"
proof -
  have "pump_quote (settled k p) = pump_quote p \<and> rx_watch (settled k p) = rx_watch p" for k and p :: "'a Pump"
    by (cases k) (simp_all add: finish_def)
  then show "pump_quote (settle s) = pump_quote (pump (task s))" "rx_watch (settle s) = rx_watch (pump (task s))"
    by (simp_all add: settle_def split: option.split prod.split)
qed

lemma dreachable_listening:
  assumes "ledger_inv E c0" and "watch_ok W" and "dreachable E W M c0 S" and "i < length (streams S)" and "mpsc_ok M"
  shows "stream_ok M (streams S ! i) \<and> listening W (shared (base S)) (pump (task (streams S ! i)))"
proof -
  from dreachable_stream [OF assms] obtain t where t: "stream_ok M (streams S ! i)" "stream_rel (streams S ! i) t"
    "task_ok E W (shared (base S)) t" by blast
  have "\<exists>w. bus (shared (base S)) (pump_quote (pump t)) = Some w \<and> receiver_of W w (rx_watch (pump t))"
    using t(3) by (auto simp: task_ok_def waiting_ok_def hears_def Let_def split: option.splits)
  with t(1,2) show ?thesis by (auto simp: listening_def stream_rel_def)
qed

lemma own_runs:
  assumes "ledger_inv E c0" and "watch_ok W" and "dreachable E W M c0 S" and "(own E W M i ^^ n) S S'"
    and "mpsc_ok M"
  shows "dreachable E W M c0 S' \<and>
    (0 < n \<longrightarrow> n + work M W (shared (base S')) (streams S' ! i) \<le> work M W (shared (base S)) (streams S ! i) \<and> i < length (streams S))"
  using assms(4)
proof (induction n arbitrary: S')
  case 0
  with assms(3) show ?case by simp
next
  case (Suc n)
  then obtain S1 where S1: "(own E W M i ^^ n) S S1" "own E W M i S1 S'" by auto
  from Suc.IH [OF S1(1)] have reach: "dreachable E W M c0 S1"
    and n: "0 < n \<longrightarrow> n + work M W (shared (base S1)) (streams S1 ! i) \<le> work M W (shared (base S)) (streams S ! i) \<and> i < length (streams S)"
    by blast+
  from S1(2) have "work M W (shared (base S')) (streams S' ! i) < work M W (shared (base S1)) (streams S1 ! i)"
    "i < length (streams S1)"
    using own_work [OF assms(2) _ _ _ _ assms(5)] dreachable_listening [OF assms(1,2) reach _ assms(5)] by (auto elim!: ownE)
  moreover have "S1 = S" if "n = 0" using S1(1) that by simp
  ultimately show ?case
    using n dreachable.next_step [OF reach own_dstep [OF S1(2)]] by (cases "n = 0") auto
qed

section \<open>A client that reads\<close>

text \<open>The client is there, and its task has not given up.\<close>

definition is_served :: "'m MpscOps \<Rightarrow> ('r, 'm) Stream \<Rightarrow> bool" where
  "is_served M s \<longleftrightarrow>
     \<not> hung_up M s \<and> phase (pump (task s)) \<noteq> Finished \<and>
     (case blocked s of None \<Rightarrow> True | Some (x, k) \<Rightarrow> \<not> isl x \<and> k \<noteq> ThenReturn)"

text \<open>No step of the stream is possible but the client's going away.\<close>

definition idle :: "External \<Rightarrow> ('w, 'r) WatchOps \<Rightarrow> 'm MpscOps \<Rightarrow> nat \<Rightarrow> ('w, 'r, 'm) Service \<Rightarrow> bool" where
  "idle E W M i S \<longleftrightarrow>
     list_all (\<lambda>a. Option.is_none (stream_act E W M a (shared (base S)) (streams S ! i)))
       [Accept, Reject, Receive, Wake, BeginRound, AttemptRound]"

definition serves ::
  "External \<Rightarrow> ('w, 'r) WatchOps \<Rightarrow> 'm MpscOps \<Rightarrow> rstring \<Rightarrow> u64 \<Rightarrow> DomainEvent list \<Rightarrow> 'w Ledger \<Rightarrow> ('r, 'm) Stream \<Rightarrow> bool" where
  "serves E W M q a es l s \<longleftrightarrow>
     is_served M s \<and> pump_quote (pump (task s)) = q \<and> pump_after (pump (task s)) = a \<and>
     healthy (conn l) \<and> history_of E (conn l) q = es \<and>
     (\<exists>w. bus l q = Some w \<and> unat (borrow W w) = length es)"

lemma attempt_load_healthy:
  assumes "ledger_inv E (conn l)" and "healthy (conn l)" and "unat (watermark p) < unat (round_head rd)"
    and "unat (round_head rd) < 2 ^ 63" and "attempt_load E rd p l = (l', r)"
  shows "\<exists>chunk. r = Inr (Inr chunk) \<and> conn l' = advance (conn l) \<and> bus l' = bus l"
proof -
  have "outcome (conn l) = None" using assms(2) by (rule healthy_outcome)
  with load_between_history [OF assms(1,3,4)] assms(5) show ?thesis
    by (auto simp: attempt_load_def on_db_def sleep_ms_def Let_def split: if_splits)
qed

lemma resume_serves:
  assumes "resume k p = (p', b)" and "k \<noteq> ThenReturn" and "phase p \<noteq> Finished"
  shows "phase p' \<noteq> Finished \<and> pump_quote p' = pump_quote p \<and> pump_after p' = pump_after p \<and>
    (\<forall>x j. b = Some (x, j) \<longrightarrow> \<not> isl x \<and> j \<noteq> ThenReturn)"
  using assms by (cases k) auto

lemma act_serves:
  assumes inv: "ledger_inv E (conn l)" and rel: "stream_ok M s" "stream_rel s t" "task_ok E W l t"
    and a: "a \<noteq> HangUp" and act: "stream_act E W M a l s = Some (l', s')" and s: "serves E W M q n es l s"
    and M: "mpsc_ok M"
  shows "serves E W M q n es l' s'"
proof (cases a)
  case Accept
  from act [unfolded Accept] M rel(1) obtain x k p b m where run: "blocked s = Some (x, k)" "l' = l"
    "resume k ((pump (task s))\<lparr>sent := sent (pump (task s)) @ [x]\<rparr>) = (p, b)"
    "s' = s\<lparr>task := (task s)\<lparr>pump := p\<rparr>, blocked := b, channel := m\<rparr>" "\<not> is_closed M m"
    by (rule accept_elim)
  with s resume_serves [OF run(3)] show ?thesis
    by (auto simp: serves_def is_served_def split: option.split)
next
  case Reject
  with act s show ?thesis by (auto simp: serves_def is_served_def split: if_splits)
next
  case Receive
  from act [unfolded Receive] M obtain x m where "l' = l" "s' = s\<lparr>channel := m, delivered := delivered s @ [x]\<rparr>"
    "is_closed M m = hung_up M s" by (rule receive_elim)
  with s show ?thesis by (simp add: serves_def is_served_def)
next
  case Wake
  with act s show ?thesis by (auto simp: serves_def is_served_def Let_def split: if_splits option.splits)
next
  case BeginRound
  with act s show ?thesis
    by (auto simp: serves_def is_served_def start_round_def Let_def split: if_splits option.splits)
next
  case AttemptRound
  let ?p = "pump (task s)"
  from act [unfolded AttemptRound] rel(1) obtain rd r where rd: "in_round (task s) = Some rd"
    and b: "blocked s = None" "phase ?p \<noteq> Finished" and load: "attempt_load E rd ?p l = (l', r)"
    and s': "s' = (case r of Inl rd' \<Rightarrow> s\<lparr>task := (task s)\<lparr>in_round := Some rd'\<rparr>\<rparr> | Inr r \<Rightarrow> answer (round_head rd) r s)"
    by (rule attempt_elim)
  from b rel(2) rd have "t = \<lparr>pump = ?p, in_round = Some rd\<rparr>" by (simp add: stream_rel_def settle_def)
  with rel(3) have h: "unat (watermark ?p) < unat (round_head rd)"
    "unat (round_head rd) \<le> length (history_of E (conn l) (pump_quote ?p))"
    by (simp_all add: task_ok_def Let_def)
  have "unat (round_head rd) < 2 ^ 63" using h(2) ledger_inv_length [OF inv, of "pump_quote ?p"] by simp
  from attempt_load_healthy [OF inv _ h(1) this load] s obtain chunk where
    r: "r = Inr (Inr chunk)" "conn l' = advance (conn l)" "bus l' = bus l"
    by (auto simp: serves_def)
  with s b show ?thesis
    by (auto simp: s' serves_def is_served_def answer_def Let_def)
qed (use a in simp)

lemma own_serves:
  assumes "ledger_inv E c0" and "watch_ok W" and "dreachable E W M c0 S" and "(own E W M i)\<^sup>*\<^sup>* S S'"
    and "i < length (streams S)" and "serves E W M q n es (shared (base S)) (streams S ! i)" and "mpsc_ok M"
  shows "dreachable E W M c0 S' \<and> i < length (streams S') \<and> serves E W M q n es (shared (base S')) (streams S' ! i)"
  using assms(4)
proof (induction rule: rtranclp_induct)
  case base
  with assms show ?case by blast
next
  case (step S1 S2)
  then have S1: "dreachable E W M c0 S1" "i < length (streams S1)" "serves E W M q n es (shared (base S1)) (streams S1 ! i)"
    by blast+
  from dreachable_stream [OF assms(1,2) S1(1,2) assms(7)] obtain t where t: "stream_ok M (streams S1 ! i)"
    "stream_rel (streams S1 ! i) t" "task_ok E W (shared (base S1)) t" "ledger_inv E (conn (shared (base S1)))" .
  from step(2) have "i < length (streams S2) \<and> serves E W M q n es (shared (base S2)) (streams S2 ! i)"
    using act_serves [OF t(4,1,2,3) _ _ S1(3) assms(7)] by (auto elim!: ownE)
  with dreachable.next_step [OF S1(1) own_dstep [OF step(2)]] show ?case by blast
qed

lemma idle_served:
  assumes "idle E W M i S" and "is_served M (streams S ! i)" and "bus (shared (base S)) (pump_quote (pump (task (streams S ! i)))) = Some w"
    and "mpsc_ok M" and "stream_ok M (streams S ! i)"
  shows "queue M (streams S ! i) = [] \<and> blocked (streams S ! i) = None \<and> in_round (task (streams S ! i)) = None \<and>
    phase (pump (task (streams S ! i))) = Waiting \<and> \<not> has_changed W w (rx_watch (pump (task (streams S ! i))))"
proof -
  let ?s = "streams S ! i" and ?l = "shared (base S)"
  have acts: "stream_act E W M a ?l ?s = None" if "a \<in> {Accept, Receive, Wake, BeginRound, AttemptRound}" for a
    using assms(1) that by (auto simp: idle_def Option.is_none_def)
  have q: "queue M ?s = []" using acts [of Receive] mpsc_received [OF assms(4), of "channel ?s"] by (auto split: option.splits)
  then have "can_send M (channel ?s)"
    using assms(2,5) mpsc_can_send [OF assms(4)] by (simp add: is_served_def stream_ok_def CHANNEL_CAPACITY_def)
  then have b: "blocked ?s = None" using acts [of Accept] by (auto split: option.splits prod.splits)
  have r: "in_round (task ?s) = None"
    using acts [of AttemptRound] by (auto split: option.splits prod.splits sum.splits)
  have "phase (pump (task ?s)) = Waiting"
    using acts [of BeginRound] assms(2,3) b r
    by (cases "phase (pump (task ?s))") (auto simp: is_served_def Let_def split: if_splits)
  moreover from this have "\<not> has_changed W w (rx_watch (pump (task ?s)))"
    using acts [of Wake] assms(3) b r by (auto simp: Let_def split: if_splits)
  ultimately show ?thesis using q b r by blast
qed

section \<open>A client that is gone\<close>

lemma finalized_created: "quote_inv s \<Longrightarrow> finalized s \<Longrightarrow> is_created s"
  by (auto simp: quote_inv_def is_created_def split: option.splits)

text \<open>The history of a finalized quote does not grow.\<close>

lemma final_history_stays:
  assumes "good_history es'" and "prefix es es'" and "replay es = Inr s" and "finalized s" and "quote_inv s"
  shows "es' = es"
proof (rule ccontr)
  assume "es' \<noteq> es"
  with assms(2) obtain r where r: "es' = es @ r" "r \<noteq> []" by (auto simp: prefix_def)
  then obtain ev evs where es': "es' = es @ ev # evs" by (cases r) simp_all
  have "\<exists>e. reduce s ev = Inl e" using finalized_created [OF assms(5,4)] assms(4) by (cases ev) simp_all
  then obtain e where "reduce s ev = Inl e" by blast
  then have "replay es' = Inl e" using assms(3) by (simp add: es' replay_def try_fold_append)
  with assms(1) show False by (simp add: good_history_def)
qed

lemma dstep_histories:
  assumes "ledger_inv E c0" and "watch_ok W" and "dreachable E W M c0 S" and "dstep E W M S S'" and "mpsc_ok M"
  shows "ledger_inv E (conn (shared (base S'))) \<and> hist_le E (conn (shared (base S))) (conn (shared (base S')))"
proof -
  from dreachable_rel [OF assms(3,5)] obtain F where F: "creachable E W c0 F" "service_rel M S F" .
  from channels.step_matched [OF F(2) assms(4)] obtain F' where F': "(cstep E W)\<^sup>*\<^sup>* F F'" "service_rel M S' F'" by blast
  have "creachable E W c0 F'" by (rule csteps_reachable [OF F'(1) F(1)])
  moreover have "hist_le E (conn (shared F)) (conn (shared F'))"
    using awaits.run_ok [OF F'(1)] creachable_inv [OF assms(1,2) F(1)] assms(2) by blast
  ultimately show ?thesis
    using creachable_inv [OF assms(1,2), of F'] service_relD(2) [OF F(2)] service_relD(2) [OF F'(2)]
    by (simp add: conc_inv_def conc_ok_def)
qed

text \<open>A task that waits at the head of its quote, for a client that is gone\<close>

definition lingers :: "External \<Rightarrow> 'm MpscOps \<Rightarrow> Message list \<Rightarrow> DomainEvent list \<Rightarrow> 'w Ledger \<Rightarrow> ('r, 'm) Stream \<Rightarrow> bool" where
  "lingers E M us es l s \<longleftrightarrow>
     hung_up M s \<and> blocked s = None \<and> in_round (task s) = None \<and> phase (pump (task s)) \<noteq> Finished \<and>
     sent (pump (task s)) = us \<and> history_of E (conn l) (pump_quote (pump (task s))) = es \<and> unat (watermark (pump (task s))) = length es"

lemma act_lingers:
  assumes "stream_ok M s" and "bus_ok E W l" and "lingers E M us es l s" and "stream_act E W M a l s = Some (l', s')"
    and "mpsc_ok M"
  shows "l' = l \<and> lingers E M us es l s'"
proof (cases a)
  case BeginRound
  from assms(4) [unfolded BeginRound] obtain w where w: "bus l (pump_quote (pump (task s))) = Some w"
    and s': "l' = l" "s' = s\<lparr>task := start_round (borrow W w) (pump (task s))\<rparr>"
    by (rule begin_elim)
  have "unat (borrow W w) \<le> unat (watermark (pump (task s)))"
    using assms(2,3) w by (auto simp: bus_ok_def lingers_def)
  with assms(3) s' show ?thesis by (simp add: lingers_def start_round_def)
next
  case Receive
  with assms mpsc_received [OF assms(5), of "channel s"] show ?thesis
    by (auto simp: lingers_def stream_ok_def split: option.splits prod.splits)
qed (use assms in \<open>auto simp: lingers_def stream_ok_def Let_def split: option.splits if_splits\<close>)

lemma dstep_lingers:
  assumes inv: "ledger_inv E c0" and W: "watch_ok W" and reach: "dreachable E W M c0 S" and step: "dstep E W M S S'"
    and i: "i < length (streams S)" and lingers: "lingers E M us es (shared (base S)) (streams S ! i)"
    and final: "replay es = Inr st" "finalized st" and M: "mpsc_ok M"
  shows "i < length (streams S') \<and> lingers E M us es (shared (base S')) (streams S' ! i)"
proof -
  let ?q = "pump_quote (pump (task (streams S ! i)))"
  from dreachable_stream [OF inv W reach i M] have s: "stream_ok M (streams S ! i)" "bus_ok E W (shared (base S))"
    "ledger_inv E (conn (shared (base S)))" by blast+
  note hist = dstep_histories [OF inv W reach step M]
  have "good_history es" using ledger_inv_history(2) [OF s(3)] lingers by (auto simp: lingers_def)
  then have "quote_inv st" using final(1) by (simp add: good_history_def)
  moreover have "good_history (history_of E (conn (shared (base S'))) ?q)"
    "prefix es (history_of E (conn (shared (base S'))) ?q)"
    using hist ledger_inv_history(2) lingers by (auto simp: hist_le_def lingers_def)
  ultimately have same: "history_of E (conn (shared (base S'))) ?q = es"
    using final_history_stays final by blast
  then have moved: "lingers E M us es (shared (base S')) (streams S ! i)" using lingers by (simp add: lingers_def)
  from step show ?thesis
  proof cases
    case (on_shared B)
    with i moved show ?thesis by simp
  next
    case (opens before R behind rx l)
    with i moved show ?thesis by (simp add: nth_append)
  next
    case (acts j a l s')
    with i moved act_lingers [OF s(1,2) lingers _ M] show ?thesis by (cases "j = i") auto
  qed
qed

section \<open>Properties\<close>

text \<open>
  C15: When nothing else happens, the task of a stream and its client come to rest: from a reachable
  state no run of their own steps (sends, reads, rounds and the at most eight attempts of a
  round) is longer than 60.
\<close>

theorem own_steps_end:
  assumes "ledger_inv E c0" and "watch_ok W" and "dreachable E W M c0 S" and "(own E W M i ^^ n) S S'"
    and "mpsc_ok M"
  shows "n \<le> 60"
proof (cases "n = 0")
  case False
  with own_runs [OF assms] have n: "n + work M W (shared (base S')) (streams S' ! i) \<le> work M W (shared (base S)) (streams S ! i)"
    "i < length (streams S)"
    by auto
  then have "stream_ok M (streams S ! i)" using dreachable_listening [OF assms(1-3)] assms(5) by blast
  from work_bound [OF this] n(1) show ?thesis by (meson add_leE order_trans)
qed simp

lemma act_own: "dact E W M (Act i a) S = Some S' \<Longrightarrow> a \<noteq> HangUp \<Longrightarrow> own E W M i S S'"
  by (auto split: if_splits option.splits prod.splits intro: own.intros)

lemma acts_own:
  "drun E W M (List.map (Act i) as) S = Some S' \<Longrightarrow> HangUp \<notin> set as \<Longrightarrow> (own E W M i ^^ length as) S S'"
proof (induction "as" arbitrary: S)
  case (Cons a as)
  from Cons.prems(1) obtain S1 where "dact E W M (Act i a) S = Some S1" "drun E W M (List.map (Act i) as) S1 = Some S'"
    unfolding List.list.map drun.simps by (auto split: option.splits simp del: dact.simps)
  with Cons.IH [of S1] Cons.prems(2) act_own [of E W M i a S S1] have "own E W M i S S1" "(own E W M i ^^ length as) S1 S'"
    by (auto simp del: dact.simps)
  then show ?case unfolding length_Cons by (rule relpowp_Suc_I2)
qed simp

lemma drun_append: "drun E W M (as @ bs) S = (case drun E W M as S of None \<Rightarrow> None | Some S' \<Rightarrow> drun E W M bs S')"
  by (induction "as" arbitrary: S) (auto split: option.split)

text \<open>The client of \<open>slow_schedule\<close> reads on after the second event was published.\<close>

definition catch_up_acts :: "StreamAction list" where
  "catch_up_acts = [Receive, Receive, Wake, BeginRound, AttemptRound, Accept, Receive]"

lemma catch_up_run:
  obtains S S' s s' where "drun sample_external sample_watch sample_mpsc (take 11 slow_schedule) slow_start = Some S"
    and "drun sample_external sample_watch sample_mpsc (List.map (Act 0) catch_up_acts) S = Some S'"
    and "dreachable sample_external sample_watch sample_mpsc (fresh_db []) S"
    and "(own sample_external sample_watch sample_mpsc 0 ^^ 7) S S'" and "idle sample_external sample_watch sample_mpsc 0 S'"
    and "streams S = [s]" and "streams S' = [s']" and "is_served sample_mpsc s" and "healthy (conn (shared (base S)))"
    and "pump_quote (pump (task s)) = ''q''" and "pump_after (pump (task s)) = 0"
    and "bus (shared (base S)) ''q'' = Some (2, 3)"
    and "history_of sample_external (conn (shared (base S))) ''q'' =
      [QuoteCreated ''USD'' ''US'', LineItemAdded ''L1'' ''S'' ''D'' 1 1]"
proof -
  let ?run = "\<lambda>as. drun sample_external sample_watch sample_mpsc as slow_start"
  have "map_option (\<lambda>S. (List.map (\<lambda>s. (is_served sample_mpsc s, pump_quote (pump (task s)), pump_after (pump (task s)))) (streams S),
        healthy (conn (shared (base S))), bus (shared (base S)) ''q'',
        history_of sample_external (conn (shared (base S))) ''q'',
        map_option (\<lambda>S'. (length (streams S'), idle sample_external sample_watch sample_mpsc 0 S'))
          (drun sample_external sample_watch sample_mpsc (List.map (Act 0) catch_up_acts) S))) (?run (take 11 slow_schedule)) =
      Some ([(True, ''q'', 0)], True, Some (2, 3), [QuoteCreated ''USD'' ''US'', LineItemAdded ''L1'' ''S'' ''D'' 1 1],
        Some (1, True))"
    by code_simp
  then obtain S S' where run: "?run (take 11 slow_schedule) = Some S"
      "drun sample_external sample_watch sample_mpsc (List.map (Act 0) catch_up_acts) S = Some S'"
    and S: "List.map (\<lambda>s. (is_served sample_mpsc s, pump_quote (pump (task s)), pump_after (pump (task s)))) (streams S) = [(True, ''q'', 0)]"
      "length (streams S') = 1" "healthy (conn (shared (base S)))" "bus (shared (base S)) ''q'' = Some (2, 3)"
      "history_of sample_external (conn (shared (base S))) ''q'' =
        [QuoteCreated ''USD'' ''US'', LineItemAdded ''L1'' ''S'' ''D'' 1 1]" "idle sample_external sample_watch sample_mpsc 0 S'"
    by auto
  from S(1) obtain s where s: "streams S = [s]" "is_served sample_mpsc s" "pump_quote (pump (task s)) = ''q''" "pump_after (pump (task s)) = 0"
    by (auto simp: map_eq_Cons_conv)
  from S(2) obtain s' where s': "streams S' = [s']" by (auto simp: length_Suc_conv)
  have "length catch_up_acts = 7" by (simp add: catch_up_acts_def)
  moreover have "(own sample_external sample_watch sample_mpsc 0 ^^ length catch_up_acts) S S'"
    by (rule acts_own [OF run(2)]) (simp add: catch_up_acts_def)
  ultimately have "(own sample_external sample_watch sample_mpsc 0 ^^ 7) S S'" by (simp only:)
  with that [OF run drun_reachable [OF run(1) [unfolded slow_start_def]]] S s s' show ?thesis by blast
qed

theorem own_steps_end_witness:
  "\<exists>S S'. drun sample_external sample_watch sample_mpsc (take 11 slow_schedule) slow_start = Some S \<and>
     (own sample_external sample_watch sample_mpsc 0 ^^ 7) S S' \<and> (7 :: nat) \<le> 60"
proof (rule catch_up_run)
  fix S S'
  assume S: "drun sample_external sample_watch sample_mpsc (take 11 slow_schedule) slow_start = Some S"
    "dreachable sample_external sample_watch sample_mpsc (fresh_db []) S" "(own sample_external sample_watch sample_mpsc 0 ^^ 7) S S'"
  with own_steps_end [OF ledger_inv_fresh [OF sample_codec_ok] sample_watch_ok S(2,3) sample_mpsc_ok] show ?thesis by blast
qed

text \<open>
  C11: A client that reads gets everything that is published: when the database works and the head
  on the channel of the quote is the end of its log, then wherever the stream stands, once its own
  steps have come to rest the client has been delivered every committed event after the number
  it asked for.
\<close>

theorem reading_client_gets_everything:
  assumes "ledger_inv E c0" and "watch_ok W" and "dreachable E W M c0 S" and "i < length (streams S)"
    and "s = streams S ! i" and "is_served M s" and "q = pump_quote (pump (task s))" and "a = pump_after (pump (task s))"
    and "healthy (conn (shared (base S)))" and "es = history_of E (conn (shared (base S))) q"
    and "bus (shared (base S)) q = Some w" and "unat (borrow W w) = length es"
    and "(own E W M i)\<^sup>*\<^sup>* S S'" and "idle E W M i S'" and "mpsc_ok M"
  shows "received (delivered (streams S' ! i)) = stored_events q (Suc (unat a)) (drop (unat a) es)"
proof -
  let ?s = "streams S' ! i" and ?l = "shared (base S')"
  have "serves E W M q a es (shared (base S)) s" using assms(6-12) by (simp add: serves_def)
  from own_serves [OF assms(1-3,13,4)] this assms(5,15) have S': "dreachable E W M c0 S'" "i < length (streams S')"
    "serves E W M q a es ?l ?s" by auto
  then obtain v where v: "bus ?l q = Some v" "unat (borrow W v) = length es" and q: "pump_quote (pump (task ?s)) = q"
    and a: "pump_after (pump (task ?s)) = a" and served: "is_served M ?s" and es: "history_of E (conn ?l) q = es"
    by (auto simp: serves_def)
  from dreachable_stream [OF assms(1,2) S'(1,2) assms(15)] obtain t where t: "stream_ok M ?s" "stream_rel ?s t" "task_ok E W ?l t" by blast
  have rest: "queue M ?s = []" "blocked ?s = None" "in_round (task ?s) = None" "phase (pump (task ?s)) = Waiting"
    "\<not> has_changed W v (rx_watch (pump (task ?s)))"
    using idle_served [OF assms(14) served _ assms(15) t(1)] v(1) q by auto
  from t(2) rest have "t = \<lparr>pump = pump (task ?s), in_round = None\<rparr>" by (simp add: stream_rel_def settle_def)
  with t(3) q es have "feed_ok es (pump (task ?s))" "waiting_ok W ?l (pump (task ?s))" by (simp_all add: task_ok_def Let_def)
  moreover from this(2) v rest(4,5) q have "length es \<le> unat (watermark (pump (task ?s)))" by (auto simp: waiting_ok_def)
  moreover have "sent (pump (task ?s)) = delivered ?s"
    using t(1) rest(1) served by (simp add: stream_ok_def is_served_def)
  ultimately show ?thesis using q a rest(4) by (auto simp: feed_ok_def)
qed

theorem reading_client_gets_everything_witness:
  "\<exists>S S'. drun sample_external sample_watch sample_mpsc (take 11 slow_schedule) slow_start = Some S \<and>
     drun sample_external sample_watch sample_mpsc (List.map (Act 0) catch_up_acts) S = Some S' \<and>
     received (delivered (streams S' ! 0)) =
       stored_events ''q'' 1 [QuoteCreated ''USD'' ''US'', LineItemAdded ''L1'' ''S'' ''D'' 1 1]"
proof (rule catch_up_run)
  fix S S' s s'
  assume S: "drun sample_external sample_watch sample_mpsc (take 11 slow_schedule) slow_start = Some S"
    "drun sample_external sample_watch sample_mpsc (List.map (Act 0) catch_up_acts) S = Some S'"
    "dreachable sample_external sample_watch sample_mpsc (fresh_db []) S" "(own sample_external sample_watch sample_mpsc 0 ^^ 7) S S'"
    "idle sample_external sample_watch sample_mpsc 0 S'" "streams S = [s]" "streams S' = [s']" "is_served sample_mpsc s"
    "healthy (conn (shared (base S)))" "pump_quote (pump (task s)) = ''q''" "pump_after (pump (task s)) = 0"
    "bus (shared (base S)) ''q'' = Some (2, 3)" "history_of sample_external (conn (shared (base S))) ''q'' =
      [QuoteCreated ''USD'' ''US'', LineItemAdded ''L1'' ''S'' ''D'' 1 1]"
  have "(own sample_external sample_watch sample_mpsc 0)\<^sup>*\<^sup>* S S'" using S(4) by (rule relpowp_imp_rtranclp)
  from reading_client_gets_everything [OF ledger_inv_fresh [OF sample_codec_ok] sample_watch_ok S(3) _ refl _ refl refl
      _ refl _ _ this S(5) sample_mpsc_ok, of "(2, 3)"] S(1,2,6-13)
  show ?thesis by (simp add: sample_watch_def)
qed

text \<open>
  C12: A subscriber's task can outlive its client for good: when the client of a finalized quote goes
  away while the task waits at the head of the log, no continuation of the run (later requests,
  retries, publications and other streams included) ever ends the task or makes it read the
  database or send, since it only notices a client that is gone when it sends, and there is never
  again an event to send.
\<close>

theorem task_of_finalized_quote_never_ends:
  assumes "ledger_inv E c0" and "watch_ok W" and "dreachable E W M c0 S" and "i < length (streams S)"
    and "s = streams S ! i" and "hung_up M s" and "blocked s = None" and "in_round (task s) = None"
    and "phase (pump (task s)) = Waiting" and "es = history_of E (conn (shared (base S))) (pump_quote (pump (task s)))"
    and "unat (watermark (pump (task s))) = length es" and "replay es = Inr st" and "finalized st"
    and "(dstep E W M)\<^sup>*\<^sup>* S S'" and "mpsc_ok M" and "s' = streams S' ! i"
  shows "i < length (streams S') \<and> phase (pump (task s')) \<noteq> Finished \<and> blocked s' = None \<and> in_round (task s') = None \<and>
    sent (pump (task s')) = sent (pump (task s))"
proof -
  from assms(14) have "dreachable E W M c0 S' \<and> i < length (streams S') \<and>
      lingers E M (sent (pump (task s))) es (shared (base S')) (streams S' ! i)"
  proof (induction rule: rtranclp_induct)
    case base
    with assms(3-11) show ?case by (simp add: lingers_def)
  next
    case (step S1 S2)
    with dstep_lingers [OF assms(1,2) _ step(2) _ _ assms(12,13,15)] show ?case
      by (blast intro: dreachable.next_step)
  qed
  then show ?thesis by (simp add: lingers_def assms(16))
qed

text \<open>A client that leaves after it saw the quote finalized, and a retry afterwards\<close>

definition leave_schedule :: "DAction list" where
  "leave_schedule =
     [Shared (Enter \<lparr>job_quote = ''q'', job_key = ''k1'', job_command = CreateQuote ''USD'' ''US''\<rparr>), Shared RunJob,
      Shared Conclude,
      Shared (Enter \<lparr>job_quote = ''q'', job_key = ''k2'', job_command = AddLineItem ''L1'' ''S'' ''D'' 1 1\<rparr>), Shared RunJob,
      Shared Conclude,
      Shared (Enter \<lparr>job_quote = ''q'', job_key = ''k3'', job_command = FinalizeQuote\<rparr>), Shared RunJob, Shared Conclude,
      Shared (ReadQuote ''q'' 3), OpenStream, Act 0 Accept, Act 0 Receive, Act 0 BeginRound, Act 0 HangUp]"

definition later_schedule :: "DAction list" where
  "later_schedule =
     [Shared (Enter \<lparr>job_quote = ''q'', job_key = ''k3'', job_command = FinalizeQuote\<rparr>), Shared RunJob, Shared Conclude,
      Act 0 Wake, Act 0 BeginRound]"

theorem task_of_finalized_quote_never_ends_witness:
  "\<exists>S S'. drun sample_external sample_watch sample_mpsc leave_schedule slow_start = Some S \<and> hung_up sample_mpsc (streams S ! 0) \<and>
     drun sample_external sample_watch sample_mpsc later_schedule S = Some S' \<and>
     phase (pump (task (streams S' ! 0))) \<noteq> Finished"
proof -
  let ?hist = "\<lambda>S :: (u64 \<times> nat, nat, nat \<times> bool \<times> Message list) Service. history_of sample_external (conn (shared (base S))) ''q''"
  let ?view = "\<lambda>s :: (nat, nat \<times> bool \<times> Message list) Stream. (hung_up sample_mpsc s, Option.is_none (blocked s), in_round (task s), phase (pump (task s)),
      pump_quote (pump (task s)), watermark (pump (task s)))"
  have "map_option (\<lambda>S. (List.map ?view (streams S), ?hist S,
        Option.is_none (drun sample_external sample_watch sample_mpsc later_schedule S)))
      (drun sample_external sample_watch sample_mpsc leave_schedule slow_start) =
      Some ([(True, True, None, Waiting, ''q'', 3)],
        [QuoteCreated ''USD'' ''US'', LineItemAdded ''L1'' ''S'' ''D'' 1 1, QuoteFinalized], False)"
    by code_simp
  then obtain S S' where run: "drun sample_external sample_watch sample_mpsc leave_schedule slow_start = Some S"
      "drun sample_external sample_watch sample_mpsc later_schedule S = Some S'"
    and S: "List.map ?view (streams S) = [(True, True, None, Waiting, ''q'', 3)]"
      "?hist S = [QuoteCreated ''USD'' ''US'', LineItemAdded ''L1'' ''S'' ''D'' 1 1, QuoteFinalized]"
    by (auto simp: Option.is_none_def)
  from S(1) obtain s where s: "streams S = [s]" "hung_up sample_mpsc s" "blocked s = None" "in_round (task s) = None"
    "phase (pump (task s)) = Waiting" "pump_quote (pump (task s)) = ''q''" "watermark (pump (task s)) = 3"
    by (auto simp: map_eq_Cons_conv Option.is_none_def)
  have "map_sum id finalized (replay [QuoteCreated ''USD'' ''US'', LineItemAdded ''L1'' ''S'' ''D'' 1 1, QuoteFinalized]) = Inr True"
    by code_simp
  then obtain st where st: "replay (?hist S) = Inr st" "finalized st" using S(2)
    by (cases "replay (?hist S)") auto
  from task_of_finalized_quote_never_ends [OF ledger_inv_fresh [OF sample_codec_ok] sample_watch_ok
      drun_reachable [OF run(1) [unfolded slow_start_def]] _ refl _ _ _ _ refl _ _ st(2) drun_dsteps [OF run(2)] sample_mpsc_ok refl, of 0]
    s st(1) S(2) run show ?thesis by auto
qed

end
