(* ===== verification/Service_Lifetime.thy ===== *)
theory Service_Lifetime
  imports Stream_Delivery Sqlite_Open
begin

text \<open>
  The service over its whole life: the process of theory \<open>Bounded_Channel\<close> on a database file,
  ended at any moment, with the file opened again by \<open>open_and_migrate\<close>, which may itself fail.
  What a process holds outside the file (the bus, the streams, appends whose closure has not run)
  is lost when it ends.  A transaction in progress is rolled back, so the end of a process falls
  between two closures.
\<close>

section \<open>Nodes\<close>

datatype ('w, 'r, 'm) Node = Up "('w, 'r, 'm) Service" | Down Disk

text \<open>The path does not exist yet.\<close>

definition no_file :: "sqlite_error option list \<Rightarrow> Disk" where
  "no_file os = \<lparr>disk_events = None, disk_keys = None, disk_outcomes = os\<rparr>"

inductive nstep :: "External \<Rightarrow> ('w, 'r) WatchOps \<Rightarrow> 'm MpscOps \<Rightarrow> ('w, 'r, 'm) Node \<Rightarrow> ('w, 'r, 'm) Node \<Rightarrow> bool"
  for E :: External and W :: "('w, 'r) WatchOps" and M :: "'m MpscOps" where
  serves: "dstep E W M S S' \<Longrightarrow> nstep E W M (Up S) (Up S')"
| ends: "nstep E W M (Up S) (Down (disk_of os (conn (shared (base S)))))"
| boots: "open_and_migrate d = (Inr c, d') \<Longrightarrow> nstep E W M (Down d) (Up (start_service c))"
| boot_fails: "open_and_migrate d = (Inl e, d') \<Longrightarrow> nstep E W M (Down d) (Down (d'\<lparr>disk_outcomes := os\<rparr>))"

text \<open>The two tables of a node, as a connection that reads them\<close>

fun stored :: "('w, 'r, 'm) Node \<Rightarrow> Connection" where
  "stored (Up S) = conn (shared (base S))"
| "stored (Down d) = \<lparr>events = fst (disk_rows d), idempotency_keys = snd (disk_rows d), outcomes = []\<rparr>"

section \<open>Rows only accumulate\<close>

lemma on_db_rows:
  "appends_only f \<Longrightarrow> on_db f l = (r, l') \<Longrightarrow> table_prefix (conn l) (conn l')"
  by (auto simp: on_db_def appends_only_def split: prod.splits) (metis snd_conv)

lemma run_job_rows: "run_job E j c = (r, c') \<Longrightarrow> table_prefix c c'"
  unfolding run_job_def by (rule append_one_rows)

lemma subscribe_rows: "subscribe_db E q after c = (r, c') \<Longrightarrow> table_prefix c c'"
  using appends_only_reads [OF subscribe_reads, of E q after] unfolding appends_only_def by (metis snd_conv)

lemma attempt_load_rows: "attempt_load E rd p l = (l', r) \<Longrightarrow> table_prefix (conn l) (conn l')"
  by (auto simp: attempt_load_def sleep_ms_def Let_def split: prod.splits sum.splits if_splits
      dest!: on_db_rows [OF appends_only_reads [OF reads_only_store(4)]])

lemma register_conn: "register W q n l = (rx, l') \<Longrightarrow> conn l' = conn l"
  by (auto simp: register_def Let_def)

lemma cstep_rows:
  assumes "cstep E W S S'"
  shows "table_prefix (conn (shared S)) (conn (shared S'))"
  using assms
proof cases
  case (attempt i p rd l t)
  then show ?thesis by (auto simp: attempt_round_def dest: attempt_load_rows split: prod.splits sum.splits)
qed (auto dest: run_job_rows subscribe_rows register_conn)

lemma stream_act_rows:
  assumes "stream_act E W M a l s = Some (l', s')"
  shows "table_prefix (conn l) (conn l')"
proof (cases a)
  case AttemptRound
  with assms show ?thesis by (auto split: option.splits prod.splits sum.splits dest: attempt_load_rows)
qed (use assms in \<open>auto simp: Let_def split: option.splits prod.splits list.splits if_splits\<close>)

lemma nstep_rows:
  assumes "nstep E W M N N'"
  shows "table_prefix (stored N) (stored N')"
  using assms
proof cases
  case (serves S S')
  from serves(3) show ?thesis
    by (cases; simp add: serves(1,2)) (auto dest: cstep_rows register_conn stream_act_rows)
next
  case (ends S os)
  then show ?thesis by (simp add: disk_rows_def disk_of_def same_tables_def)
next
  case (boots d c d')
  with open_rows [OF boots(3)] show ?thesis
    by (auto simp: start_service_def same_tables_def prod_eq_iff)
next
  case (boot_fails d e d' os)
  from open_keeps_rows boot_fails(3) have "disk_rows d' = disk_rows d" unfolding keeps_rows_def by (metis snd_conv)
  then show ?thesis by (simp add: boot_fails disk_rows_def same_tables_def)
qed

section \<open>What every life keeps\<close>

text \<open>A running process was started on a good database, and a file holds one.\<close>

definition node_ok :: "External \<Rightarrow> ('w, 'r) WatchOps \<Rightarrow> 'm MpscOps \<Rightarrow> ('w, 'r, 'm) Node \<Rightarrow> bool" where
  "node_ok E W M N \<longleftrightarrow> watch_ok W \<and> mpsc_ok M \<and> ledger_inv E (stored N) \<and>
     (case N of Up S \<Rightarrow> \<exists>c0. ledger_inv E c0 \<and> dreachable E W M c0 S | Down d \<Rightarrow> True)"

lemma node_ok_Up: "node_ok E W M (Up S) \<Longrightarrow> \<exists>c0. ledger_inv E c0 \<and> watch_ok W \<and> dreachable E W M c0 S \<and> mpsc_ok M"
  by (auto simp: node_ok_def)

lemma stored_tables:
  "same_tables (stored N) c \<Longrightarrow> ledger_inv E c \<Longrightarrow> ledger_inv E (stored N)"
  by (simp add: ledger_inv_tables(1))

lemma nstep_ok:
  assumes ok: "node_ok E W M N" and "nstep E W M N N'"
  shows "node_ok E W M N'"
  using assms(2)
proof cases
  case (serves S S')
  with ok obtain c0 where c0: "ledger_inv E c0" "watch_ok W" "dreachable E W M c0 S" and M: "mpsc_ok M" using node_ok_Up by blast
  from c0(3) serves(3) have "dreachable E W M c0 S'" by (rule dreachable.next_step)
  with dstep_histories [OF c0 serves(3) M] c0 M show ?thesis by (auto simp: serves node_ok_def)
next
  case (ends S os)
  have "same_tables (conn (shared (base S))) (stored N')" by (simp add: ends disk_rows_def disk_of_def same_tables_def)
  with ok ends show ?thesis by (simp add: node_ok_def ledger_inv_tables(1))
next
  case (boots d c d')
  have "same_tables (stored N) c" using open_rows [OF boots(3)] by (auto simp: boots same_tables_def prod_eq_iff)
  with ok have "ledger_inv E c" by (simp add: node_ok_def ledger_inv_tables(1))
  moreover have "conn (shared (base (start_service c :: ('a, 'b, 'c) Service))) = c" by (simp add: start_service_def)
  ultimately show ?thesis using ok dreachable.start [of E W M c] by (auto simp: boots node_ok_def start_service_def)
next
  case (boot_fails d e d' os)
  from open_keeps_rows boot_fails(3) have "disk_rows d' = disk_rows d" unfolding keeps_rows_def by (metis snd_conv)
  then have "same_tables (stored N) (stored N')" by (simp add: boot_fails disk_rows_def same_tables_def)
  with ok boot_fails show ?thesis by (simp add: node_ok_def ledger_inv_tables(1))
qed

interpretation rows: evolving "nstep E W M" "\<lambda>N. True" "\<lambda>N N'. table_prefix (stored N) (stored N')" for E W M
  by unfold_locales (auto intro: nstep_rows table_prefix_trans)

interpretation life: evolving "nstep E W M" "node_ok E W M" "\<lambda>N N'. table_prefix (stored N) (stored N')" for E W M
  by unfold_locales (auto intro: nstep_ok nstep_rows table_prefix_trans)

lemma no_file_ok: "codec_ok E \<Longrightarrow> watch_ok W \<Longrightarrow> mpsc_ok M \<Longrightarrow> node_ok E W M (Down (no_file os))"
  using ledger_inv_fresh [of E "[]"] by (simp add: node_ok_def no_file_def disk_rows_def fresh_db_def)

lemma life_ok:
  "codec_ok E \<Longrightarrow> watch_ok W \<Longrightarrow> (nstep E W M)\<^sup>*\<^sup>* (Down (no_file os)) N \<Longrightarrow> mpsc_ok M \<Longrightarrow> node_ok E W M N"
  using life.run_ok no_file_ok by blast

section \<open>Concrete lives\<close>

lemma served: "(dstep E W M)\<^sup>*\<^sup>* S S' \<Longrightarrow> (nstep E W M)\<^sup>*\<^sup>* (Up S) (Up S')"
  by (induction rule: rtranclp_induct) (auto intro: nstep.serves rtranclp.rtrancl_into_rtrancl)

lemma first_boot: "nstep E W M (Down (no_file [])) (Up (start_service (fresh_db [])))"
proof -
  have "\<exists>d. open_and_migrate (no_file []) = (Inr (fresh_db []), d)"
    by (simp add: open_and_migrate_def INITIAL_MIGRATION_def exec_def st_bind_def st_return_run no_file_def Let_def
        create_events_def create_idempotency_keys_def create_index_def pragma_def disk_rows_def fresh_db_def)
  then show ?thesis using nstep.boots by blast
qed

text \<open>The process ends and is started again, with no failing statement from there on.\<close>

abbreviation reborn :: "('w, 'r, 'm) Service \<Rightarrow> ('w, 'r, 'm) Service" where
  "reborn S \<equiv> start_service ((conn (shared (base S)))\<lparr>outcomes := []\<rparr>)"

lemma reboot: "(nstep E W M)\<^sup>*\<^sup>* (Up S) (Up (reborn S))"
  using nstep.ends nstep.boots [OF open_reliable] by (rule two_steps)

text \<open>A client that has read event 1 reconnects after the restart.\<close>

definition second_schedule :: "DAction list" where
  "second_schedule = [Shared (ReadQuote ''q'' 1), OpenStream, Act 0 Accept, Act 0 Receive]"

definition two_lives :: "((u64 \<times> nat, nat, nat \<times> bool \<times> Message list) Service \<times> (u64 \<times> nat, nat, nat \<times> bool \<times> Message list) Service) option" where
  "two_lives =
     (case drun sample_external sample_watch sample_mpsc slow_schedule slow_start of
        None \<Rightarrow> None
      | Some S1 \<Rightarrow> map_option (\<lambda>S2. (S1, S2)) (drun sample_external sample_watch sample_mpsc second_schedule (reborn S1)))"

lemma two_lives_run:
  obtains S1 S2 s1 s2 where "two_lives = Some (S1, S2)"
    and "(nstep sample_external sample_watch sample_mpsc)\<^sup>*\<^sup>* (Down (no_file [])) (Up S1)"
    and "(nstep sample_external sample_watch sample_mpsc)\<^sup>*\<^sup>* (Up S1) (Up S2)"
    and "streams S1 = [s1]" and "streams S2 = [s2]"
    and "pump_quote (pump (task s1)) = ''q''" and "pump_quote (pump (task s2)) = ''q''"
    and "pump_after (pump (task s1)) = 0" and "pump_after (pump (task s2)) = 1"
    and "chain_end 0 (delivered s1) = Some 1" and "List.map seq (received (delivered s2)) = [2]"
proof -
  let ?look = "\<lambda>S. List.map (\<lambda>s. (pump_quote (pump (task s)), pump_after (pump (task s)), chain_end 0 (delivered s),
      List.map seq (received (delivered s)))) (streams S)"
  have "map_option (\<lambda>(S1, S2). (?look S1, ?look S2)) two_lives =
      Some ([(''q'', 0, Some 1, [1])], [(''q'', 1, None, [2])])"
    by code_simp
  then obtain S1 S2 where two: "two_lives = Some (S1, S2)"
    and look: "?look S1 = [(''q'', 0, Some 1, [1])]" "?look S2 = [(''q'', 1, None, [2])]" by auto
  from two have run: "drun sample_external sample_watch sample_mpsc slow_schedule slow_start = Some S1"
    "drun sample_external sample_watch sample_mpsc second_schedule (reborn S1) = Some S2"
    by (auto simp: two_lives_def split: option.splits)
  have "(nstep sample_external sample_watch sample_mpsc)\<^sup>*\<^sup>* (Down (no_file [])) (Up S1)"
    using first_boot served [OF drun_dsteps [OF run(1)]] unfolding slow_start_def
    by (rule converse_rtranclp_into_rtranclp)
  moreover have "(nstep sample_external sample_watch sample_mpsc)\<^sup>*\<^sup>* (Up S1) (Up S2)"
    using reboot served [OF drun_dsteps [OF run(2)]] by (rule rtranclp_trans)
  moreover from look(1) obtain s1 where "streams S1 = [s1]" "pump_quote (pump (task s1)) = ''q''"
    "pump_after (pump (task s1)) = 0" "chain_end 0 (delivered s1) = Some 1" by (auto simp: map_eq_Cons_conv)
  moreover from look(2) obtain s2 where "streams S2 = [s2]" "pump_quote (pump (task s2)) = ''q''"
    "pump_after (pump (task s2)) = 1" "List.map seq (received (delivered s2)) = [2]" by (auto simp: map_eq_Cons_conv)
  ultimately show ?thesis using two by (intro that)
qed

section \<open>Properties\<close>

text \<open>
  C8: Nothing that is stored is ever lost or changed: over whatever requests, cancellations, failing
  statements, ends of the process and failing or successful starts, the rows of both tables stay,
  in their order.
\<close>

theorem rows_are_permanent:
  assumes "(nstep E W M)\<^sup>*\<^sup>* N N'"
  shows "prefix (events (stored N)) (events (stored N')) \<and>
    prefix (idempotency_keys (stored N)) (idempotency_keys (stored N'))"
  using rows.run_ok [OF assms] by (simp add: table_prefix_def)

theorem rows_are_permanent_witness:
  "\<exists>S1 S2. two_lives = Some (S1, S2) \<and> prefix (events (stored (Up S1))) (events (stored (Up S2)))"
proof (rule two_lives_run)
  fix S1 S2
  assume "two_lives = Some (S1, S2)" and run: "(nstep sample_external sample_watch sample_mpsc)\<^sup>*\<^sup>* (Up S1) (Up S2)"
  with rows_are_permanent [OF run] show ?thesis by blast
qed

text \<open>
  C7: Whenever one looks at the database in the life of a service that began without a file, running
  or not, the rows of every quote are numbered 1, 2, 3, ... in table order, and the events they hold
  replay to a state that satisfies the domain invariant.
\<close>

theorem logs_replay_for_life:
  assumes "codec_ok E" and "watch_ok W" and "(nstep E W M)\<^sup>*\<^sup>* (Down (no_file os)) N" and "mpsc_ok M"
  shows "\<exists>s. replay (history_of E (stored N) q) = Inr s \<and> quote_inv s \<and>
    List.map row_seq (quote_rows (stored N) q) = List.map of_nat [1 ..< Suc (length (history_of E (stored N) q))]"
  using life_ok [OF assms] by (intro ledger_inv_replays) (simp add: node_ok_def)

theorem logs_replay_for_life_witness:
  "\<exists>S1 S2 s. two_lives = Some (S1, S2) \<and> replay (history_of sample_external (stored (Up S1)) ''q'') = Inr s \<and> quote_inv s"
proof (rule two_lives_run)
  fix S1 S2
  assume "two_lives = Some (S1, S2)" and run: "(nstep sample_external sample_watch sample_mpsc)\<^sup>*\<^sup>* (Down (no_file [])) (Up S1)"
  with logs_replay_for_life [OF sample_codec_ok sample_watch_ok run sample_mpsc_ok, of "''q''"] show ?thesis by blast
qed

text \<open>
  C5: A command takes effect once, however often and however late it is retried: when the step that
  ran its closure has committed, then after any further life of the service, with other requests
  and with any number of ends and starts of the process, the same command under the same key is
  answered with the stored events of the first time and changes no history and no key.
\<close>

theorem retry_survives_crashes:
  assumes "codec_ok E" and "watch_ok W" and "(nstep E W M)\<^sup>*\<^sup>* (Down (no_file os)) (Up S)"
    and "append_one_db E q k cmd (conn (shared (base S))) = (Inr st, c)"
    and "dstep E W M S S1" and "conn (shared (base S1)) = c"
    and "(nstep E W M)\<^sup>*\<^sup>* (Up S1) (Up S2)" and "healthy (conn (shared (base S2)))"
    and "append_one_db E q k cmd (conn (shared (base S2))) = (r, c2)" and "mpsc_ok M"
  shows "r = Inr st \<and> history_of E c2 = history_of E (conn (shared (base S2))) \<and>
    key_of c2 = key_of (conn (shared (base S2)))"
proof -
  have S: "node_ok E W M (Up S)" by (rule life_ok [OF assms(1-3,10)])
  then have "ledger_inv E (conn (shared (base S)))" by (simp add: node_ok_def)
  from committed_after_append [OF this assms(4)] obtain n new where
    com: "committed_as E q k cmd n new c" "st = stored_events q n new" by blast
  have S1: "node_ok E W M (Up S1)" by (rule nstep_ok [OF S nstep.serves [OF assms(5)]])
  from life.run_ok [OF assms(7) S1] have inv: "ledger_inv E (conn (shared (base S2)))"
    and rows: "table_prefix c (conn (shared (base S2)))"
    using assms(6) by (simp_all add: node_ok_def)
  have "ledger_inv E c" using S1 assms(6) by (simp add: node_ok_def)
  from committed_replays [OF inv committed_prefix [OF this com(1) rows] assms(8,9)] com(2)
  show ?thesis by (simp add: same_history_def)
qed

theorem retry_survives_crashes_witness:
  "\<exists>c. append_one_db sample_external ''q'' ''k'' (CreateQuote ''USD'' ''US'') (fresh_db []) =
      (Inr (stored_events ''q'' 1 [QuoteCreated ''USD'' ''US'']), c) \<and>
    fst (append_one_db sample_external ''q'' ''k'' (CreateQuote ''USD'' ''US'') (c\<lparr>outcomes := []\<rparr>)) =
      Inr (stored_events ''q'' 1 [QuoteCreated ''USD'' ''US''])"
proof -
  let ?E = sample_external and ?W = sample_watch and ?M = sample_mpsc and ?cmd = "CreateQuote ''USD'' ''US''"
  let ?j = "\<lparr>job_quote = ''q'', job_key = ''k'', job_command = ?cmd\<rparr>"
  have "fst (append_one_db ?E ''q'' ''k'' ?cmd (fresh_db [])) = Inr (stored_events ''q'' 1 [QuoteCreated ''USD'' ''US''])"
    by code_simp
  then obtain c where first: "append_one_db ?E ''q'' ''k'' ?cmd (fresh_db []) =
      (Inr (stored_events ''q'' 1 [QuoteCreated ''USD'' ''US'']), c)" by (metis prod.collapse)
  let ?S0 = "start_service (fresh_db []) :: (u64 \<times> nat, nat, nat \<times> bool \<times> Message list) Service"
  obtain S where S: "dact ?E ?W ?M (Shared (Enter ?j)) ?S0 = Some S" "conn (shared (base S)) = fresh_db []"
      "running (base S) = [?j]" "no_tasks (base S)"
    by (simp add: no_tasks_def start_service_def start_concurrent_def new_ledger_def)
  then obtain S1 where S1: "dact ?E ?W ?M (Shared RunJob) S = Some S1" "conn (shared (base S1)) = c"
    using first by (simp add: run_job_def no_tasks_def)
  have "(nstep ?E ?W ?M)\<^sup>*\<^sup>* (Down (no_file [])) (Up S)"
    using first_boot nstep.serves [OF dact_dstep [OF S(1)]] by (rule two_steps)
  moreover obtain r c2 where again: "append_one_db ?E ''q'' ''k'' ?cmd (c\<lparr>outcomes := []\<rparr>) = (r, c2)" by fastforce
  moreover have "conn (shared (base (reborn S1))) = c\<lparr>outcomes := []\<rparr>" by (simp add: start_service_def S1(2))
  moreover have "healthy (c\<lparr>outcomes := []\<rparr>)" by (simp add: healthy_def)
  ultimately have "r = Inr (stored_events ''q'' 1 [QuoteCreated ''USD'' ''US''])"
    using retry_survives_crashes [OF sample_codec_ok sample_watch_ok _ _ dact_dstep [OF S1(1)] S1(2) reboot _ _ sample_mpsc_ok, of "[]"]
      first S(2) by simp
  with first again show ?thesis by simp
qed

text \<open>
  C6: A client that reconnects misses nothing and sees nothing twice: what it received on a first
  stream, followed by what it receives on a later one that it opened after the number it had
  reached, is exactly the committed events from where the first stream began, in order, whatever
  happened to the service in between, ends and starts of the process included.
\<close>

theorem reconnecting_client_gapless:
  assumes "codec_ok E" and "watch_ok W" and "(nstep E W M)\<^sup>*\<^sup>* (Down (no_file os)) (Up S1)"
    and "(nstep E W M)\<^sup>*\<^sup>* (Up S1) (Up S2)" and "s1 \<in> set (streams S1)" and "s2 \<in> set (streams S2)"
    and "q = pump_quote (pump (task s1))" and "pump_quote (pump (task s2)) = q"
    and "a = unat (pump_after (pump (task s1)))" and "chain_end a (delivered s1) = Some m"
    and "unat (pump_after (pump (task s2))) = m" and "es = history_of E (conn (shared (base S2))) q"
    and "mpsc_ok M"
  shows "\<exists>n. m \<le> n \<and> n \<le> length es \<and> chain_end m (delivered s2) = Some n \<and>
    received (delivered s1) @ received (delivered s2) = stored_events q (Suc a) (drop a (take n es))"
proof -
  have S1: "node_ok E W M (Up S1)" by (rule life_ok [OF assms(1-3,13)])
  from life.run_ok [OF assms(4) S1] have S2: "node_ok E W M (Up S2)"
    and "table_prefix (conn (shared (base S1))) (conn (shared (base S2)))" by simp_all
  then obtain more where es: "es = history_of E (conn (shared (base S1))) q @ more"
    using table_prefix_history [of "conn (shared (base S1))" "conn (shared (base S2))" E q] assms(12) by (auto simp: prefix_def)
  from node_ok_Up [OF S1] obtain c1 where c1: "ledger_inv E c1" "dreachable E W M c1 S1" by blast
  from delivered_gapless [OF c1(1) assms(2) c1(2) assms(5) refl refl refl assms(13), folded assms(7,9)] assms(10) obtain
    first: "a \<le> m" "m \<le> length (history_of E (conn (shared (base S1))) q)"
      "received (delivered s1) = stored_events q (Suc a) (drop a (take m (history_of E (conn (shared (base S1))) q)))"
    by auto
  from node_ok_Up [OF S2] obtain c2 where c2: "ledger_inv E c2" "dreachable E W M c2 S2" by blast
  from delivered_gapless [OF c2(1) assms(2) c2(2) assms(6) refl refl refl assms(13), unfolded assms(8,11), folded assms(12)]
  obtain n where
    second: "m \<le> n" "n \<le> length es" "chain_end m (delivered s2) = Some n"
      "received (delivered s2) = stored_events q (Suc m) (drop m (take n es))"
    by auto
  have "take m (history_of E (conn (shared (base S1))) q) = take m es" using first(2) by (simp add: es)
  with first(3) second(4) stored_events_range [OF first(1) second(1,2), of q] second show ?thesis by auto
qed

theorem reconnecting_client_gapless_witness:
  "\<exists>S1 S2 s1 s2 es. two_lives = Some (S1, S2) \<and> streams S1 = [s1] \<and> streams S2 = [s2] \<and>
     received (delivered s1) @ received (delivered s2) = stored_events ''q'' 1 es \<and>
     List.map seq (received (delivered s2)) = [2]"
proof (rule two_lives_run)
  fix S1 S2 s1 s2
  assume S: "two_lives = Some (S1, S2)" "(nstep sample_external sample_watch sample_mpsc)\<^sup>*\<^sup>* (Down (no_file [])) (Up S1)"
    "(nstep sample_external sample_watch sample_mpsc)\<^sup>*\<^sup>* (Up S1) (Up S2)" "streams S1 = [s1]" "streams S2 = [s2]"
    "pump_quote (pump (task s1)) = ''q''" "pump_quote (pump (task s2)) = ''q''" "pump_after (pump (task s1)) = 0"
    "pump_after (pump (task s2)) = 1" "chain_end 0 (delivered s1) = Some 1" "List.map seq (received (delivered s2)) = [2]"
  from reconnecting_client_gapless [OF sample_codec_ok sample_watch_ok S(2,3) _ _ S(6) [symmetric] S(7) _ _ _ refl sample_mpsc_ok, of 0 1] S(4,5,8-10)
  obtain n where "received (delivered s1) @ received (delivered s2) =
      stored_events ''q'' 1 (drop 0 (take n (history_of sample_external (conn (shared (base S2))) ''q'')))" by auto
  with S(1,4,5,11) show ?thesis by (intro exI conjI) assumption+
qed

end
