(* ===== verification/Stalls.thy ===== *)
theory Stalls
  imports Concurrent_System
begin

text \<open>
  Three ways in which a subscriber is not told of a committed event: an append whose client goes away
  before it is published, an append between the reads and the registration of a subscription, and
  a retry that publishes an older head.  In each, the task of the subscriber falls asleep behind
  the log, and stays so for as long as nothing is sent on the channel of its quote.
\<close>

section \<open>A task that sleeps\<close>







section \<open>An append, from its start to its end\<close>


definition committed_in :: "('w, 'r) Concurrent \<Rightarrow> Connection \<Rightarrow> 'w Ledger" where
  "committed_in S c = (InFlightGuard_enter (shared S))\<lparr>conn := c\<rparr>"


lemma committed_in_simps [simp]:
  "conn (committed_in S c) = c" "bus (committed_in S c) = bus (shared S)"
  by (simp_all add: committed_in_def)

lemma conclude_bus [simp]:
  "bus (conclude W q (Some h) l) =
     (bus l)(q \<mapsto> send_replace W (case bus l q of Some tx \<Rightarrow> tx | None \<Rightarrow> watch_channel W h) h)"
  by (simp add: conclude_def publish_head_def Let_def)




section \<open>A subscriber that has seen the first event of a quote\<close>






section \<open>Properties\<close>







end
