(* ===== verification/Spec2Isabelle.thy ===== *)
theory Spec2Isabelle
  imports Calm_System Concurrent_Appends Handlers In_Flight_Gauge Latency_Histograms Money_Width Process Repo_Tests
    Row_Types Service_Lifetime Stalls
begin

text \<open>
  A model of \<open>quote-ledger\<close>, a gRPC service that keeps an append-only log of events for each
  quote in SQLite, and the theorems that make it correct.

  \<^bold>\<open>The program.\<close>  A client streams commands to \<open>AppendCommands\<close>.  Each command is decided on
  the state that the events of its quote replay to, its events are stored under a client
  command id in one transaction, and their last number is published on a watch channel of the
  quote.  A client of \<open>SubscribeQuote\<close> gets the events after a number it names, a snapshot, and
  from then on the new events, sent by a task that reads the database whenever the channel
  wakes it.  Around the two handlers are authentication, a rate limit, the start-up
  configuration, the opening of the database and a drain of running appends at shutdown.

  \<^bold>\<open>Theories and sources\<close> (file names under \<open>src/\<close>):

  \<^item> \<open>Prelude\<close>, \<open>Rust_Strings\<close>: what the source uses of the language.  \<open>i64\<close> and \<open>u64\<close> are
    64-bit words read by \<open>sint\<close> and \<open>unat\<close>; \<open>i128\<close> is an integer, and \<open>Money_Width\<close> writes the
    functions that use it out again on 128-bit words and shows that they agree
    (\<open>i128_arithmetic_is_exact\<close>).  \<open>n as f64\<close>, which the gauge is set to, is the nearest 64-bit
    float, ties to even (\<open>as_f64\<close>).  \<open>Result\<close> is a sum with the error on the left; a function that
    also changes state is a \<open>comp\<close>, from a state to a result and a state.  Strings are lists of
    UTF-8 bytes.
  \<^item> \<open>Event_Sourcing\<close>, \<open>Event_Store\<close>: the interfaces.  \<open>event_sourced\<close> says that what \<open>decide\<close>
    accepts, \<open>apply_event\<close> replays, and that the invariant is kept.  \<open>event_reader\<close> and
    \<open>event_store\<close> state what reads and appends do to an abstract view: the list of events of each
    quote and the range of numbers of each idempotency key.
  \<^item> \<open>Domain\<close> (\<open>domain/model.rs\<close>, \<open>domain/error.rs\<close>, \<open>replay\<close> of \<open>domain/mod.rs\<close>): quote state,
    reducer, money arithmetic, command validation.  It interprets \<open>event_sourced\<close>.  \<open>submit\<close> is what
    a command does to the log of a quote: decided on what the stored events replay to, its events
    are appended, and nothing else is looked at.
  \<^item> \<open>Wire\<close> (the messages of the \<open>.proto\<close> file as the generated types have them, \<open>error.rs\<close>,
    gRPC statuses) and \<open>Proto_Mapping\<close> (\<open>mapping.rs\<close>).
  \<^item> \<open>Sqlite_Db\<close>: the two tables of \<open>migrations/001_initial.sql\<close> with their primary keys,
    statements that can fail, transactions that roll back.  \<open>Sqlite_Open\<close>: \<open>sqlite.rs\<close>.
  \<^item> \<open>Store\<close> (\<open>store.rs\<close>), with \<open>Store_Facts\<close> and \<open>Store_Append\<close>, which interpret \<open>event_store\<close>
    on it.  \<open>Sample_Codec\<close> is an encoder for the witnesses.
  \<^item> \<open>Ledger_Core\<close>: the two database closures of \<open>ledger.rs\<close>, over any store, with the abstract
    specification \<open>append_spec\<close>.  \<open>Ledger_Store\<close> and \<open>Ledger_History\<close> run them on the store of
    \<open>store.rs\<close>.
  \<^item> \<open>Ledger_Service\<close> (\<open>LedgerInner\<close>, \<open>append_one\<close>, \<open>validate_identifier\<close>), \<open>Append_Stream\<close>
    (\<open>append_commands\<close>), \<open>Subscribe\<close> (\<open>subscribe_load_between\<close>, \<open>subscribe_quote\<close> and its task).
    What the instruments say of the service: \<open>Stream_Metrics\<close> (the counter of streams),
    \<open>Latency_Histograms\<close> (\<open>AppendOneLatency\<close> and the duration of a stream), \<open>In_Flight_Gauge\<close>
    (\<open>InFlightGuard\<close> with the change of the counter and that of the gauge as two steps).
  \<^item> \<open>Ledger_System\<close>: appends, subscriptions and tasks interleaved, as the step relation \<open>step\<close>.
    A step is what runs without giving up control: a closure on the locked connection, an
    access to the locked bus, one round of a task.  \<open>Handlers\<close> shows that each handler run from
    start to end is a schedule of such steps.  \<open>Calm_System\<close> is the part of the schedules in
    which no publication is out of date.
  \<^item> \<open>Concurrent_System\<close>: the same service at the grain of its awaits, as the relation \<open>cstep\<close>:
    the in-flight guard, clients that go away in the middle of a call, closures that run on
    without their handler, malformed commands that enter and leave the guard only, and a task that
    waits in \<open>changed()\<close>, reads the head with \<open>borrow()\<close> and loads in separate steps, a load being
    interrupted between any two database attempts.  \<open>Stalls\<close> constructs, from any reachable state,
    the runs after which a subscriber is not told of a committed event.  \<open>Simulation\<close> holds two
    interfaces.  \<open>simulation\<close> is that of one relation by another; its interpretation \<open>whole_rounds\<close> says that every state of \<open>Ledger_System\<close> is one of
    this system too.  \<open>evolving\<close> is that of an invariant and of what only grows, which the step
    relations interpret.
  \<^item> \<open>Bounded_Channel\<close>: the same again with the \<open>mpsc::channel(32)\<close> of \<open>subscribe_quote\<close> between a
    task and its client, as the relation \<open>dstep\<close>: a send waits until the channel takes it, the
    client receives or hangs up at any time, and what the task does after a send is the
    continuation \<open>AfterSend\<close>.  The interpretation \<open>channels\<close> of \<open>Simulation\<close> maps it to
    \<open>Concurrent_System\<close>.  \<open>Stream_Delivery\<close> runs one stream on its own steps until it has to wait
    for a publication; \<open>Row_Types\<close> types the rows of the database.  \<open>Order_Independence\<close> and
    \<open>Concurrent_Appends\<close> compare the orders in which several writers add lines to a quote, on the
    aggregate and on the database.
  \<^item> \<open>Service_Lifetime\<close>: the service of \<open>Bounded_Channel\<close> over many processes, as the relation
    \<open>nstep\<close>: a node is up with a service or down with its database file, a process can end at
    any moment, and a start opens the file, with success or without.
  \<^item> \<open>Auth\<close> (\<open>auth.rs\<close>, \<open>grpc_interceptor.rs\<close>), \<open>Config\<close> (\<open>config.rs\<close>), \<open>Shutdown\<close>
    (\<open>shutdown_signal\<close> of \<open>main.rs\<close>), \<open>Startup\<close> (\<open>main\<close> up to \<open>serve_with_shutdown\<close>, and a request
    through the interceptor), \<open>Process\<close> (the whole of \<open>main\<close>, and the metrics endpoint).
  \<^item> \<open>Repo_Tests\<close>: the repository's unit tests, and its integration tests that call the handlers
    one after the other, as closed definitions that evaluate to \<open>True\<close>.

  \<^bold>\<open>What the lemmas show.\<close>
  Domain: a log that grows by submitted commands always replays (\<open>history_replays\<close>), exact totals,
  the conditions of acceptance, nothing happens to a finalized quote, and the order of concurrent
  additions does not matter to the totals.
  Store and ledger: the append refines \<open>append_spec\<close>, failed appends change no row, and a retry
  with the same key returns the events of the first time.
  The whole life of a service, with any number of ends and starts: no row is lost or changed
  (\<open>rows_are_permanent\<close>), the log of each quote replays (\<open>logs_replay_for_life\<close>), a committed
  command is never applied again (\<open>retry_survives_crashes\<close>), and a client that reconnects where
  it stopped misses nothing and sees nothing twice (\<open>reconnecting_client_gapless\<close>).
  Streams: \<open>append_commands\<close> refines \<open>spec_stream\<close>, and when it fails a prefix of its commands
  is committed.
  Subscribers: under every interleaving a client receives consecutive events, each once and in
  order (\<open>client_receives_gapless\<close>).  A stream that is left to itself comes to rest after finitely many steps (\<open>own_steps_end\<close>), and then a client that has
  read everything has every event up to the head on its channel
  (\<open>reading_client_gets_everything\<close>).  That this head is the last event holds in calm schedules
  (\<open>calm_delivery\<close>) and not in all: \<open>registration_can_stall\<close>, \<open>retry_can_stall\<close> and
  \<open>cancelled_append_can_starve\<close> continue any reachable state, in which a subscriber waits or
  subscribes, to one in which a committed event stays unsent for as long as nothing is sent on
  the channel of the quote.  A task whose client has left ends at its next send only, so on a
  finalized quote it never does (\<open>task_of_finalized_quote_never_ends\<close>).
  Service: no request passes the interceptor unauthenticated, an accepted configuration is in
  bounds and is what the service runs with, a restart serves the histories of the state before,
  the drain ends, when it reports that it is drained no handler of an append is running and only
  closures of cancelled appends can still change a row (\<open>drained_means_idle\<close>), and \<open>main\<close> returns
  without an error only after it.
  Instruments: the counter of running appends is exact however the guards interleave
  (\<open>counter_is_exact\<close>), the gauge is not (\<open>gauge_goes_stale\<close>); streams that fail in the check of a
  message or in the database are counted under no result, and failed streams are in no duration histogram.

  \<^bold>\<open>Parameters.\<close>  \<open>External\<close> is the protobuf codec and the texts of errors of SQLite
  (\<open>codec_ok\<close>: what is encoded decodes to itself).  \<open>WatchOps\<close> is the watch channel of tokio
  (\<open>watch_ok\<close>: a receiver has changed when a value was sent after it last looked), \<open>MpscOps\<close> the
  bounded channel to a client (\<open>mpsc_ok\<close>: messages arrive in order, a send waits at the capacity
  and fails once the receiver is dropped).  The byte comparison of \<open>constant_time_eq\<close>, the limiter of governor, \<open>with_interceptor\<close> of tonic
  (\<open>intercepts\<close>: the handler runs on what the interceptor lets through), in \<open>Platform\<close> the parser
  of socket addresses and the \<open>Debug\<close> form of strings, and in \<open>Boot\<close> the outcomes of the calls of
  \<open>main\<close> are arguments too, and so are \<open>serve_with_shutdown\<close> of tonic (\<open>serves_until_signal\<close>: it
  returns without an error only after its signal has resolved) and the handle of the Prometheus
  exporter, and the readings of the monotonic clock.  Outcomes of database statements, frames of
  a stream, and what a client does with its channel are inputs.

  \<^bold>\<open>Bounds.\<close>  The loops end by the bounds of the code: 8 read attempts with 7 sleeps between them
  (10 to 500 ms), 512 commands a stream by default, identifiers of at most 128 bytes, 32 messages
  in a channel, 30 seconds of drain in ticks of 200 ms (\<open>drain_ends\<close>).  No fuel is used: the
  measure \<open>work\<close> of \<open>Stream_Delivery\<close> counts the steps a stream can still take on its own.  A log
  holds fewer than \<open>2 ^ 63\<close> events: the column is a signed integer, and an append beyond it is an
  error.

  \<^bold>\<open>Not modelled.\<close>  The build script and the module declarations only wire up tonic-build and the
  crate; serving itself is tonic's.  Log lines are dropped.  Panics inside a closure (a poisoned
  mutex) cannot occur in the modelled closures.  The SQL engine is represented by its effect on
  the two tables.  What ends is a process, between two closures, since SQLite rolls an unfinished
  transaction back: under \<open>synchronous = NORMAL\<close> a power failure can lose the last commits.
  Of the integration tests, the server and client set-up over a socket
  and the parallel one (its claim is \<open>concurrent_appends_agree\<close>) are not run.  Scripts and alert
  rules are not part of the service.
\<close>

section \<open>After the drain\<close>

text \<open>A step of the service in which it takes no further command\<close>

definition takes_none :: "External \<Rightarrow> ('w, 'r) WatchOps \<Rightarrow> ('w, 'r) Concurrent \<Rightarrow> ('w, 'r) Concurrent \<Rightarrow> bool" where
  "takes_none E W S S' \<longleftrightarrow>
     cstep E W S S' \<and> length (running S') \<le> length (running S) \<and> malformed S' \<le> malformed S"

lemma on_db_tables: "reads_only f \<Longrightarrow> on_db f l = (r, l') \<Longrightarrow> same_tables (conn l) (conn l')"
  by (auto simp: on_db_def reads_only_def split: prod.splits) (metis snd_conv)

lemma attempt_tables: "attempt_round E rd l p = (l', t) \<Longrightarrow> same_tables (conn l) (conn l')"
  by (auto simp: attempt_round_def attempt_load_def sleep_ms_def Let_def split: prod.splits sum.splits if_splits
      dest!: on_db_tables [OF reads_only_store(4)])

lemma subscribe_tables: "subscribe_db E q after c = (r, c') \<Longrightarrow> same_tables c c'"
  using subscribe_reads [of E q after] unfolding reads_only_def by (metis snd_conv)

text \<open>What no running append can change is changed by closures whose handler is gone, or not at all.\<close>

definition only_orphans :: "('w, 'r) Concurrent \<Rightarrow> ('w, 'r) Concurrent \<Rightarrow> bool" where
  "only_orphans S S' \<longleftrightarrow>
     running S' = [] \<and> finishing S' = [] \<and> malformed S' = 0 \<and> mset (orphaned S') \<subseteq># mset (orphaned S) \<and>
     (length (orphaned S') = length (orphaned S) \<longrightarrow> same_tables (conn (shared S)) (conn (shared S')))"

lemma takes_none_orphans:
  assumes "takes_none E W S1 S2" and "only_orphans S S1"
  shows "only_orphans S S2"
proof -
  from assms(1) have "cstep E W S1 S2" "length (running S2) \<le> length (running S1)" "malformed S2 \<le> malformed S1"
    by (simp_all add: takes_none_def)
  then show ?thesis
  proof cases
    case (orphan_runs before j behind r c)
    have "mset (orphaned S1) \<subseteq># mset (orphaned S)" using assms(2) by (simp add: only_orphans_def)
    then have sub: "mset (before @ behind) \<subseteq># mset (orphaned S)"
      by (rule subset_mset.order_trans [rotated]) (simp add: orphan_runs)
    moreover have "length (before @ behind) \<noteq> length (orphaned S)"
      using size_mset_mono [OF \<open>mset (orphaned S1) \<subseteq># mset (orphaned S)\<close>] orphan_runs(2) by simp
    ultimately show ?thesis using assms(2) orphan_runs(1) by (simp add: only_orphans_def)
  next
    case (attempt i p rd l t)
    with assms(2) attempt_tables [OF attempt(4)] show ?thesis
      by (auto simp: only_orphans_def intro: same_tables_trans)
  next
    case (read q after init c bs)
    with assms(2) subscribe_tables [OF read(2)] show ?thesis
      by (auto simp: only_orphans_def intro: same_tables_trans)
  next
    case (read_fails q after e c)
    with assms(2) subscribe_tables [OF read_fails(2)] show ?thesis
      by (auto simp: only_orphans_def intro: same_tables_trans)
  next
    case (register before R behind rx l)
    then have "conn l = conn (shared S1)" by (auto simp: register_def Let_def)
    with register assms(2) show ?thesis by (simp add: only_orphans_def)
  qed (use assms(2) in \<open>simp_all add: only_orphans_def\<close>)
qed

lemma takes_none_run:
  assumes "(takes_none E W)\<^sup>*\<^sup>* S S'" and "running S = []" and "finishing S = []" and "malformed S = 0"
  shows "only_orphans S S'"
  using assms(1)
proof (induction rule: rtranclp_induct)
  case base
  with assms show ?case by (simp add: only_orphans_def)
next
  case (step S1 S2)
  then show ?case using takes_none_orphans by blast
qed

section \<open>Properties that span components\<close>

text \<open>
  C24: The drain at shutdown waits for the handlers of appends, and not for closures whose handler is
  gone: when it reports that it is drained, no handler of any interleaving is between the start
  and the publication of its command, and while no further command comes in none will be.  From
  then on both tables stay as they are for as long as no closure of a cancelled append runs, and
  what was not orphaned at that moment never will be.
\<close>

theorem drained_means_idle:
  assumes "ledger_inv E c0" and "watch_ok W" and "\<forall>t. creachable E W c0 (system t)"
    and "\<forall>t. length (running (system t)) + length (finishing (system t)) + malformed (system t) < 2 ^ 64"
    and "shutdown_signal True (\<lambda>t. in_flight_appends (shared (system t))) extra now = Some (Drained t)"
    and "(takes_none E W)\<^sup>*\<^sup>* (system t) S"
  shows "running (system t) = [] \<and> finishing (system t) = [] \<and> malformed (system t) = 0 \<and>
    running S = [] \<and> finishing S = [] \<and> malformed S = 0 \<and> mset (orphaned S) \<subseteq># mset (orphaned (system t)) \<and>
    (length (orphaned S) = length (orphaned (system t)) \<longrightarrow>
       events (conn (shared S)) = events (conn (shared (system t))) \<and>
       idempotency_keys (conn (shared S)) = idempotency_keys (conn (shared (system t))))"
proof -
  define n where "n = length (running (system t)) + length (finishing (system t)) + malformed (system t)"
  have "conc_inv E W (system t)" using creachable_inv [OF assms(1,2)] assms(3) by blast
  then have "in_flight_appends (shared (system t)) = of_nat n"
    by (simp add: conc_inv_def conc_ok_def n_def)
  moreover have "in_flight_appends (shared (system t)) = 0"
    using drain_loop_sound [where in_flight = "\<lambda>t. in_flight_appends (shared (system t))" and extra = extra
        and deadline = "now + DRAIN_TIMEOUT" and now = now] assms(5)
    by (simp add: shutdown_signal_def)
  moreover have "unat (of_nat n :: u64) = n"
    using assms(4) by (simp add: n_def unat_of_nat take_bit_nat_eq_self del: of_nat_add)
  ultimately have "n = 0" by simp
  then have idle: "running (system t) = []" "finishing (system t) = []" "malformed (system t) = 0" by (simp_all add: n_def)
  from takes_none_run [OF assms(6) this] idle show ?thesis by (simp add: only_orphans_def same_tables_def)
qed

text \<open>
  An append that enters at the start, and whose client goes away between the second and the third
  poll: its closure commits after the drain.
\<close>

definition draining :: "nat \<Rightarrow> (u64 \<times> nat, nat) Concurrent" where
  "draining t =
     (let S = start_concurrent (fresh_db []);
          j = \<lparr>job_quote = ''q'', job_key = ''k'', job_command = CreateQuote ''USD'' ''US''\<rparr>;
          S1 = S\<lparr>shared := InFlightGuard_enter (shared S), running := running S @ [j]\<rparr>
      in if t < 300 then S1 else S1\<lparr>shared := InFlightGuard_drop (shared S1), running := [], orphaned := [j]\<rparr>)"

theorem drained_means_idle_witness:
  "\<exists>S. shutdown_signal True (\<lambda>t. in_flight_appends (shared (draining t))) (\<lambda>_. 0) 0 = Some (Drained 400) \<and>
     (takes_none sample_external sample_watch)\<^sup>*\<^sup>* (draining 400) S \<and>
     running (draining 400) = [] \<and> length (events (conn (shared S))) = 1 \<and> orphaned S = []"
proof -
  let ?S = "start_concurrent (fresh_db []) :: (u64 \<times> nat, nat) Concurrent"
  let ?j = "\<lparr>job_quote = ''q'', job_key = ''k'', job_command = CreateQuote ''USD'' ''US''\<rparr>"
  let ?S1 = "?S\<lparr>shared := InFlightGuard_enter (shared ?S), running := running ?S @ [?j]\<rparr>"
  have one: "creachable sample_external sample_watch (fresh_db []) ?S1"
    by (intro creachable.next_step [OF creachable.start cstep.enter])
  have "cstep sample_external sample_watch ?S1
      (?S1\<lparr>shared := InFlightGuard_drop (shared ?S1), running := [], orphaned := [?j]\<rparr>)"
    using cstep.cancel_running [of ?S1 "[]" ?j "[]"] by (simp add: start_concurrent_def)
  from creachable.next_step [OF one this] one have reach: "\<forall>t. creachable sample_external sample_watch (fresh_db []) (draining t)"
    by (simp add: draining_def Let_def)
  have few: "\<forall>t. length (running (draining t)) + length (finishing (draining t)) + malformed (draining t) < 2 ^ 64"
    by (simp add: draining_def Let_def start_concurrent_def)
  have count: "in_flight_appends (shared (draining t)) = (if t < 300 then 1 else 0)" for t
    by (simp add: draining_def Let_def start_concurrent_def new_ledger_def)
  have drained: "shutdown_signal True (\<lambda>t. in_flight_appends (shared (draining t))) (\<lambda>_. 0) 0 = Some (Drained 400)"
    using drain_ends_promptly [of 2 "\<lambda>t. in_flight_appends (shared (draining t))" 0] by (auto simp: count less_2_cases_iff)
  have "length (events (snd (run_job sample_external ?j (fresh_db [])))) = 1" by code_simp
  then obtain r c where job: "run_job sample_external ?j (fresh_db []) = (r, c)" "length (events c) = 1"
    by (cases "run_job sample_external ?j (fresh_db [])") simp
  have d: "orphaned (draining 400) = [?j]" "conn (shared (draining 400)) = fresh_db []"
    by (simp_all add: draining_def Let_def start_concurrent_def new_ledger_def)
  let ?D = "(draining 400)\<lparr>shared := (shared (draining 400))\<lparr>conn := c\<rparr>, orphaned := []\<rparr>"
  have "cstep sample_external sample_watch (draining 400) ?D"
    using cstep.orphan_runs [of "draining 400" "[]" ?j "[]" sample_external r c] d job(1) by simp
  then have run: "(takes_none sample_external sample_watch)\<^sup>*\<^sup>* (draining 400) ?D"
    by (intro r_into_rtranclp) (simp add: takes_none_def)
  from drained_means_idle [OF ledger_inv_fresh [OF sample_codec_ok] sample_watch_ok reach few drained run] drained run job(2)
  show ?thesis by (intro exI [of _ ?D]) simp
qed

end
